(* ===== verification/Keel_Prelude.thy ===== *)
theory Keel_Prelude
  imports Main "HOL-Library.Word" "HOL-Library.Multiset" "HOL-Library.Monad_Syntax"
begin

text \<open>
  What every component shares: names for the machine types of the C sources, the collections of
  rewrite rules the component proofs use, and the generic lemmas on lists, options and words.

  Conventions of the whole development.
  \<^item> A pointer whose target is not modelled (a callback, a user pointer, an allocator) is its
    identity, a \<open>ptr\<close>; 0 is the null pointer.
  \<^item> A C \<open>int\<close> is an \<open>int\<close> where the code keeps it in range, and its two's complement wrap
    (\<open>wrap32\<close>) is written out where the code computes with a value that may leave the range.
  \<^item> A \<open>size_t\<close> is a \<open>nat\<close> not above \<open>SIZE_MAX\<close>, with the wrap written out where it can occur,
    or a 64-bit word where the code works on its bits.
  \<^item> A handle argument (\<open>KlDrain *d\<close>) is the record it points at, and a buffer argument with its
    length (\<open>const char *data, size_t len\<close>) is the list of the bytes it points at; the guards
    \<open>if (!d) return\<close> on such arguments have no counterpart, since a record is never null.
  \<^item> A C string is the list of its characters before the terminating NUL.
\<close>

section \<open>Machine types\<close>

type_synonym ptr = nat
type_synonym byte = "8 word"
type_synonym u16 = "16 word"
type_synonym u32 = "32 word"
type_synonym u64 = "64 word"

abbreviation (input) NULL :: ptr where "NULL \<equiv> 0"

definition INT_MAX :: int where "INT_MAX = 2147483647"

definition SIZE_MAX :: nat where "SIZE_MAX = 18446744073709551615"

abbreviation (input) UINT64_MAX :: u64 where "UINT64_MAX \<equiv> 18446744073709551615"

text \<open>Reading an integer back after it wrapped around in a 32-bit \<open>int\<close>.\<close>

definition wrap32 :: "int \<Rightarrow> int" where
  "wrap32 i = (i + 2147483648) mod 4294967296 - 2147483648"

lemma wrap32_id: "- 2147483648 \<le> i \<Longrightarrow> i \<le> INT_MAX \<Longrightarrow> wrap32 i = i"
  by (simp add: wrap32_def INT_MAX_def)

section \<open>Collections of rules\<close>

named_theorems keel_defs \<open>definitions a component proof unfolds\<close>
named_theorems keel_inv \<open>preservation of a component's invariant\<close>

section \<open>Lists\<close>

lemma mset_swap [simp]:
  "i < length xs \<Longrightarrow> j < length xs \<Longrightarrow> mset (xs[i := xs ! j, j := xs ! i]) = mset xs"
  by (rule mset_swap)

lemma mset_butlast_update:
  assumes "i < length xs"
  shows "mset (butlast (xs[i := last xs])) = mset xs - {#xs ! i#}"
proof (cases "i = length xs - 1")
  case True
  with assms have ne: "xs \<noteq> []" by auto
  with True have "xs[i := last xs] = xs" and "last xs = xs ! i"
    by (simp_all add: last_conv_nth list_update_same_conv)
  then have eq: "xs[i := last xs] = xs" and la: "last xs = xs ! i" by blast+
  from ne have "mset xs = mset (butlast xs) + {#last xs#}"
    by (metis append_butlast_last_id mset.simps(1) mset.simps(2) mset_append)
  with eq la show ?thesis by simp
next
  case False
  with assms have i: "i < length xs - 1" and ne: "xs \<noteq> []" by auto
  have b: "butlast (xs[i := last xs]) = (butlast xs)[i := last xs]"
    using i by (simp add: butlast_list_update)
  have m: "mset xs = mset (butlast xs) + {#last xs#}"
    using ne by (metis append_butlast_last_id mset.simps(1) mset.simps(2) mset_append)
  have "mset ((butlast xs)[i := last xs]) = add_mset (last xs) (mset (butlast xs) - {#butlast xs ! i#})"
    using i by (simp add: mset_update)
  moreover have "butlast xs ! i = xs ! i" using i by (simp add: nth_butlast)
  moreover have "xs ! i \<in># mset (butlast xs)"
    using i by (metis calculation(2) in_multiset_in_set length_butlast nth_mem)
  ultimately show ?thesis using b m by simp
qed

lemma distinct_mset_subset:
  assumes "mset xs \<subseteq># mset ys" and "distinct ys"
  shows "distinct xs"
  unfolding distinct_count_atmost_1
proof
  fix a
  have "count (mset xs) a \<le> count (mset ys) a" using assms(1) by (rule mset_subset_eq_count)
  also have "\<dots> \<le> 1" using assms(2) by (simp add: distinct_count_atmost_1)
  finally have "count (mset xs) a \<le> 1" .
  then show "count (mset xs) a = (if a \<in> set xs then 1 else 0)"
    by (metis One_nat_def count_mset_0_iff le_Suc_eq le_zero_eq)
qed

lemma length_filter_mset: "length (filter P xs) = size (filter_mset P (mset xs))"
  by (simp flip: mset_filter)

section \<open>Words\<close>

lemma unat_u64_less: "unat (x :: u64) < 18446744073709551616"
  using unsigned_less [of x, where ?'a = nat] by simp

lemma u64_le_max [simp]: "(x :: u64) \<le> UINT64_MAX"
  using unat_u64_less [of x] by (simp add: word_le_nat_alt)

lemma unat_u64_max_minus: "unat (UINT64_MAX - x) = 18446744073709551615 - unat x"
  by (subst unat_sub) simp_all

lemma unat_u64_add: "(d :: u64) \<le> UINT64_MAX - x \<Longrightarrow> unat (x + d) = unat x + unat d"
  using unat_u64_less [of x]
  by (subst unat_add_lem [symmetric]) (simp add: word_le_nat_alt unat_u64_max_minus)

section \<open>Options\<close>

lemma bind_SomeE:
  assumes "Option.bind m f = Some y"
  obtains x where "m = Some x" and "f x = Some y"
  using assms by (cases m) auto

end
