(* ===== verification/Timer.thy ===== *)
theory Timer
  imports Keel_Prelude "HOL-Library.Product_Lexorder"
begin

text \<open>
  The one-shot timers of an event context (\<open>src/timer.c\<close>): an array-based binary min-heap ordered
  by deadline and then by age, the four public operations, and the firing loop with callbacks that
  may add and cancel timers while it runs.

  The array \<open>timers[0..timer_count)\<close> is the list \<open>timers\<close>. What the code asks of its surroundings,
  a clock reading (\<open>kl_monotonic_ms\<close>) or an allocation (\<open>kl_realloc\<close>), is answered by \<open>timer_env\<close>,
  a function of how many questions were asked before (\<open>ticks\<close>).
\<close>

section \<open>State\<close>

record timer_entry =
  deadline_ms :: u64
  te_cb :: ptr
  te_user_data :: ptr
  te_id :: int

record event_ctx =
  timers :: "timer_entry list"
  timer_cap :: int
  timer_next_id :: int
  ticks :: nat

record timer_env =
  env_clock :: "nat \<Rightarrow> u64"
  env_alloc :: "nat \<Rightarrow> bool"

definition kl_monotonic_ms :: "timer_env \<Rightarrow> event_ctx \<Rightarrow> u64 \<times> event_ctx" where
  "kl_monotonic_ms env ctx = (env_clock env (ticks ctx), ctx\<lparr>ticks := Suc (ticks ctx)\<rparr>)"

definition timer_realloc :: "timer_env \<Rightarrow> event_ctx \<Rightarrow> bool \<times> event_ctx" where
  "timer_realloc env ctx = (env_alloc env (ticks ctx), ctx\<lparr>ticks := Suc (ticks ctx)\<rparr>)"

section \<open>The heap\<close>

definition heap_before :: "timer_entry \<Rightarrow> timer_entry \<Rightarrow> bool" where
  "heap_before a b =
     (if deadline_ms a \<noteq> deadline_ms b then deadline_ms a < deadline_ms b else te_id a < te_id b)"

definition heap_swap :: "timer_entry list \<Rightarrow> nat \<Rightarrow> nat \<Rightarrow> timer_entry list" where
  "heap_swap xs i j = xs[i := xs ! j, j := xs ! i]"

definition heap_parent :: "nat \<Rightarrow> nat" where
  "heap_parent i = (i - 1) div 2"

lemma heap_parent_less [simp]: "0 < i \<Longrightarrow> heap_parent i < i"
  by (auto simp: heap_parent_def)

lemma heap_parent_neq [simp]: "0 < i \<Longrightarrow> heap_parent i \<noteq> i"
  by (auto simp: heap_parent_def)

lemma heap_parent_le [simp]: "heap_parent i \<le> i"
  by (auto simp: heap_parent_def)

lemma heap_parent_lessI [simp]: "i < n \<Longrightarrow> heap_parent i < n"
  using heap_parent_le [of i] by linarith

function heap_sift_up :: "timer_entry list \<Rightarrow> nat \<Rightarrow> timer_entry list" where
  "heap_sift_up xs idx =
     (if idx > 0 then
        let parent = heap_parent idx in
        if \<not> heap_before (xs ! idx) (xs ! parent) then xs
        else heap_sift_up (heap_swap xs idx parent) parent
      else xs)"
  by pat_completeness auto
termination
  by (relation "measure snd") auto

definition heap_smallest :: "timer_entry list \<Rightarrow> nat \<Rightarrow> nat \<Rightarrow> nat" where
  "heap_smallest xs n idx =
     (let smallest = idx; left = 2 * idx + 1; right = 2 * idx + 2;
          smallest = (if left < n \<and> heap_before (xs ! left) (xs ! smallest) then left else smallest)
      in if right < n \<and> heap_before (xs ! right) (xs ! smallest) then right else smallest)"

lemma heap_smallest_cases:
  "heap_smallest xs n idx \<in> {idx} \<union> ({2 * idx + 1, 2 * idx + 2} \<inter> {..<n})"
  by (auto simp: heap_smallest_def Let_def)

function heap_sift_down :: "timer_entry list \<Rightarrow> nat \<Rightarrow> nat \<Rightarrow> timer_entry list" where
  "heap_sift_down xs n idx =
     (let smallest = heap_smallest xs n idx in
      if smallest = idx then xs
      else heap_sift_down (heap_swap xs idx smallest) n smallest)"
  by pat_completeness auto
termination
proof (relation "measure (\<lambda>(xs, n, idx). n - idx)")
  fix xs n idx x
  assume "x = heap_smallest xs n idx" and "x \<noteq> idx"
  with heap_smallest_cases [of xs n idx]
  show "((heap_swap xs idx x, n, x), (xs, n, idx)) \<in> measure (\<lambda>(xs, n, idx). n - idx)"
    by auto
qed simp

declare heap_sift_up.simps [simp del] heap_sift_down.simps [simp del]

section \<open>The public operations\<close>

definition KL_TIMER_INIT_CAP :: int where "KL_TIMER_INIT_CAP = 8"

definition SIZEOF_KlTimerEntry :: nat where "SIZEOF_KlTimerEntry = 32"

definition deadline_of :: "u64 \<Rightarrow> u64 \<Rightarrow> u64" where
  "deadline_of now delay = (if delay > UINT64_MAX - now then UINT64_MAX else now + delay)"

definition timer_grow :: "timer_env \<Rightarrow> event_ctx \<Rightarrow> bool \<times> event_ctx" where
  "timer_grow env ctx =
     (if int (length (timers ctx)) \<ge> timer_cap ctx then
        let new_cap = (if timer_cap ctx = 0 then KL_TIMER_INIT_CAP else wrap32 (timer_cap ctx * 2)) in
        if new_cap < timer_cap ctx \<or> nat new_cap > SIZE_MAX div SIZEOF_KlTimerEntry then (False, ctx)
        else let (ok, ctx) = timer_realloc env ctx in
             if \<not> ok then (False, ctx) else (True, ctx\<lparr>timer_cap := new_cap\<rparr>)
      else (True, ctx))"

definition kl_timer_add ::
  "timer_env \<Rightarrow> event_ctx \<Rightarrow> u64 \<Rightarrow> ptr \<Rightarrow> ptr \<Rightarrow> int \<times> event_ctx" where
  "kl_timer_add env ctx delay cb ud =
     (if cb = NULL then (-1, ctx)
      else
        let (grown, ctx) = timer_grow env ctx in
        if \<not> grown then (-1, ctx)
        else
          let id = timer_next_id ctx;
              idx = length (timers ctx);
              (now, ctx) = kl_monotonic_ms env ctx;
              e = \<lparr>deadline_ms = deadline_of now delay, te_cb = cb, te_user_data = ud, te_id = id\<rparr>
          in (id, ctx\<lparr>timer_next_id := id + 1, timers := heap_sift_up (timers ctx @ [e]) idx\<rparr>))"

fun find_timer :: "int \<Rightarrow> timer_entry list \<Rightarrow> nat \<Rightarrow> nat option" where
  "find_timer i [] k = None"
| "find_timer i (e # es) k = (if te_id e = i then Some k else find_timer i es (Suc k))"

definition kl_timer_cancel :: "event_ctx \<Rightarrow> int \<Rightarrow> int \<times> event_ctx" where
  "kl_timer_cancel ctx timer_id =
     (case find_timer timer_id (timers ctx) 0 of
        None \<Rightarrow> (-1, ctx)
      | Some idx \<Rightarrow>
          let n = length (timers ctx) - 1 in
          if idx < n then
            let xs = butlast ((timers ctx)[idx := last (timers ctx)]);
                xs = heap_sift_up xs idx
            in (0, ctx\<lparr>timers := heap_sift_down xs n idx\<rparr>)
          else (0, ctx\<lparr>timers := butlast (timers ctx)\<rparr>))"

definition kl_timer_next_timeout :: "timer_env \<Rightarrow> event_ctx \<Rightarrow> int \<Rightarrow> int \<times> event_ctx" where
  "kl_timer_next_timeout env ctx max_ms =
     (if timers ctx = [] then (max_ms, ctx)
      else
        let (now, ctx) = kl_monotonic_ms env ctx;
            deadline = deadline_ms (timers ctx ! 0)
        in if now \<ge> deadline then (0, ctx)
           else
             let rem = deadline - now in
             if max_ms < 0 then (if uint rem > INT_MAX then INT_MAX else uint rem, ctx)
             else if uint rem < max_ms then (uint rem, ctx)
             else (max_ms, ctx))"

text \<open>What a timer callback does to the timers of its own context: a sequence of API calls.\<close>

datatype timer_act = TAdd u64 ptr ptr | TCancel int

fun run_timer_act :: "timer_env \<Rightarrow> timer_act \<Rightarrow> event_ctx \<Rightarrow> event_ctx" where
  "run_timer_act env (TAdd d cb ud) ctx = snd (kl_timer_add env ctx d cb ud)"
| "run_timer_act env (TCancel i) ctx = snd (kl_timer_cancel ctx i)"

type_synonym timer_callbacks = "ptr \<Rightarrow> ptr \<Rightarrow> timer_act list"

definition timer_pop :: "event_ctx \<Rightarrow> event_ctx" where
  "timer_pop ctx =
     (let n = length (timers ctx) - 1 in
      if n > 0 then
        ctx\<lparr>timers := heap_sift_down (butlast ((timers ctx)[0 := last (timers ctx)])) n 0\<rparr>
      else ctx\<lparr>timers := []\<rparr>)"

fun timer_fire_loop ::
  "nat \<Rightarrow> timer_env \<Rightarrow> timer_callbacks \<Rightarrow> int \<Rightarrow> u64 \<Rightarrow> event_ctx \<Rightarrow> (timer_entry list \<times> event_ctx) option"
where
  "timer_fire_loop 0 env cbs watermark now ctx = None"
| "timer_fire_loop (Suc fuel) env cbs watermark now ctx =
     (if timers ctx \<noteq> [] \<and> deadline_ms (timers ctx ! 0) \<le> now \<and> te_id (timers ctx ! 0) < watermark then
        let e = timers ctx ! 0;
            ctx = timer_pop ctx;
            ctx = fold (run_timer_act env) (cbs (te_cb e) (te_user_data e)) ctx;
            (now, ctx) = kl_monotonic_ms env ctx
        in do { (fired, ctx) \<leftarrow> timer_fire_loop fuel env cbs watermark now ctx;
                Some (e # fired, ctx) }
      else Some ([], ctx))"

definition kl_timer_fire_fuel ::
  "nat \<Rightarrow> timer_env \<Rightarrow> timer_callbacks \<Rightarrow> event_ctx \<Rightarrow> (timer_entry list \<times> event_ctx) option" where
  "kl_timer_fire_fuel fuel env cbs ctx =
     (if timers ctx = [] then Some ([], ctx)
      else let (now, ctx) = kl_monotonic_ms env ctx
           in timer_fire_loop fuel env cbs (timer_next_id ctx) now ctx)"

definition kl_timer_fire ::
  "timer_env \<Rightarrow> timer_callbacks \<Rightarrow> event_ctx \<Rightarrow> (int \<times> event_ctx) option" where
  "kl_timer_fire env cbs ctx =
     map_option (\<lambda>(fired, ctx). (int (length fired), ctx))
       (kl_timer_fire_fuel (Suc (length (timers ctx))) env cbs ctx)"


section \<open>The heap order\<close>

definition tkey :: "timer_entry \<Rightarrow> u64 \<times> int" where
  "tkey e = (deadline_ms e, te_id e)"

lemma heap_before_tkey: "heap_before a b \<longleftrightarrow> tkey a < tkey b"
  by (auto simp: heap_before_def tkey_def less_prod_def)

text \<open>\<open>parent_ok xs i\<close>: the entry at \<open>i\<close> is not before its parent's.\<close>

definition parent_ok :: "timer_entry list \<Rightarrow> nat \<Rightarrow> bool" where
  "parent_ok xs i \<longleftrightarrow> i = 0 \<or> tkey (xs ! (heap_parent i)) \<le> tkey (xs ! i)"

definition is_heap :: "timer_entry list \<Rightarrow> bool" where
  "is_heap xs \<longleftrightarrow> (\<forall>i < length xs. parent_ok xs i)"

text \<open>
  \<open>bridged xs i\<close>: the entries below \<open>i\<close> are not before the entry above \<open>i\<close>, so the entry at \<open>i\<close>
  alone can be out of place.
\<close>

definition bridged :: "timer_entry list \<Rightarrow> nat \<Rightarrow> bool" where
  "bridged xs i \<longleftrightarrow>
     (\<forall>c < length xs. i > 0 \<and> c > 0 \<and> heap_parent c = i \<longrightarrow> tkey (xs ! (heap_parent i)) \<le> tkey (xs ! c))"

definition hole_up :: "timer_entry list \<Rightarrow> nat \<Rightarrow> bool" where
  "hole_up xs i \<longleftrightarrow> (\<forall>j < length xs. j \<noteq> i \<longrightarrow> parent_ok xs j) \<and> bridged xs i"

definition hole_down :: "timer_entry list \<Rightarrow> nat \<Rightarrow> bool" where
  "hole_down xs i \<longleftrightarrow>
     (\<forall>j < length xs. j = 0 \<or> heap_parent j \<noteq> i \<longrightarrow> parent_ok xs j) \<and> bridged xs i"

lemma length_heap_swap [simp]: "length (heap_swap xs i j) = length xs"
  by (simp add: heap_swap_def)

lemma nth_heap_swap:
  "i < length xs \<Longrightarrow> j < length xs \<Longrightarrow> k < length xs \<Longrightarrow>
   heap_swap xs i j ! k = xs ! (if k = i then j else if k = j then i else k)"
  by (auto simp: heap_swap_def nth_list_update)

lemma mset_heap_swap [simp]:
  "i < length xs \<Longrightarrow> j < length xs \<Longrightarrow> mset (heap_swap xs i j) = mset xs"
  by (simp add: heap_swap_def)

lemma length_heap_sift_up [simp]: "length (heap_sift_up xs idx) = length xs"
  by (induction xs idx rule: heap_sift_up.induct) (subst heap_sift_up.simps, simp add: Let_def)

lemma mset_heap_sift_up [simp]: "idx < length xs \<Longrightarrow> mset (heap_sift_up xs idx) = mset xs"
proof (induction xs idx rule: heap_sift_up.induct)
  case (1 xs idx)
  then have "idx > 0 \<Longrightarrow> heap_parent idx < length xs" by auto
  with 1 show ?case by (subst heap_sift_up.simps) (auto simp: Let_def)
qed

lemma hole_up_swap:
  assumes h: "hole_up xs idx" and idx: "0 < idx" "idx < length xs"
    and lt: "tkey (xs ! idx) < tkey (xs ! (heap_parent idx))"
  shows "hole_up (heap_swap xs idx (heap_parent idx)) (heap_parent idx)"
proof -
  let ?p = "heap_parent idx" and ?ys = "heap_swap xs idx (heap_parent idx)"
  have p: "?p < idx" "?p < length xs" using idx by auto
  have nth: "\<And>k. k < length xs \<Longrightarrow> ?ys ! k = xs ! (if k = idx then ?p else if k = ?p then idx else k)"
    using idx p by (simp add: nth_heap_swap)
  have ok: "parent_ok ?ys j" if j: "j < length xs" "j \<noteq> ?p" for j
  proof (cases "j = 0")
    case False
    let ?q = "heap_parent j"
    have q: "?q < j" "?q < length xs" using False j by auto
    consider "j = idx" | "j \<noteq> idx" "?q = idx" | "j \<noteq> idx" "?q \<noteq> idx" "?q = ?p"
      | "j \<noteq> idx" "?q \<noteq> idx" "?q \<noteq> ?p" by blast
    then show ?thesis
    proof cases
      case 1
      then show ?thesis using lt p idx by (simp add: parent_ok_def nth less_imp_le)
    next
      case 2
      then have "tkey (xs ! ?p) \<le> tkey (xs ! j)"
        using h j False idx by (auto simp: hole_up_def bridged_def)
      then show ?thesis using 2 j q p by (simp add: parent_ok_def nth)
    next
      case 3
      then have "tkey (xs ! ?p) \<le> tkey (xs ! j)"
        using h j False by (auto simp: hole_up_def parent_ok_def)
      then have "tkey (xs ! idx) \<le> tkey (xs ! j)" using lt by simp
      then show ?thesis using 3 j q p by (simp add: parent_ok_def nth)
    next
      case 4
      then show ?thesis using h j q False by (auto simp: hole_up_def parent_ok_def nth)
    qed
  qed (simp add: parent_ok_def)
  have "bridged ?ys ?p"
    unfolding bridged_def
  proof (intro allI impI, elim conjE)
    fix c assume c: "c < length ?ys" "0 < ?p" "0 < c" "heap_parent c = ?p"
    let ?g = "heap_parent ?p"
    have g: "?g < ?p" using c by auto
    have gp: "tkey (xs ! ?g) \<le> tkey (xs ! ?p)"
      using h p c by (auto simp: hole_up_def parent_ok_def)
    have cp: "?p < c" using c heap_parent_less by metis
    show "tkey (?ys ! ?g) \<le> tkey (?ys ! c)"
    proof (cases "c = idx")
      case True
      then show ?thesis using gp g p c by (simp add: nth)
    next
      case False
      then have "tkey (xs ! ?p) \<le> tkey (xs ! c)"
        using h c by (auto simp: hole_up_def parent_ok_def)
      with gp have "tkey (xs ! ?g) \<le> tkey (xs ! c)" by (rule order_trans)
      moreover have "?g \<noteq> idx" using g p by linarith
      ultimately show ?thesis using False p c cp by (simp add: nth)
    qed
  qed
  with ok show ?thesis by (simp add: hole_up_def)
qed

lemma is_heap_sift_up: "hole_up xs idx \<Longrightarrow> idx < length xs \<Longrightarrow> is_heap (heap_sift_up xs idx)"
proof (induction xs idx rule: heap_sift_up.induct)
  case (1 xs idx)
  let ?p = "heap_parent idx"
  show ?case
  proof (cases "0 < idx \<and> heap_before (xs ! idx) (xs ! ?p)")
    case True
    then have "hole_up (heap_swap xs idx ?p) ?p"
      using 1 by (intro hole_up_swap) (auto simp: heap_before_tkey)
    moreover have "?p < length xs" using 1 by auto
    ultimately have "is_heap (heap_sift_up (heap_swap xs idx ?p) ?p)"
      using 1(1) True by simp
    then show ?thesis using True by (subst heap_sift_up.simps) (simp add: Let_def)
  next
    case False
    then have "parent_ok xs idx" by (auto simp: parent_ok_def heap_before_tkey not_less)
    then have "is_heap xs" using 1 by (auto simp: hole_up_def is_heap_def)
    then show ?thesis using False by (subst heap_sift_up.simps) (auto simp: Let_def)
  qed
qed

lemma heap_children: "0 < c \<Longrightarrow> heap_parent c = i \<longleftrightarrow> c = 2 * i + 1 \<or> c = 2 * i + 2"
  by (auto simp: heap_parent_def)

lemma heap_parent_child [simp]: "heap_parent (Suc (2 * i)) = i" "heap_parent (Suc (Suc (2 * i))) = i"
  by (auto simp: heap_parent_def)

lemma heap_smallest_child:
  assumes "s = heap_smallest xs n idx" and "s \<noteq> idx"
  shows "0 < s" "heap_parent s = idx" "s < n" "tkey (xs ! s) < tkey (xs ! idx)"
    and "\<And>c. 0 < c \<Longrightarrow> c < n \<Longrightarrow> heap_parent c = idx \<Longrightarrow> tkey (xs ! s) \<le> tkey (xs ! c)"
  using assms
  by (auto simp: heap_smallest_def Let_def heap_before_tkey heap_children split: if_splits)

lemma heap_smallest_self:
  assumes "heap_smallest xs n idx = idx" and "0 < c" "c < n" "heap_parent c = idx"
  shows "tkey (xs ! idx) \<le> tkey (xs ! c)"
  using assms
  by (auto simp: heap_smallest_def Let_def heap_before_tkey heap_children split: if_splits)

lemma length_heap_sift_down [simp]: "length (heap_sift_down xs n idx) = length xs"
  by (induction xs n idx rule: heap_sift_down.induct) (subst heap_sift_down.simps, simp add: Let_def)

lemma heap_smallest_le: "idx < n \<Longrightarrow> heap_smallest xs n idx < n"
  using heap_smallest_cases [of xs n idx] by auto

lemma mset_heap_sift_down [simp]:
  "idx < n \<Longrightarrow> n \<le> length xs \<Longrightarrow> mset (heap_sift_down xs n idx) = mset xs"
proof (induction xs n idx rule: heap_sift_down.induct)
  case (1 xs n idx)
  then show ?case
    using heap_smallest_le [of idx n xs] by (subst heap_sift_down.simps) (auto simp: Let_def)
qed

lemma hole_down_swap:
  assumes h: "hole_down xs idx" and idx: "idx < length xs"
    and s: "s = heap_smallest xs (length xs) idx" "s \<noteq> idx"
  shows "hole_down (heap_swap xs idx s) s"
proof -
  let ?ys = "heap_swap xs idx s"
  note ch = heap_smallest_child [OF s]
  have nth: "\<And>k. k < length xs \<Longrightarrow> ?ys ! k = xs ! (if k = idx then s else if k = s then idx else k)"
    using idx ch by (simp add: nth_heap_swap)
  have lt: "idx < s" using ch(1,2) heap_parent_less by metis
  have ok: "parent_ok ?ys j" if j: "j < length xs" "j = 0 \<or> heap_parent j \<noteq> s" for j
  proof (cases "j = 0")
    case False
    then have q: "heap_parent j < j" "heap_parent j \<noteq> s" using j by auto
    consider "j = s" | "j \<noteq> s" "heap_parent j = idx" | "j = idx"
      | "j \<noteq> s" "j \<noteq> idx" "heap_parent j \<noteq> idx" by blast
    then show ?thesis
    proof cases
      case 1
      then show ?thesis using ch lt j by (simp add: parent_ok_def nth less_imp_le)
    next
      case 2
      moreover from 2 q have "j \<noteq> idx" by auto
      moreover have "tkey (xs ! s) \<le> tkey (xs ! j)" using ch(5) False j 2 by simp
      ultimately show ?thesis using j idx by (simp add: parent_ok_def nth)
    next
      case 3
      then have "tkey (xs ! heap_parent idx) \<le> tkey (xs ! s)"
        using h ch False by (auto simp: hole_down_def bridged_def)
      then show ?thesis using 3 j q lt by (simp add: parent_ok_def nth)
    next
      case 4
      then have "parent_ok xs j" using h j False by (auto simp: hole_down_def)
      then show ?thesis using 4 False j q by (simp add: parent_ok_def nth)
    qed
  qed (simp add: parent_ok_def)
  have "bridged ?ys s"
    unfolding bridged_def
  proof (intro allI impI, elim conjE)
    fix c assume c: "c < length ?ys" "0 < s" "0 < c" "heap_parent c = s"
    then have "s < c" using heap_parent_less by metis
    moreover have "tkey (xs ! s) \<le> tkey (xs ! c)"
      using h c s(2) by (auto simp: hole_down_def parent_ok_def)
    ultimately show "tkey (?ys ! heap_parent s) \<le> tkey (?ys ! c)"
      using c ch lt by (simp add: nth)
  qed
  with ok show ?thesis by (simp add: hole_down_def)
qed

lemma is_heap_sift_down:
  "hole_down xs idx \<Longrightarrow> n = length xs \<Longrightarrow> idx < n \<Longrightarrow> is_heap (heap_sift_down xs n idx)"
proof (induction xs n idx rule: heap_sift_down.induct)
  case (1 xs n idx)
  let ?s = "heap_smallest xs n idx"
  show ?case
  proof (cases "?s = idx")
    case True
    then have "parent_ok xs j" if "j < length xs" for j
      using 1 that heap_smallest_self [OF True]
      by (cases "j = 0 \<or> heap_parent j \<noteq> idx") (auto simp: hole_down_def parent_ok_def)
    then have "is_heap xs" by (simp add: is_heap_def)
    then show ?thesis using True by (subst heap_sift_down.simps) (simp add: Let_def)
  next
    case False
    then have "hole_down (heap_swap xs idx ?s) ?s" and "?s < n"
      using 1 by (auto intro: hole_down_swap heap_smallest_le)
    then have "is_heap (heap_sift_down (heap_swap xs idx ?s) n ?s)"
      using 1 False by simp
    then show ?thesis using False by (subst heap_sift_down.simps) (simp add: Let_def)
  qed
qed

lemma heap_sift_down_id: "is_heap xs \<Longrightarrow> n = length xs \<Longrightarrow> heap_sift_down xs n idx = xs"
proof -
  assume h: "is_heap xs" and n: "n = length xs"
  have "heap_smallest xs n idx = idx"
  proof (rule ccontr)
    assume "heap_smallest xs n idx \<noteq> idx"
    from heap_smallest_child(1-4) [OF refl this] h n show False
      by (auto simp: is_heap_def parent_ok_def)
  qed
  then show ?thesis by (subst heap_sift_down.simps) (simp add: Let_def)
qed

text \<open>The root of a heap is its least entry.\<close>

lemma is_heap_root: "is_heap xs \<Longrightarrow> i < length xs \<Longrightarrow> tkey (xs ! 0) \<le> tkey (xs ! i)"
proof (induction i rule: less_induct)
  case (less i)
  show ?case
  proof (cases "i = 0")
    case False
    with less have "tkey (xs ! 0) \<le> tkey (xs ! heap_parent i)" by simp
    also have "\<dots> \<le> tkey (xs ! i)" using less.prems False by (auto simp: is_heap_def parent_ok_def)
    finally show ?thesis .
  qed simp
qed

section \<open>The invariant of the timers of a context\<close>

definition timer_inv :: "event_ctx \<Rightarrow> bool" where
  "timer_inv ctx \<longleftrightarrow>
     is_heap (timers ctx) \<and> distinct (map te_id (timers ctx)) \<and>
     (\<forall>e \<in> set (timers ctx). te_id e < timer_next_id ctx) \<and> 0 \<le> timer_next_id ctx"

lemma hole_up_snoc: "is_heap xs \<Longrightarrow> hole_up (xs @ [e]) (length xs)"
  by (auto simp: hole_up_def is_heap_def parent_ok_def bridged_def nth_append less_Suc_eq)
     (metis heap_parent_le leD)

text \<open>Replacing one entry of a heap disturbs only the edges at that entry.\<close>

definition hole_at :: "timer_entry list \<Rightarrow> nat \<Rightarrow> bool" where
  "hole_at xs i \<longleftrightarrow>
     (\<forall>j < length xs. j \<noteq> i \<and> (j = 0 \<or> heap_parent j \<noteq> i) \<longrightarrow> parent_ok xs j) \<and> bridged xs i"

lemma hole_at_update: "is_heap xs \<Longrightarrow> hole_at (xs[i := e]) i"
proof -
  assume h: "is_heap xs"
  have "bridged (xs[i := e]) i"
    unfolding bridged_def
  proof (intro allI impI, elim conjE)
    fix c assume c: "c < length (xs[i := e])" "0 < i" "0 < c" "heap_parent c = i"
    then have lt: "i < c" "heap_parent i < i" using heap_parent_less by metis+
    have "parent_ok xs i" "parent_ok xs c" using h c lt by (simp_all add: is_heap_def)
    then have "tkey (xs ! heap_parent i) \<le> tkey (xs ! i)" "tkey (xs ! i) \<le> tkey (xs ! c)"
      using c by (simp_all add: parent_ok_def)
    then show "tkey (xs[i := e] ! heap_parent i) \<le> tkey (xs[i := e] ! c)" using lt by simp
  qed
  then show ?thesis using h by (auto simp: hole_at_def is_heap_def parent_ok_def)
qed

lemma is_heap_butlast: "is_heap xs \<Longrightarrow> is_heap (butlast xs)"
  by (auto simp: is_heap_def parent_ok_def nth_butlast)

lemma hole_at_sift_up:
  assumes h: "hole_at xs i" and i: "i < length xs"
  shows "if 0 < i \<and> heap_before (xs ! i) (xs ! heap_parent i)
         then is_heap (heap_sift_up xs i) else heap_sift_up xs i = xs \<and> hole_down xs i"
proof (cases "0 < i \<and> heap_before (xs ! i) (xs ! heap_parent i)")
  case True
  let ?p = "heap_parent i"
  have "tkey (xs ! i) < tkey (xs ! ?p)" using True by (simp add: heap_before_tkey)
  have "hole_up xs i"
    unfolding hole_up_def
  proof (intro conjI allI impI)
    fix j assume j: "j < length xs" "j \<noteq> i"
    show "parent_ok xs j"
    proof (cases "0 < j \<and> heap_parent j = i")
      case True
      then have "tkey (xs ! ?p) \<le> tkey (xs ! j)"
        using h j \<open>0 < i \<and> _\<close> by (auto simp: hole_at_def bridged_def)
      with \<open>tkey (xs ! i) < tkey (xs ! ?p)\<close> True show ?thesis by (simp add: parent_ok_def)
    next
      case False
      then show ?thesis using h j by (auto simp: hole_at_def)
    qed
  qed (use h in \<open>simp add: hole_at_def\<close>)
  then show ?thesis using True i is_heap_sift_up by simp
next
  case False
  then have "parent_ok xs i" by (auto simp: parent_ok_def heap_before_tkey not_less)
  then have "hole_down xs i" using h by (auto simp: hole_at_def hole_down_def)
  moreover have "heap_sift_up xs i = xs"
    using False by (subst heap_sift_up.simps) (auto simp: Let_def)
  ultimately show ?thesis using False by auto
qed

lemma is_heap_repair:
  assumes "hole_at xs i" "i < length xs" "n = length xs"
  shows "is_heap (heap_sift_down (heap_sift_up xs i) n i)"
  using hole_at_sift_up [OF assms(1,2)] assms heap_sift_down_id [of "heap_sift_up xs i" n i]
    is_heap_sift_down [of xs i n]
  by (auto split: if_splits)

lemma hole_at_replace_last:
  assumes "is_heap xs" "i < length xs - 1"
  shows "hole_at (butlast (xs[i := last xs])) i"
proof -
  have "butlast (xs[i := last xs]) = (butlast xs)[i := last xs]"
    using assms(2) by (simp add: butlast_list_update)
  then show ?thesis using assms(1) by (simp add: hole_at_update is_heap_butlast)
qed

lemma find_timer_Some:
  "find_timer i xs k = Some j \<Longrightarrow> k \<le> j \<and> j - k < length xs \<and> te_id (xs ! (j - k)) = i"
proof (induction xs arbitrary: k)
  case (Cons e es)
  show ?case
  proof (cases "te_id e = i")
    case False
    with Cons have "Suc k \<le> j \<and> j - Suc k < length es \<and> te_id (es ! (j - Suc k)) = i" by simp
    moreover from this have "j - k = Suc (j - Suc k)" by auto
    ultimately show ?thesis by simp
  qed (use Cons.prems in auto)
qed simp

lemma find_timer_None: "find_timer i xs k = None \<longleftrightarrow> i \<notin> te_id ` set xs"
  by (induction xs arbitrary: k) auto

lemma timer_grow_timers [simp]:
  "timers (snd (timer_grow env ctx)) = timers ctx"
  "timer_next_id (snd (timer_grow env ctx)) = timer_next_id ctx"
  "ticks ctx \<le> ticks (snd (timer_grow env ctx))"
  by (auto simp: timer_grow_def timer_realloc_def Let_def)

text \<open>What \<open>kl_timer_add\<close> does: nothing on a failure, or one fresh entry with a saturated deadline.\<close>

lemma kl_timer_add_cases:
  obtains (refused) ctx' where "kl_timer_add env ctx d cb ud = (-1, ctx')"
      "timers ctx' = timers ctx" "timer_next_id ctx' = timer_next_id ctx" "ticks ctx \<le> ticks ctx'"
  | (added) ctx' t where "kl_timer_add env ctx d cb ud = (timer_next_id ctx, ctx')" "cb \<noteq> NULL"
      "timers ctx' = heap_sift_up (timers ctx @
         [\<lparr>deadline_ms = deadline_of (env_clock env t) d, te_cb = cb, te_user_data = ud,
           te_id = timer_next_id ctx\<rparr>]) (length (timers ctx))"
      "timer_next_id ctx' = timer_next_id ctx + 1" "ticks ctx \<le> t" "ticks ctx' = Suc t"
proof (cases "cb \<noteq> NULL \<and> fst (timer_grow env ctx)")
  case True
  let ?c = "snd (timer_grow env ctx)"
  show ?thesis
    by (rule added [of "snd (kl_timer_add env ctx d cb ud)" "ticks ?c"])
       (use True in \<open>auto simp: kl_timer_add_def kl_monotonic_ms_def Let_def split_beta\<close>)
next
  case False
  then show ?thesis
    by (intro refused [of "snd (kl_timer_add env ctx d cb ud)"])
       (auto simp: kl_timer_add_def Let_def split_beta)
qed

lemma timer_inv_add: "timer_inv ctx \<Longrightarrow> timer_inv (snd (kl_timer_add env ctx d cb ud))"
proof (rule kl_timer_add_cases [of env ctx d cb ud])
  fix ctx' t
  assume inv: "timer_inv ctx" and r: "kl_timer_add env ctx d cb ud = (timer_next_id ctx, ctx')"
    and id: "timer_next_id ctx' = timer_next_id ctx + 1"
    and x: "timers ctx' = heap_sift_up (timers ctx @
         [\<lparr>deadline_ms = deadline_of (env_clock env t) d, te_cb = cb, te_user_data = ud,
           te_id = timer_next_id ctx\<rparr>]) (length (timers ctx))" (is "_ = heap_sift_up ?ys _")
  have m: "mset (timers ctx') = mset ?ys" by (simp add: x)
  have st: "set (timers ctx') = set ?ys" by (metis m set_mset_mset)
  have "mset (map te_id (timers ctx')) = mset (map te_id ?ys)" using m by simp
  then have "distinct (map te_id (timers ctx')) = distinct (map te_id ?ys)"
    by (rule mset_eq_imp_distinct_iff)
  moreover have "distinct (map te_id ?ys)" using inv by (auto simp: timer_inv_def)
  moreover have "is_heap (timers ctx')"
    using inv by (simp add: x timer_inv_def is_heap_sift_up hole_up_snoc)
  ultimately show ?thesis using inv r id st by (fastforce simp: timer_inv_def)
qed (simp_all add: timer_inv_def)

text \<open>Removing the entry at an index, as \<open>kl_timer_cancel\<close> and the firing loop do.\<close>

lemma timer_inv_remove:
  assumes inv: "timer_inv ctx" and i: "i < length (timers ctx)"
    and m: "mset xs = mset (timers ctx) - {#timers ctx ! i#}" and h: "is_heap xs"
  shows "timer_inv (ctx\<lparr>timers := xs\<rparr>)"
proof -
  have st: "set xs \<subseteq> set (timers ctx)"
    by (metis m diff_subset_eq_self set_mset_mono set_mset_mset)
  have "mset (map te_id xs) \<subseteq># mset (map te_id (timers ctx))"
    using m by (metis diff_subset_eq_self image_mset_subseteq_mono mset_map)
  then have "distinct (map te_id xs)"
    by (rule distinct_mset_subset) (use inv in \<open>simp add: timer_inv_def\<close>)
  then show ?thesis using inv h st by (auto simp: timer_inv_def)
qed

lemma kl_timer_cancel_None:
  "timer_id \<notin> te_id ` set (timers ctx) \<Longrightarrow> kl_timer_cancel ctx timer_id = (-1, ctx)"
  by (simp add: kl_timer_cancel_def find_timer_None [THEN iffD2])

lemma kl_timer_cancel_Some:
  assumes inv: "timer_inv ctx" and ex: "timer_id \<in> te_id ` set (timers ctx)"
  obtains i xs where "i < length (timers ctx)" "te_id (timers ctx ! i) = timer_id"
    "kl_timer_cancel ctx timer_id = (0, ctx\<lparr>timers := xs\<rparr>)"
    "mset xs = mset (timers ctx) - {#timers ctx ! i#}" "is_heap xs"
proof -
  let ?t = "timers ctx" and ?n = "length (timers ctx) - 1"
  from ex obtain i where f: "find_timer timer_id ?t 0 = Some i"
    using find_timer_None [of timer_id ?t 0] by (cases "find_timer timer_id ?t 0") auto
  from find_timer_Some [OF this] have i: "i < length ?t" and id: "te_id (?t ! i) = timer_id" by auto
  have heap: "is_heap ?t" using inv by (simp add: timer_inv_def)
  show thesis
  proof (cases "i < ?n")
    case True
    let ?b = "butlast (?t[i := last ?t])"
    let ?xs = "heap_sift_down (heap_sift_up ?b i) ?n i"
    have "is_heap ?xs" using is_heap_repair [OF hole_at_replace_last [OF heap True]] True by simp
    moreover have "mset ?xs = mset ?t - {#?t ! i#}"
      using True i by (simp add: mset_butlast_update)
    moreover have "kl_timer_cancel ctx timer_id = (0, ctx\<lparr>timers := ?xs\<rparr>)"
      using f True by (simp add: kl_timer_cancel_def Let_def)
    ultimately show thesis using that i id by blast
  next
    case False
    then have il: "i = ?n" using i by simp
    then have "?t[i := last ?t] = ?t" using i by (cases "?t = []") (auto simp: last_conv_nth)
    then have "mset (butlast ?t) = mset ?t - {#?t ! i#}"
      using mset_butlast_update [OF i] by simp
    moreover have "kl_timer_cancel ctx timer_id = (0, ctx\<lparr>timers := butlast ?t\<rparr>)"
      using f il by (simp add: kl_timer_cancel_def Let_def)
    ultimately show thesis using that i id is_heap_butlast [OF heap] by blast
  qed
qed

lemma timer_inv_cancel: "timer_inv ctx \<Longrightarrow> timer_inv (snd (kl_timer_cancel ctx i))"
proof (cases "i \<in> te_id ` set (timers ctx)")
  case True
  assume inv: "timer_inv ctx"
  from inv True obtain k xs where "k < length (timers ctx)"
    "kl_timer_cancel ctx i = (0, ctx\<lparr>timers := xs\<rparr>)"
    "mset xs = mset (timers ctx) - {#timers ctx ! k#}" "is_heap xs"
    by (rule kl_timer_cancel_Some)
  with inv show ?thesis by (simp add: timer_inv_remove)
qed (simp add: kl_timer_cancel_None)

lemma timer_pop:
  assumes inv: "timer_inv ctx" and ne: "timers ctx \<noteq> []"
  shows "mset (timers (timer_pop ctx)) = mset (timers ctx) - {#timers ctx ! 0#}"
    and "timer_inv (timer_pop ctx)"
    and "timer_next_id (timer_pop ctx) = timer_next_id ctx" and "ticks (timer_pop ctx) = ticks ctx"
proof -
  let ?t = "timers ctx" and ?n = "length (timers ctx) - 1"
  have heap: "is_heap ?t" using inv by (simp add: timer_inv_def)
  obtain xs where p: "timer_pop ctx = ctx\<lparr>timers := xs\<rparr>"
    and m: "mset xs = mset ?t - {#?t ! 0#}" and h: "is_heap xs"
  proof (cases "?n > 0")
    case True
    let ?b = "butlast (?t[0 := last ?t])"
    have "hole_at ?b 0" using True by (intro hole_at_replace_last [OF heap]) simp
    then have "hole_down ?b 0" using hole_at_sift_up [of ?b 0] True by auto
    then have "is_heap (heap_sift_down ?b ?n 0)" using True by (intro is_heap_sift_down) auto
    moreover have "mset (heap_sift_down ?b ?n 0) = mset ?t - {#?t ! 0#}"
      using True ne by (simp add: mset_butlast_update)
    ultimately show thesis
      using that [of "heap_sift_down ?b ?n 0"] True by (simp add: timer_pop_def Let_def)
  next
    case False
    then obtain e where "?t = [e]" using ne by (cases ?t) auto
    then show thesis using that [of "[]"] by (simp add: timer_pop_def is_heap_def)
  qed
  show "mset (timers (timer_pop ctx)) = mset ?t - {#?t ! 0#}" using p m by simp
  show "timer_inv (timer_pop ctx)" unfolding p using inv ne m h by (intro timer_inv_remove [of _ 0]) auto
  show "timer_next_id (timer_pop ctx) = timer_next_id ctx" "ticks (timer_pop ctx) = ticks ctx"
    using p by simp_all
qed

section \<open>The heap as a queue of entries by key\<close>

text \<open>
  What the firing loop needs from the heap: the top is a least entry, and popping removes the top
  and nothing else.
\<close>

locale min_queue =
  fixes entries :: "'q \<Rightarrow> 'e multiset" and inv :: "'q \<Rightarrow> bool"
    and top :: "'q \<Rightarrow> 'e" and pop :: "'q \<Rightarrow> 'q" and key :: "'e \<Rightarrow> 'k::linorder"
  assumes top_in: "inv q \<Longrightarrow> entries q \<noteq> {#} \<Longrightarrow> top q \<in># entries q"
    and top_least: "inv q \<Longrightarrow> e \<in># entries q \<Longrightarrow> key (top q) \<le> key e"
    and entries_pop: "inv q \<Longrightarrow> entries q \<noteq> {#} \<Longrightarrow> entries (pop q) = entries q - {#top q#}"
    and inv_pop: "inv q \<Longrightarrow> entries q \<noteq> {#} \<Longrightarrow> inv (pop q)"
begin

lemma entries_split:
  "inv q \<Longrightarrow> entries q \<noteq> {#} \<Longrightarrow> entries q = add_mset (top q) (entries (pop q))"
  by (simp add: entries_pop top_in)

lemma top_le_rest:
  "inv q \<Longrightarrow> entries q \<noteq> {#} \<Longrightarrow> e \<in># entries (pop q) \<Longrightarrow> key (top q) \<le> key e"
  by (simp add: entries_split top_least)

lemma filter_pop:
  "inv q \<Longrightarrow> entries q \<noteq> {#} \<Longrightarrow> P (top q) \<Longrightarrow>
   filter_mset P (entries q) = add_mset (top q) (filter_mset P (entries (pop q)))"
  by (simp add: entries_split)

end

interpretation tq: min_queue "\<lambda>ctx. mset (timers ctx)" timer_inv "\<lambda>ctx. timers ctx ! 0" timer_pop tkey
proof unfold_locales
  fix ctx e
  assume inv: "timer_inv ctx" and e: "e \<in># mset (timers ctx)"
  then obtain i where "i < length (timers ctx)" "e = timers ctx ! i"
    by (auto simp: in_set_conv_nth)
  with inv show "tkey (timers ctx ! 0) \<le> tkey e" by (simp add: timer_inv_def is_heap_root)
qed (simp_all add: timer_pop)

section \<open>The firing loop\<close>

abbreviation old_timers :: "int \<Rightarrow> event_ctx \<Rightarrow> timer_entry multiset" where
  "old_timers wm ctx \<equiv> filter_mset (\<lambda>e. te_id e < wm) (mset (timers ctx))"

text \<open>
  \<open>fire_inv env wm t0 now0\<close>: the state between two callbacks of a firing loop that began after \<open>t0\<close>
  questions to the environment, with clock reading \<open>now0\<close> and watermark \<open>wm\<close>.
\<close>

definition fire_inv :: "int \<Rightarrow> nat \<Rightarrow> u64 \<Rightarrow> event_ctx \<Rightarrow> bool" where
  "fire_inv wm t0 now0 ctx \<longleftrightarrow>
     timer_inv ctx \<and> wm \<le> timer_next_id ctx \<and> t0 \<le> ticks ctx \<and>
     (\<forall>e \<in> set (timers ctx). wm \<le> te_id e \<longrightarrow> now0 \<le> deadline_ms e)"

lemma deadline_of_ge: "now \<le> deadline_of now d"
  by (auto simp: deadline_of_def not_less word_le_nat_alt [of now "now + d"] unat_u64_add)

lemma fire_inv_add:
  assumes inv: "fire_inv wm t0 now0 ctx" and clk: "\<And>t. t0 \<le> t \<Longrightarrow> now0 \<le> env_clock env t"
  shows "fire_inv wm t0 now0 (snd (kl_timer_add env ctx d cb ud))" (is ?inv)
    and "old_timers wm (snd (kl_timer_add env ctx d cb ud)) \<subseteq># old_timers wm ctx" (is ?old)
proof -
  have ti: "timer_inv (snd (kl_timer_add env ctx d cb ud))"
    using inv by (simp add: fire_inv_def timer_inv_add)
  have "?inv \<and> ?old"
  proof (rule kl_timer_add_cases [of env ctx d cb ud])
    fix ctx' t
    let ?e = "\<lparr>deadline_ms = deadline_of (env_clock env t) d, te_cb = cb, te_user_data = ud,
               te_id = timer_next_id ctx\<rparr>"
    assume r: "kl_timer_add env ctx d cb ud = (timer_next_id ctx, ctx')"
      and x: "timers ctx' = heap_sift_up (timers ctx @ [?e]) (length (timers ctx))"
      and id: "timer_next_id ctx' = timer_next_id ctx + 1" and t: "ticks ctx \<le> t" "ticks ctx' = Suc t"
    have m: "mset (timers ctx') = add_mset ?e (mset (timers ctx))" by (simp add: x)
    have st: "set (timers ctx') = insert ?e (set (timers ctx))"
      by (metis m set_mset_add_mset_insert set_mset_mset)
    have "now0 \<le> env_clock env t" using inv t clk by (simp add: fire_inv_def)
    also have "\<dots> \<le> deadline_of (env_clock env t) d" by (rule deadline_of_ge)
    finally show "?inv \<and> ?old"
      using inv ti id t st r m by (auto simp: fire_inv_def)
  qed (use inv ti in \<open>auto simp: fire_inv_def\<close>)
  then show ?inv ?old by simp_all
qed

lemma fire_inv_cancel:
  assumes inv: "fire_inv wm t0 now0 ctx"
  shows "fire_inv wm t0 now0 (snd (kl_timer_cancel ctx i))" (is ?inv)
    and "old_timers wm (snd (kl_timer_cancel ctx i)) \<subseteq># old_timers wm ctx" (is ?old)
proof -
  have ti: "timer_inv ctx" using inv by (simp add: fire_inv_def)
  have "?inv \<and> ?old"
  proof (cases "i \<in> te_id ` set (timers ctx)")
    case True
    from ti True obtain k xs where k: "k < length (timers ctx)"
      and c: "kl_timer_cancel ctx i = (0, ctx\<lparr>timers := xs\<rparr>)"
      and m: "mset xs = mset (timers ctx) - {#timers ctx ! k#}" and "is_heap xs"
      by (rule kl_timer_cancel_Some)
    have "set xs \<subseteq> set (timers ctx)"
      by (metis m diff_subset_eq_self set_mset_mono set_mset_mset)
    then show ?thesis
      using inv timer_inv_cancel [OF ti, of i] c m by (auto simp: fire_inv_def multiset_filter_mono)
  qed (use inv in \<open>simp add: kl_timer_cancel_None\<close>)
  then show ?inv ?old by simp_all
qed

lemma fire_inv_act:
  assumes "fire_inv wm t0 now0 ctx" and "\<And>t. t0 \<le> t \<Longrightarrow> now0 \<le> env_clock env t"
  shows "fire_inv wm t0 now0 (run_timer_act env a ctx)"
    and "old_timers wm (run_timer_act env a ctx) \<subseteq># old_timers wm ctx"
  using assms by (cases a; simp add: fire_inv_add fire_inv_cancel)+

lemma fire_inv_acts:
  assumes "fire_inv wm t0 now0 ctx" and clk: "\<And>t. t0 \<le> t \<Longrightarrow> now0 \<le> env_clock env t"
  shows "fire_inv wm t0 now0 (fold (run_timer_act env) as ctx) \<and>
         old_timers wm (fold (run_timer_act env) as ctx) \<subseteq># old_timers wm ctx"
  using assms(1)
proof (induction as arbitrary: ctx)
  case (Cons a as)
  note fire_inv_act [OF Cons.prems clk, of a]
  with Cons.IH [of "run_timer_act env a ctx"] show ?case
    by (auto intro: subset_mset.order_trans)
qed simp

lemma unat_deadline_of: "unat (deadline_of now d) = min 18446744073709551615 (unat now + unat d)"
proof (cases "d \<le> UINT64_MAX - now")
  case True
  then have "unat d \<le> 18446744073709551615 - unat now"
    by (simp add: word_le_nat_alt unat_u64_max_minus)
  with True show ?thesis
    using unat_u64_less [of now] by (simp add: deadline_of_def unat_u64_add not_less [symmetric])
next
  case False
  then have "18446744073709551615 - unat now < unat d"
    by (simp add: word_le_nat_alt unat_u64_max_minus)
  with False show ?thesis by (simp add: deadline_of_def not_le)
qed

text \<open>The result of one iteration, when the top is due and old.\<close>

definition fire_once :: "timer_env \<Rightarrow> timer_callbacks \<Rightarrow> event_ctx \<Rightarrow> event_ctx" where
  "fire_once env cbs ctx =
     fold (run_timer_act env) (cbs (te_cb (timers ctx ! 0)) (te_user_data (timers ctx ! 0))) (timer_pop ctx)"

lemma fire_once:
  assumes inv: "fire_inv wm t0 now0 ctx" and clk: "\<And>t. t0 \<le> t \<Longrightarrow> now0 \<le> env_clock env t"
    and ne: "timers ctx \<noteq> []" and old: "te_id (timers ctx ! 0) < wm"
  shows "fire_inv wm t0 now0 (fire_once env cbs ctx)"
    and "add_mset (timers ctx ! 0) (old_timers wm (fire_once env cbs ctx)) \<subseteq># old_timers wm ctx"
    and "\<And>e. e \<in># old_timers wm (fire_once env cbs ctx) \<Longrightarrow> tkey (timers ctx ! 0) < tkey e"
proof -
  let ?e = "timers ctx ! 0" and ?p = "timer_pop ctx"
  have ti: "timer_inv ctx" using inv by (simp add: fire_inv_def)
  note split = tq.entries_split [OF ti, simplified, OF ne]
  have st: "set (timers ctx) = insert ?e (set (timers ?p))"
    using arg_cong [OF split, of set_mset] by simp
  have pinv: "fire_inv wm t0 now0 ?p"
    using inv st timer_pop [OF ti ne] by (auto simp: fire_inv_def)
  note acts = fire_inv_acts [OF pinv clk, of "cbs (te_cb ?e) (te_user_data ?e)"]
  then show "fire_inv wm t0 now0 (fire_once env cbs ctx)" by (simp add: fire_once_def)
  have sub: "old_timers wm (fire_once env cbs ctx) \<subseteq># old_timers wm ?p"
    using acts by (simp add: fire_once_def)
  then show "add_mset ?e (old_timers wm (fire_once env cbs ctx)) \<subseteq># old_timers wm ctx"
    using old by (simp add: tq.filter_pop [OF ti, simplified, OF ne])
  show "tkey ?e < tkey e" if "e \<in># old_timers wm (fire_once env cbs ctx)" for e
  proof -
    from that sub have "e \<in># old_timers wm ?p" by (meson mset_subset_eqD)
    then have e: "e \<in> set (timers ?p)" by simp
    then have "tkey ?e \<le> tkey e" using tq.top_le_rest [OF ti] ne by simp
    moreover have "distinct (map te_id (timers ctx))" using ti by (simp add: timer_inv_def)
    then have "distinct (te_id ?e # map te_id (timers ?p))"
      by (rule distinct_mset_subset [rotated]) (simp add: split)
    then have "te_id ?e \<noteq> te_id e" using e by auto
    ultimately show ?thesis by (auto simp: tkey_def less_le)
  qed
qed

lemma timer_fire_loop_fire_once:
  "timer_fire_loop (Suc fuel) env cbs wm now ctx =
     (if timers ctx \<noteq> [] \<and> deadline_ms (timers ctx ! 0) \<le> now \<and> te_id (timers ctx ! 0) < wm then
        do { (fired, ctx') \<leftarrow> timer_fire_loop fuel env cbs wm
               (env_clock env (ticks (fire_once env cbs ctx)))
               ((fire_once env cbs ctx)\<lparr>ticks := Suc (ticks (fire_once env cbs ctx))\<rparr>);
             Some (timers ctx ! 0 # fired, ctx') }
      else Some ([], ctx))"
  by (simp add: fire_once_def kl_monotonic_ms_def Let_def)

declare timer_fire_loop.simps(2) [simp del]

text \<open>
  The loop returns, having fired old entries in the order of their keys, each at most once; every old
  entry that is left was not due when the loop began.
\<close>

lemma timer_fire_loop_spec:
  assumes "fire_inv wm t0 now0 ctx" and clk: "\<And>t. t0 \<le> t \<Longrightarrow> now0 \<le> env_clock env t"
    and "now0 \<le> now" and "size (old_timers wm ctx) < fuel"
  shows "\<exists>fired ctx'. timer_fire_loop fuel env cbs wm now ctx = Some (fired, ctx') \<and>
           fire_inv wm t0 now0 ctx' \<and> mset fired \<subseteq># old_timers wm ctx \<and>
           sorted_wrt (\<lambda>a b. tkey a < tkey b) fired \<and>
           (\<forall>e \<in># old_timers wm ctx'. now0 < deadline_ms e)"
  using assms(1,3,4)
proof (induction fuel arbitrary: now ctx)
  case (Suc fuel)
  let ?top = "timers ctx ! 0"
  have ti: "timer_inv ctx" using Suc.prems by (simp add: fire_inv_def)
  show ?case
  proof (cases "timers ctx \<noteq> [] \<and> deadline_ms ?top \<le> now \<and> te_id ?top < wm")
    case True
    let ?c = "fire_once env cbs ctx"
    let ?c' = "?c\<lparr>ticks := Suc (ticks ?c)\<rparr>"
    note once = fire_once [OF Suc.prems(1) clk, where cbs = cbs]
    have o: "fire_inv wm t0 now0 ?c" "add_mset ?top (old_timers wm ?c) \<subseteq># old_timers wm ctx"
      "\<And>e. e \<in># old_timers wm ?c \<Longrightarrow> tkey ?top < tkey e"
      using once True by blast+
    have inv: "fire_inv wm t0 now0 ?c'" using o(1) by (simp add: fire_inv_def timer_inv_def)
    have now: "now0 \<le> env_clock env (ticks ?c)" using o(1) clk by (simp add: fire_inv_def)
    have "size (add_mset ?top (old_timers wm ?c)) \<le> size (old_timers wm ctx)"
      using o(2) by (rule size_mset_mono)
    then have sz: "size (old_timers wm ?c') < fuel" using Suc.prems(3) by simp
    from Suc.IH [OF inv now sz] obtain fired ctx' where
      f: "timer_fire_loop fuel env cbs wm (env_clock env (ticks ?c)) ?c' = Some (fired, ctx')"
      "fire_inv wm t0 now0 ctx'" "mset fired \<subseteq># old_timers wm ?c"
      "sorted_wrt (\<lambda>a b. tkey a < tkey b) fired" "\<forall>e \<in># old_timers wm ctx'. now0 < deadline_ms e"
      by auto
    have "mset (?top # fired) \<subseteq># old_timers wm ctx"
      using f(3) o(2) subset_mset.order_trans
        [of "add_mset ?top (mset fired)" "add_mset ?top (old_timers wm ?c)"] by simp
    moreover have "\<forall>e \<in> set fired. tkey ?top < tkey e"
      using o(3) mset_subset_eqD [OF f(3)] by simp
    ultimately show ?thesis using True f by (simp add: timer_fire_loop_fire_once)
  next
    case False
    have "now0 < deadline_ms e" if e: "e \<in># old_timers wm ctx" for e
    proof -
      have ne: "timers ctx \<noteq> []" and key: "tkey ?top \<le> tkey e"
        using e tq.top_least [OF ti] by auto
      consider "now < deadline_ms ?top" | "wm \<le> te_id ?top" using False ne by fastforce
      then show ?thesis
      proof cases
        case 1
        with Suc.prems(2) have "now0 < deadline_ms ?top" by simp
        also have "\<dots> \<le> deadline_ms e" using key by (auto simp: tkey_def less_eq_prod_def)
        finally show ?thesis .
      next
        case 2
        have "now0 \<le> deadline_ms ?top" using Suc.prems(1) 2 ne by (simp add: fire_inv_def)
        also have "\<dots> < deadline_ms e" using key 2 e by (auto simp: tkey_def less_eq_prod_def)
        finally show ?thesis .
      qed
    qed
    then show ?thesis using False Suc.prems by (auto simp: timer_fire_loop_fire_once)
  qed
qed simp

section \<open>Properties\<close>

text \<open>
  C24. \<open>kl_timer_fire\<close> on a well-formed context, with any callbacks: it returns, whatever timers the
  callbacks add or cancel (a 0 ms timer re-added from its own callback included), it fires no more
  timers than were pending, and it leaves the context well-formed.
\<close>

theorem kl_timer_fire_returns:
  assumes "timer_inv ctx"
  shows "\<exists>n ctx'. kl_timer_fire env cbs ctx = Some (n, ctx') \<and>
           0 \<le> n \<and> n \<le> int (length (timers ctx)) \<and> timer_inv ctx'"
proof (cases "timers ctx = []")
  case False
  let ?c = "ctx\<lparr>ticks := Suc (ticks ctx)\<rparr>" and ?wm = "timer_next_id ctx"
  have "fire_inv ?wm 0 0 ?c" using assms by (auto simp: fire_inv_def timer_inv_def)
  moreover have "size (old_timers ?wm ?c) \<le> length (timers ctx)"
    by (simp add: size_filter_mset_lesseq [of _ "mset (timers ctx)", simplified])
  ultimately obtain fired ctx' where f:
    "timer_fire_loop (Suc (length (timers ctx))) env cbs ?wm (env_clock env (ticks ctx)) ?c = Some (fired, ctx')"
    "fire_inv ?wm 0 0 ctx'" "mset fired \<subseteq># old_timers ?wm ?c"
    using timer_fire_loop_spec [of ?wm 0 0 ?c env _ "Suc (length (timers ctx))" cbs] by fastforce
  have "length fired \<le> size (old_timers ?wm ?c)" using size_mset_mono [OF f(3)] by simp
  also have "\<dots> \<le> length (timers ctx)" by fact
  finally show ?thesis
    using False f by (simp add: kl_timer_fire_def kl_timer_fire_fuel_def kl_monotonic_ms_def fire_inv_def)
qed (use assms in \<open>simp add: kl_timer_fire_def kl_timer_fire_fuel_def\<close>)

text \<open>
  C10. With a monotone clock, \<open>kl_timer_fire\<close> fires timers that were pending on entry, earliest
  deadline first and in the order of addition on a tie; afterwards no timer that was pending on entry
  and due at the call's first clock reading is left, so each of them fired or was cancelled by a
  callback.
\<close>

theorem kl_timer_fire_in_order:
  assumes "timer_inv ctx" and "\<And>t. ticks ctx \<le> t \<Longrightarrow> env_clock env (ticks ctx) \<le> env_clock env t"
  shows "\<exists>fired ctx'. kl_timer_fire_fuel (Suc (length (timers ctx))) env cbs ctx = Some (fired, ctx') \<and>
           kl_timer_fire env cbs ctx = Some (int (length fired), ctx') \<and>
           set fired \<subseteq> set (timers ctx) \<and> sorted_wrt heap_before fired \<and>
           (\<forall>e \<in> set (timers ctx'). te_id e < timer_next_id ctx \<longrightarrow>
              env_clock env (ticks ctx) < deadline_ms e)"
proof (cases "timers ctx = []")
  case False
  let ?c = "ctx\<lparr>ticks := Suc (ticks ctx)\<rparr>" and ?wm = "timer_next_id ctx"
    and ?now = "env_clock env (ticks ctx)"
  have "fire_inv ?wm (ticks ctx) ?now ?c" using assms(1) by (auto simp: fire_inv_def timer_inv_def)
  moreover have "size (old_timers ?wm ?c) \<le> length (timers ctx)"
    by (simp add: size_filter_mset_lesseq [of _ "mset (timers ctx)", simplified])
  ultimately obtain fired ctx' where f:
    "timer_fire_loop (Suc (length (timers ctx))) env cbs ?wm ?now ?c = Some (fired, ctx')"
    "mset fired \<subseteq># old_timers ?wm ?c" "sorted_wrt (\<lambda>a b. tkey a < tkey b) fired"
    "\<forall>e \<in># old_timers ?wm ctx'. ?now < deadline_ms e"
    using timer_fire_loop_spec [of ?wm "ticks ctx" ?now ?c env ?now "Suc (length (timers ctx))" cbs] assms(2)
    by fastforce
  have "set fired \<subseteq> set (timers ctx)"
    using set_mset_mono [OF f(2)] by auto
  moreover have "sorted_wrt heap_before fired"
    using f(3) by (simp add: heap_before_tkey [abs_def])
  ultimately show ?thesis
    using False f
    by (simp add: kl_timer_fire_def kl_timer_fire_fuel_def kl_monotonic_ms_def fire_inv_def)
qed (simp add: kl_timer_fire_def kl_timer_fire_fuel_def)

text \<open>
  C25. \<open>kl_timer_add\<close> on a well-formed context either fails and leaves the timers as they were, or
  adds exactly one entry under a fresh id; the deadline is the clock reading plus the delay, saturated
  at the largest 64-bit value, so it never lies in the past.
\<close>

theorem kl_timer_add_spec:
  assumes "timer_inv ctx"
  shows "\<exists>r ctx'. kl_timer_add env ctx d cb ud = (r, ctx') \<and> timer_inv ctx' \<and>
           (if r < 0 then r = -1 \<and> timers ctx' = timers ctx
            else \<exists>e now. mset (timers ctx') = add_mset e (mset (timers ctx)) \<and> te_id e = r \<and>
                   r \<notin> te_id ` set (timers ctx) \<and> te_cb e = cb \<and> te_user_data e = ud \<and>
                   now \<in> range (env_clock env) \<and> now \<le> deadline_ms e \<and>
                   unat (deadline_ms e) = min 18446744073709551615 (unat now + unat d))"
proof (rule kl_timer_add_cases [of env ctx d cb ud])
  fix ctx' t
  let ?e = "\<lparr>deadline_ms = deadline_of (env_clock env t) d, te_cb = cb, te_user_data = ud,
             te_id = timer_next_id ctx\<rparr>"
  assume r: "kl_timer_add env ctx d cb ud = (timer_next_id ctx, ctx')"
    and x: "timers ctx' = heap_sift_up (timers ctx @ [?e]) (length (timers ctx))"
    and id: "timer_next_id ctx' = timer_next_id ctx + 1"
  have "timer_inv ctx'" using timer_inv_add [OF assms, of env d cb ud] r by simp
  moreover have "mset (timers ctx') = add_mset ?e (mset (timers ctx))" by (simp add: x)
  moreover have "timer_next_id ctx \<notin> te_id ` set (timers ctx)" "0 \<le> timer_next_id ctx"
    using assms by (auto simp: timer_inv_def)
  ultimately show ?thesis
    using r id deadline_of_ge [of "env_clock env t" d] unat_deadline_of [of "env_clock env t" d]
    by (intro exI [of _ "timer_next_id ctx"] exI [of _ ctx'] conjI)
       (auto intro!: exI [of _ ?e] exI [of _ "env_clock env t"])
qed (use timer_inv_add [OF assms, of env d cb ud] in auto)

text \<open>
  C26. \<open>kl_timer_cancel\<close> reports -1 and changes nothing for an id that is not pending, and otherwise
  removes the entry with that id and no other, keeping the heap well-formed.
\<close>

theorem kl_timer_cancel_spec:
  assumes "timer_inv ctx"
  shows "\<exists>r ctx'. kl_timer_cancel ctx i = (r, ctx') \<and> timer_inv ctx' \<and>
           mset (timers ctx') = filter_mset (\<lambda>e. te_id e \<noteq> i) (mset (timers ctx)) \<and>
           (r = 0 \<longleftrightarrow> i \<in> te_id ` set (timers ctx)) \<and> (r \<noteq> 0 \<longrightarrow> r = -1 \<and> ctx' = ctx)"
proof (cases "i \<in> te_id ` set (timers ctx)")
  case True
  from assms True obtain k xs where k: "k < length (timers ctx)" "te_id (timers ctx ! k) = i"
    and c: "kl_timer_cancel ctx i = (0, ctx\<lparr>timers := xs\<rparr>)"
    and m: "mset xs = mset (timers ctx) - {#timers ctx ! k#}" and h: "is_heap xs"
    by (rule kl_timer_cancel_Some)
  have "mset xs = filter_mset (\<lambda>e. te_id e \<noteq> i) (mset (timers ctx))"
  proof -
    have d: "distinct (map te_id (timers ctx))" using assms by (simp add: timer_inv_def)
    have s: "mset (timers ctx) = add_mset (timers ctx ! k) (mset xs)" using k m by simp
    have "distinct (te_id (timers ctx ! k) # map te_id xs)"
      by (rule distinct_mset_subset [OF _ d]) (simp add: s)
    then have "i \<notin> te_id ` set xs" using k by simp
    then have "\<forall>e \<in># mset xs. te_id e \<noteq> i" by auto
    then have "filter_mset (\<lambda>e. te_id e \<noteq> i) (mset xs) = mset xs" by (auto simp: filter_mset_eq_conv)
    then show ?thesis using s k by simp
  qed
  then show ?thesis using True c timer_inv_cancel [OF assms, of i] by simp
next
  case False
  then have "filter_mset (\<lambda>e. te_id e \<noteq> i) (mset (timers ctx)) = mset (timers ctx)"
    by (auto simp: filter_mset_eq_conv)
  then show ?thesis using False assms by (simp add: kl_timer_cancel_None)
qed

text \<open>
  C27. \<open>kl_timer_next_timeout\<close> never sleeps past a deadline: with a pending timer the result is a
  non-negative \<open>int\<close>, within the caller's cap when there is one, and waiting that long from the clock
  reading does not go beyond any pending deadline (0 when one is overdue); without one it is the cap.
\<close>

theorem kl_timer_next_timeout_spec:
  assumes "timer_inv ctx" and "max_ms \<le> INT_MAX"
  shows "\<exists>r ctx'. kl_timer_next_timeout env ctx max_ms = (r, ctx') \<and> timers ctx' = timers ctx \<and>
           (if timers ctx = [] then r = max_ms
            else 0 \<le> r \<and> r \<le> INT_MAX \<and> (0 \<le> max_ms \<longrightarrow> r \<le> max_ms) \<and>
                 (\<forall>e \<in> set (timers ctx). uint (env_clock env (ticks ctx)) + r
                    \<le> max (uint (env_clock env (ticks ctx))) (uint (deadline_ms e))))"
proof (cases "timers ctx = []")
  case False
  let ?now = "env_clock env (ticks ctx)" and ?dl = "deadline_ms (timers ctx ! 0)"
  have least: "uint ?dl \<le> uint (deadline_ms e)" if "e \<in> set (timers ctx)" for e
    using tq.top_least [OF assms(1), of e] that
    by (auto simp: tkey_def less_eq_prod_def word_le_def word_less_def)
  obtain r ctx' where r: "kl_timer_next_timeout env ctx max_ms = (r, ctx')" by fastforce
  have rem: "?now < ?dl \<Longrightarrow> uint (?dl - ?now) = uint ?dl - uint ?now"
    by (simp add: uint_sub_if' word_less_def)
  have "timers ctx' = timers ctx" and
    "0 \<le> r \<and> r \<le> INT_MAX \<and> (0 \<le> max_ms \<longrightarrow> r \<le> max_ms) \<and> uint ?now + r \<le> max (uint ?now) (uint ?dl)"
    using r False assms(2) rem
    by (auto simp: kl_timer_next_timeout_def kl_monotonic_ms_def Let_def not_le not_less INT_MAX_def
        word_less_def word_le_def split: if_splits)
  then show ?thesis using False r least by fastforce
qed (simp add: kl_timer_next_timeout_def)

section \<open>Witnesses\<close>

text \<open>Two timers are pending, ids 0 and 1, the younger one due first; the callback re-adds itself.\<close>

definition demo_ctx :: event_ctx where
  "demo_ctx = \<lparr>timers = [\<lparr>deadline_ms = 3, te_cb = 1, te_user_data = 7, te_id = 1\<rparr>,
                        \<lparr>deadline_ms = 5, te_cb = 1, te_user_data = 8, te_id = 0\<rparr>],
               timer_cap = 8, timer_next_id = 2, ticks = 10\<rparr>"

definition demo_env :: timer_env where
  "demo_env = \<lparr>env_clock = (\<lambda>_. 4), env_alloc = (\<lambda>_. True)\<rparr>"

definition demo_cbs :: timer_callbacks where
  "demo_cbs cb ud = [TAdd 0 cb ud]"

lemma demo_ctx_inv: "timer_inv demo_ctx"
  by (auto simp: timer_inv_def demo_ctx_def is_heap_def parent_ok_def tkey_def less_Suc_eq
      heap_parent_def)

theorem kl_timer_fire_returns_witness:
  "\<exists>n ctx'. kl_timer_fire demo_env demo_cbs demo_ctx = Some (n, ctx') \<and> 0 \<le> n \<and> n \<le> 2 \<and> timer_inv ctx'"
  using kl_timer_fire_returns [OF demo_ctx_inv, of demo_env demo_cbs] by (simp add: demo_ctx_def)

theorem kl_timer_fire_in_order_witness:
  "\<exists>fired ctx'. kl_timer_fire demo_env demo_cbs demo_ctx = Some (int (length fired), ctx') \<and>
     set fired \<subseteq> set (timers demo_ctx) \<and> sorted_wrt heap_before fired \<and>
     (\<forall>e \<in> set (timers ctx'). te_id e < 2 \<longrightarrow> 4 < deadline_ms e)"
proof -
  have "\<And>t. ticks demo_ctx \<le> t \<Longrightarrow> env_clock demo_env (ticks demo_ctx) \<le> env_clock demo_env t"
    by (simp add: demo_env_def)
  from kl_timer_fire_in_order [OF demo_ctx_inv this, of demo_cbs] show ?thesis
    by (auto simp: demo_ctx_def demo_env_def)
qed

theorem kl_timer_add_spec_witness:
  "\<exists>r ctx'. kl_timer_add demo_env demo_ctx 6 1 9 = (r, ctx') \<and> timer_inv ctx' \<and> r = 2 \<and>
     (\<exists>e. mset (timers ctx') = add_mset e (mset (timers demo_ctx)) \<and> deadline_ms e = 10)"
proof -
  have r: "fst (kl_timer_add demo_env demo_ctx 6 1 9) = 2"
    by (simp add: kl_timer_add_def timer_grow_def kl_monotonic_ms_def demo_ctx_def demo_env_def)
  from kl_timer_add_spec [OF demo_ctx_inv, of demo_env 6 1 9] r obtain ctx' e now where
    "kl_timer_add demo_env demo_ctx 6 1 9 = (2, ctx')" "timer_inv ctx'"
    "mset (timers ctx') = add_mset e (mset (timers demo_ctx))" "now \<in> range (env_clock demo_env)"
    "unat (deadline_ms e) = min 18446744073709551615 (unat now + 6)" by fastforce
  moreover from this(4,5) have "deadline_ms e = 10"
    by (auto simp: demo_env_def word_unat_eq_iff)
  ultimately show ?thesis by blast
qed

theorem kl_timer_cancel_spec_witness:
  "\<exists>r ctx'. kl_timer_cancel demo_ctx 1 = (r, ctx') \<and> r = 0 \<and> timer_inv ctx' \<and>
     mset (timers ctx') = filter_mset (\<lambda>e. te_id e \<noteq> 1) (mset (timers demo_ctx))"
  using kl_timer_cancel_spec [OF demo_ctx_inv, of 1] by (auto simp: demo_ctx_def)

theorem kl_timer_next_timeout_spec_witness:
  "\<exists>r ctx'. kl_timer_next_timeout demo_env demo_ctx 1000 = (r, ctx') \<and> 0 \<le> r \<and> r \<le> 1000 \<and>
     (\<forall>e \<in> set (timers demo_ctx). 4 + r \<le> max 4 (uint (deadline_ms e)))"
  using kl_timer_next_timeout_spec [OF demo_ctx_inv, of 1000 demo_env]
  by (auto simp: demo_ctx_def demo_env_def INT_MAX_def)

end
