(* ===== verification/Reentrancy.thy ===== *)
theory Reentrancy
  imports Keel_Prelude
begin

text \<open>
  Callbacks that call back. Several components of the library call hooks of their owner or of a
  transport (deliver, arm, submit, close callbacks), and such a hook may call the component's own
  functions before it returns. A component's operations are therefore definitions over an interpreter
  \<open>hk\<close> of its hooks, and this theory ties the knot.

  What the outside world does is a script in the state: every hook call takes the next reaction, a
  list of API calls to make and a value to return; a hook called after the script has run out makes
  no call and returns 0. All theorems hold for every script, so for every finite behaviour of the
  environment. Nesting is bounded by fuel; \<open>None\<close> is running out of it. The locale \<open>reentrant\<close> proves,
  once for all components, that one more than the length of the script is enough fuel, and that an
  invariant and a rely relation kept by every operation over well-behaved hooks are kept by the whole
  reentrant system.
\<close>

primrec run_calls :: "('c \<Rightarrow> 'w \<Rightarrow> (int \<times> 'w) option) \<Rightarrow> 'c list \<Rightarrow> 'w \<Rightarrow> 'w option" where
  "run_calls f [] w = Some w"
| "run_calls f (c # cs) w = do { (r, w) \<leftarrow> f c w; run_calls f cs w }"

type_synonym ('h, 'w) hooks = "'h \<Rightarrow> 'w \<Rightarrow> (int \<times> 'w) option"

primrec hook_sem ::
  "(('h, 'w) hooks \<Rightarrow> nat \<Rightarrow> 'c \<Rightarrow> 'w \<Rightarrow> (int \<times> 'w) option) \<Rightarrow> ('h \<Rightarrow> 'w \<Rightarrow> ('c list \<times> int) \<times> 'w) \<Rightarrow>
   ('h \<Rightarrow> 'w \<Rightarrow> 'w) \<Rightarrow> nat \<Rightarrow> ('h, 'w) hooks" where
  "hook_sem api enter leave 0 = (\<lambda>h w. None)"
| "hook_sem api enter leave (Suc n) =
     (\<lambda>h w. case enter h w of ((cs, r), w) \<Rightarrow>
        do { w \<leftarrow> run_calls (api (hook_sem api enter leave n) n) cs w; Some (r, leave h w) })"

text \<open>An API call made from outside, with \<open>n\<close> units of fuel, and a sequence of them.\<close>

definition top_call ::
  "(('h, 'w) hooks \<Rightarrow> nat \<Rightarrow> 'c \<Rightarrow> 'w \<Rightarrow> (int \<times> 'w) option) \<Rightarrow> ('h \<Rightarrow> 'w \<Rightarrow> ('c list \<times> int) \<times> 'w) \<Rightarrow>
   ('h \<Rightarrow> 'w \<Rightarrow> 'w) \<Rightarrow> nat \<Rightarrow> 'c \<Rightarrow> 'w \<Rightarrow> (int \<times> 'w) option" where
  "top_call api enter leave n c w = api (hook_sem api enter leave n) n c w"

lemma run_calls_append:
  "run_calls f (cs @ ds) w = do { w \<leftarrow> run_calls f cs w; run_calls f ds w }"
  by (induction cs arbitrary: w) (auto split: Option.bind_splits prod.splits)

text \<open>
  Hooks are well-behaved up to a size \<open>n\<close> of the script when every call whose precondition holds returns
  with the postcondition.
\<close>

definition hooks_ok ::
  "('h \<Rightarrow> 'w \<Rightarrow> bool) \<Rightarrow> ('h \<Rightarrow> 'w \<Rightarrow> int \<Rightarrow> 'w \<Rightarrow> bool) \<Rightarrow> ('w \<Rightarrow> nat) \<Rightarrow> nat \<Rightarrow> ('h, 'w) hooks \<Rightarrow> bool" where
  "hooks_ok hpre hpost sz n hk \<longleftrightarrow>
     (\<forall>h w. hpre h w \<longrightarrow> sz w < n \<longrightarrow> (\<exists>r w'. hk h w = Some (r, w') \<and> hpost h w r w'))"

lemma hooks_okD:
  assumes "hooks_ok hpre hpost sz n hk" and "hpre h w" and "sz w < n"
  obtains r w' where "hk h w = Some (r, w')" and "hpost h w r w'"
  using assms unfolding hooks_ok_def by blast

locale reentrant =
  fixes api :: "('h, 'w) hooks \<Rightarrow> nat \<Rightarrow> 'c \<Rightarrow> 'w \<Rightarrow> (int \<times> 'w) option"
    and enter :: "'h \<Rightarrow> 'w \<Rightarrow> ('c list \<times> int) \<times> 'w"
    and leave :: "'h \<Rightarrow> 'w \<Rightarrow> 'w"
    and inv :: "'w \<Rightarrow> bool"
    and rely :: "'w \<Rightarrow> 'w \<Rightarrow> bool"
    and hpre :: "'h \<Rightarrow> 'w \<Rightarrow> bool"
    and hpost :: "'h \<Rightarrow> 'w \<Rightarrow> int \<Rightarrow> 'w \<Rightarrow> bool"
    and may :: "'c \<Rightarrow> 'w \<Rightarrow> bool"
    and sz :: "'w \<Rightarrow> nat"
  assumes api_ok: "hooks_ok hpre hpost sz n hk \<Longrightarrow> inv w \<Longrightarrow> sz w < n \<Longrightarrow> may c w \<Longrightarrow>
      \<exists>r w'. api hk n c w = Some (r, w') \<and> inv w' \<and> rely w w'"
    and enter_ok: "hpre h w \<Longrightarrow> enter h w = ((cs, r), w1) \<Longrightarrow>
      inv w1 \<and> (cs = [] \<or> sz w1 < sz w) \<and> (\<forall>c \<in> set cs. may c w1)"
    and leave_ok: "hpre h w \<Longrightarrow> enter h w = ((cs, r), w1) \<Longrightarrow> inv w2 \<Longrightarrow> rely w1 w2 \<Longrightarrow>
      (cs = [] \<Longrightarrow> w2 = w1) \<Longrightarrow> hpost h w r (leave h w2)"
    and rely_refl: "rely w w"
    and rely_trans: "rely w w1 \<Longrightarrow> rely w1 w2 \<Longrightarrow> rely w w2"
    and rely_sz: "rely w w' \<Longrightarrow> sz w' \<le> sz w"
    and rely_may: "rely w w' \<Longrightarrow> may c w \<Longrightarrow> may c w'"
begin

lemma run_calls_ok:
  assumes "hooks_ok hpre hpost sz n hk" and "inv w" and "sz w < n" and "\<forall>c \<in> set cs. may c w"
  shows "\<exists>w'. run_calls (api hk n) cs w = Some w' \<and> inv w' \<and> rely w w'"
  using assms(2-4)
proof (induction cs arbitrary: w)
  case Nil
  then show ?case by (simp add: rely_refl)
next
  case (Cons c cs)
  from Cons.prems(3) have c: "may c w" "\<forall>c \<in> set cs. may c w" by simp_all
  from api_ok [OF assms(1) Cons.prems(1,2) c(1)] obtain r w1
    where 1: "api hk n c w = Some (r, w1)" and 2: "inv w1" and 3: "rely w w1" by blast
  from rely_sz [OF 3] Cons.prems(2) have "sz w1 < n" by simp
  moreover have "\<forall>c \<in> set cs. may c w1" using c(2) rely_may [OF 3] by blast
  ultimately have "\<exists>w'. run_calls (api hk n) cs w1 = Some w' \<and> inv w' \<and> rely w1 w'" by (rule Cons.IH [OF 2])
  with 1 3 show ?case by (auto intro: rely_trans)
qed

lemma hook_sem_ok: "hooks_ok hpre hpost sz n (hook_sem api enter leave n)"
proof (induction n)
  case 0
  then show ?case by (simp add: hooks_ok_def)
next
  case (Suc n)
  show ?case
    unfolding hooks_ok_def
  proof (intro allI impI)
    fix h w
    assume h: "hpre h w" and s: "sz w < Suc n"
    obtain cs r w1 where e: "enter h w = ((cs, r), w1)" by (metis prod_cases3 surj_pair)
    from enter_ok [OF h e] have i: "inv w1" and c: "cs = [] \<or> sz w1 < sz w" and m: "\<forall>c \<in> set cs. may c w1" by auto
    have "\<exists>w2. run_calls (api (hook_sem api enter leave n) n) cs w1 = Some w2 \<and> inv w2 \<and> rely w1 w2 \<and>
        (cs = [] \<longrightarrow> w2 = w1)"
    proof (cases "cs = []")
      case True
      then show ?thesis using i by (simp add: rely_refl)
    next
      case False
      with c s have "sz w1 < n" by simp
      from run_calls_ok [OF Suc.IH i this m] False show ?thesis by blast
    qed
    with leave_ok [OF h e] e show "\<exists>r w'. hook_sem api enter leave (Suc n) h w = Some (r, w') \<and> hpost h w r w'"
      by auto
  qed
qed

lemma top_call_ok:
  assumes "inv w" and "sz w < n" and "may c w"
  shows "\<exists>r w'. top_call api enter leave n c w = Some (r, w') \<and> inv w' \<and> rely w w'"
  unfolding top_call_def by (rule api_ok [OF hook_sem_ok assms])

lemma run_top_ok:
  assumes "inv w" and "sz w < n" and "\<forall>c \<in> set cs. may c w"
  shows "\<exists>w'. run_calls (top_call api enter leave n) cs w = Some w' \<and> inv w' \<and> rely w w'"
proof -
  have "top_call api enter leave n = api (hook_sem api enter leave n) n"
    by (intro ext) (simp add: top_call_def)
  then show ?thesis using run_calls_ok [OF hook_sem_ok assms] by simp
qed

end

end
