(* ===== verification/Drain.thy ===== *)
theory Drain
  imports Keel_Prelude
begin

text \<open>
  The backpressure write buffer \<open>KlDrain\<close> (\<open>src/drain.c\<close>, \<open>src/drain_reserve.h\<close>): a growable
  buffer in front of a writer, and its reservation mode, a preallocated queue with all-or-none
  acceptance on which the stream's write side is built.

  A drain is the record \<open>kl_drain\<close>; \<open>dbuf\<close> holds the \<open>buf_len\<close> buffered bytes and \<open>has_buf\<close> says
  whether \<open>buf\<close> is allocated. The writer, the allocator and the two callbacks are the functions of a
  \<open>drain_hooks\<close> record over an environment of any type, which they read and update. The ghost field
  \<open>wire\<close> records the bytes that have left the buffer for the transport, in order (taken by the
  writer, or consumed by a transport that sends the buffer itself); no operation reads it.
\<close>

section \<open>State\<close>

record kl_drain =
  on_drain :: bool
  dr_on_writable :: bool
  has_buf :: bool
  dbuf :: "byte list"
  buf_cap :: nat
  max_size :: nat
  dr_error :: bool
  prealloc :: bool
  low_water :: nat
  wire :: "byte list"

record 'e drain_hooks =
  wfn :: "byte list \<Rightarrow> 'e \<Rightarrow> int \<times> 'e"
  dr_realloc :: "nat \<Rightarrow> 'e \<Rightarrow> bool \<times> 'e"
  cb_writable :: "kl_drain \<Rightarrow> 'e \<Rightarrow> kl_drain \<times> 'e"
  cb_drain :: "kl_drain \<Rightarrow> 'e \<Rightarrow> kl_drain \<times> 'e"

datatype drain_status = KL_DRAIN_ACCEPTED | KL_DRAIN_WOULD_BLOCK | KL_DRAIN_TOO_LARGE | KL_DRAIN_WERROR

definition DRAIN_INIT_CAP :: nat where "DRAIN_INIT_CAP = 4096"

section \<open>Operations\<close>

definition kl_drain_init :: kl_drain where
  "kl_drain_init =
     \<lparr>on_drain = False, dr_on_writable = False, has_buf = False, dbuf = [],
      buf_cap = 0, max_size = 0, dr_error = False, prealloc = False, low_water = 0, wire = []\<rparr>"

definition kl_drain_set_max_size :: "nat \<Rightarrow> kl_drain \<Rightarrow> kl_drain" where
  "kl_drain_set_max_size n d = d\<lparr>max_size := n\<rparr>"

definition kl_drain_on_drain :: "bool \<Rightarrow> kl_drain \<Rightarrow> kl_drain" where
  "kl_drain_on_drain cb d = d\<lparr>on_drain := cb\<rparr>"

text \<open>The doubling loop of \<open>drain_ensure\<close>: \<open>None\<close> out of fuel, \<open>Some None\<close> when doubling would wrap.\<close>

fun drain_grow_cap :: "nat \<Rightarrow> nat \<Rightarrow> nat \<Rightarrow> nat option option" where
  "drain_grow_cap 0 cap required = None"
| "drain_grow_cap (Suc fuel) cap required =
     (if cap < required then
        if cap > SIZE_MAX div 2 then Some None else drain_grow_cap fuel (cap * 2) required
      else Some (Some cap))"

definition drain_ensure :: "'e drain_hooks \<Rightarrow> nat \<Rightarrow> kl_drain \<Rightarrow> 'e \<Rightarrow> int \<times> kl_drain \<times> 'e" where
  "drain_ensure H need d e =
     (let required = (length (dbuf d) + need) mod (SIZE_MAX + 1) in
      if required < length (dbuf d) then (-1, d, e)
      else if max_size d > 0 \<and> required > max_size d then (-1, d\<lparr>dr_error := True\<rparr>, e)
      else if required \<le> buf_cap d then (0, d, e)
      else case drain_grow_cap 66 (if buf_cap d > 0 then buf_cap d else DRAIN_INIT_CAP) required of
        Some (Some cap) \<Rightarrow>
          let cap = (if max_size d > 0 \<and> cap > max_size d then max_size d else cap);
              (ok, e) = dr_realloc H cap e
          in if \<not> ok then (-1, d\<lparr>dr_error := True\<rparr>, e)
             else (0, d\<lparr>has_buf := True, buf_cap := cap\<rparr>, e)
      | _ \<Rightarrow> (-1, d\<lparr>dr_error := True\<rparr>, e))"

function drain_push :: "'e drain_hooks \<Rightarrow> kl_drain \<Rightarrow> 'e \<Rightarrow> int \<times> kl_drain \<times> 'e" where
  "drain_push H d e =
     (if dbuf d \<noteq> [] then
        let (n, e) = wfn H (dbuf d) e in
        if n < 0 then (-1, d\<lparr>dr_error := True\<rparr>, e)
        else if n = 0 then (0, d, e)
        else if nat n > length (dbuf d) then (-1, d\<lparr>dr_error := True\<rparr>, e)
        else drain_push H (d\<lparr>dbuf := drop (nat n) (dbuf d), wire := wire d @ take (nat n) (dbuf d)\<rparr>) e
      else (0, d, e))"
  by pat_completeness auto
termination
  by (relation "measure (\<lambda>(H, d, e). length (dbuf d))") auto

declare drain_push.simps [simp del]

definition drain_append :: "byte list \<Rightarrow> kl_drain \<Rightarrow> kl_drain" where
  "drain_append data d = d\<lparr>dbuf := dbuf d @ data\<rparr>"

text \<open>The direct write of the last part of \<open>kl_drain_write\<close>, on an empty buffer.\<close>

definition drain_direct :: "'e drain_hooks \<Rightarrow> byte list \<Rightarrow> kl_drain \<Rightarrow> 'e \<Rightarrow> int \<times> kl_drain \<times> 'e" where
  "drain_direct H data d e =
     (let (n, e) = wfn H data e in
      if n < 0 then (-1, d\<lparr>dr_error := True\<rparr>, e)
      else if nat n > length data then (-1, d\<lparr>dr_error := True\<rparr>, e)
      else let d = d\<lparr>wire := wire d @ take (nat n) data\<rparr> in
        if nat n = length data then (0, d, e)
        else let (r, d, e) = drain_ensure H (length data - nat n) d e in
             if r < 0 then (-1, d, e)
             else (0, drain_append (drop (nat n) data) d, e))"

definition kl_drain_write :: "'e drain_hooks \<Rightarrow> byte list \<Rightarrow> kl_drain \<Rightarrow> 'e \<Rightarrow> int \<times> kl_drain \<times> 'e" where
  "kl_drain_write H data d e =
     (if dr_error d then (-1, d, e)
      else if data = [] then (0, d, e)
      else if dbuf d \<noteq> [] then
        let (r, d, e) = drain_push H d e in
        if r < 0 then (-1, d, e)
        else if dbuf d \<noteq> [] then
          let (r, d, e) = drain_ensure H (length data) d e in
          if r < 0 then (-1, d, e) else (0, drain_append data d, e)
        else drain_direct H data d e
      else drain_direct H data d e)"

definition drain_crossed_low_water :: "nat \<Rightarrow> kl_drain \<Rightarrow> bool" where
  "drain_crossed_low_water prev_len d \<longleftrightarrow>
     dr_on_writable d \<and> low_water d > 0 \<and> prev_len > low_water d \<and> length (dbuf d) \<le> low_water d"

definition drain_notify :: "'e drain_hooks \<Rightarrow> nat \<Rightarrow> kl_drain \<Rightarrow> 'e \<Rightarrow> int \<times> kl_drain \<times> 'e" where
  "drain_notify H prev_len d e =
     (if drain_crossed_low_water prev_len d then
        let (d, e) = cb_writable H d e in (if dbuf d \<noteq> [] then 1 else 0, d, e)
      else if dbuf d = [] then
        let (d, e) = (if on_drain d then cb_drain H d e else (d, e)) in (0, d, e)
      else (1, d, e))"

definition kl_drain_flush :: "'e drain_hooks \<Rightarrow> kl_drain \<Rightarrow> 'e \<Rightarrow> int \<times> kl_drain \<times> 'e" where
  "kl_drain_flush H d e =
     (if dr_error d then (-1, d, e)
      else if dbuf d = [] then (0, d, e)
      else let prev_len = length (dbuf d); (r, d, e) = drain_push H d e in
           if r < 0 then (-1, d, e) else drain_notify H prev_len d e)"

definition kl_drain_pending :: "kl_drain \<Rightarrow> int" where
  "kl_drain_pending d = (if length (dbuf d) > 0 then 1 else 0)"

definition kl_drain_buffered :: "kl_drain \<Rightarrow> nat" where
  "kl_drain_buffered d = length (dbuf d)"

definition kl_drain_data :: "kl_drain \<Rightarrow> byte list option" where
  "kl_drain_data d = (if dbuf d = [] then None else Some (dbuf d))"

definition kl_drain_consume :: "'e drain_hooks \<Rightarrow> nat \<Rightarrow> kl_drain \<Rightarrow> 'e \<Rightarrow> kl_drain \<times> 'e" where
  "kl_drain_consume H n d e =
     (if n = 0 then (d, e)
      else let prev_len = length (dbuf d);
               d = d\<lparr>wire := wire d @ take n (dbuf d)\<rparr>;
               d = (if n \<ge> length (dbuf d) then d\<lparr>dbuf := []\<rparr> else d\<lparr>dbuf := drop n (dbuf d)\<rparr>)
           in snd (drain_notify H prev_len d e))"

definition kl_drain_set_low_water :: "nat \<Rightarrow> kl_drain \<Rightarrow> kl_drain" where
  "kl_drain_set_low_water n d = d\<lparr>low_water := n\<rparr>"

definition kl_drain_on_writable :: "bool \<Rightarrow> kl_drain \<Rightarrow> kl_drain" where
  "kl_drain_on_writable cb d = d\<lparr>dr_on_writable := cb\<rparr>"

definition kl_drain_prealloc :: "'e drain_hooks \<Rightarrow> nat \<Rightarrow> kl_drain \<Rightarrow> 'e \<Rightarrow> int \<times> kl_drain \<times> 'e" where
  "kl_drain_prealloc H capacity d e =
     (if capacity = 0 then (-1, d, e)
      else if has_buf d \<or> dbuf d \<noteq> [] \<or> buf_cap d \<noteq> 0 \<or> prealloc d then (-1, d, e)
      else let (ok, e) = dr_realloc H capacity e in
           if \<not> ok then (-1, d, e)
           else (0, d\<lparr>has_buf := True, buf_cap := capacity, prealloc := True, max_size := capacity\<rparr>, e))"

definition kl_drain_reserve_write ::
  "'e drain_hooks \<Rightarrow> byte list \<Rightarrow> kl_drain \<Rightarrow> 'e \<Rightarrow> drain_status \<times> kl_drain \<times> 'e" where
  "kl_drain_reserve_write H data d e =
     (if dr_error d then (KL_DRAIN_WERROR, d, e)
      else if data = [] then (KL_DRAIN_ACCEPTED, d, e)
      else if \<not> prealloc d \<or> \<not> has_buf d \<or> buf_cap d = 0 then (KL_DRAIN_WERROR, d, e)
      else if length (dbuf d) > buf_cap d then (KL_DRAIN_WERROR, d\<lparr>dr_error := True\<rparr>, e)
      else if length data > buf_cap d then (KL_DRAIN_TOO_LARGE, d, e)
      else if length data > buf_cap d - length (dbuf d) then (KL_DRAIN_WOULD_BLOCK, d, e)
      else if dbuf d = [] then
        let (n, e) = wfn H data e in
        if n < 0 then (KL_DRAIN_WERROR, d\<lparr>dr_error := True\<rparr>, e)
        else if nat n > length data then (KL_DRAIN_WERROR, d\<lparr>dr_error := True\<rparr>, e)
        else (KL_DRAIN_ACCEPTED,
              d\<lparr>wire := wire d @ take (nat n) data, dbuf := drop (nat n) data\<rparr>, e)
      else (KL_DRAIN_ACCEPTED, drain_append data d, e))"

definition kl_drain_reserve_buffer :: "byte list \<Rightarrow> kl_drain \<Rightarrow> drain_status \<times> kl_drain" where
  "kl_drain_reserve_buffer data d =
     (if dr_error d then (KL_DRAIN_WERROR, d)
      else if data = [] then (KL_DRAIN_ACCEPTED, d)
      else if \<not> prealloc d \<or> \<not> has_buf d \<or> buf_cap d = 0 then (KL_DRAIN_WERROR, d)
      else if length (dbuf d) > buf_cap d then (KL_DRAIN_WERROR, d\<lparr>dr_error := True\<rparr>)
      else if length data > buf_cap d then (KL_DRAIN_TOO_LARGE, d)
      else if length data > buf_cap d - length (dbuf d) then (KL_DRAIN_WOULD_BLOCK, d)
      else (KL_DRAIN_ACCEPTED, drain_append data d))"

definition kl_drain_free :: "kl_drain \<Rightarrow> kl_drain" where
  "kl_drain_free d =
     (let d = (if has_buf d then d\<lparr>has_buf := False, dbuf := [], buf_cap := 0\<rparr> else d)
      in d\<lparr>prealloc := False\<rparr>)"

section \<open>Invariant\<close>

definition drain_ok :: "kl_drain \<Rightarrow> bool" where
  "drain_ok d \<longleftrightarrow>
     length (dbuf d) \<le> buf_cap d \<and> buf_cap d \<le> SIZE_MAX \<and> (has_buf d \<longleftrightarrow> buf_cap d > 0) \<and>
     (prealloc d \<longrightarrow> has_buf d)"

definition drain_within_max :: "kl_drain \<Rightarrow> bool" where
  "drain_within_max d \<longleftrightarrow> max_size d > 0 \<longrightarrow> length (dbuf d) \<le> max_size d"

text \<open>The byte sequence a drain has accepted: what has left for the transport, then what is queued.\<close>

definition drain_stream :: "kl_drain \<Rightarrow> byte list" where
  "drain_stream d = wire d @ dbuf d"

lemma drain_grow_cap_terminates:
  "SIZE_MAX < cap * 2 ^ fuel \<Longrightarrow> drain_grow_cap (Suc fuel) cap required \<noteq> None"
proof (induction fuel arbitrary: cap)
  case 0
  then have "cap > SIZE_MAX div 2" by simp
  then show ?case by simp
next
  case (Suc fuel)
  from Suc.prems have "SIZE_MAX < (cap * 2) * 2 ^ fuel" by (simp add: ac_simps)
  from Suc.IH [OF this] show ?case by (subst drain_grow_cap.simps) (simp del: drain_grow_cap.simps)
qed

lemma drain_grow_cap_result:
  "drain_grow_cap fuel cap required = Some (Some c) \<Longrightarrow> cap \<le> SIZE_MAX \<Longrightarrow>
     required \<le> c \<and> cap \<le> c \<and> c \<le> SIZE_MAX"
proof (induction fuel arbitrary: cap)
  case (Suc fuel)
  show ?case
  proof (cases "cap < required \<and> \<not> cap > SIZE_MAX div 2")
    case True
    then have "cap * 2 \<le> SIZE_MAX" by linarith
    with True Suc.IH [of "cap * 2"] Suc.prems show ?thesis by simp
  next
    case False
    with Suc.prems show ?thesis by (auto split: if_splits)
  qed
qed simp

text \<open>
  The doubling loop always ends within the 66 rounds given to it: the capacity starts at 1 or more.
\<close>

lemma drain_ensure_loop_ends:
  "drain_grow_cap 66 (if buf_cap d > 0 then buf_cap d else DRAIN_INIT_CAP) required \<noteq> None"
proof -
  have *: "drain_grow_cap (Suc 65) c required \<noteq> None" if "c > 0" for c
  proof (rule drain_grow_cap_terminates)
    have "SIZE_MAX < 1 * 2 ^ 65" by (simp add: SIZE_MAX_def)
    also have "\<dots> \<le> c * 2 ^ 65" using that by (intro mult_le_mono1) simp
    finally show "SIZE_MAX < c * 2 ^ 65" .
  qed
  have "Suc 65 = 66" by simp
  with * [of "if buf_cap d > 0 then buf_cap d else DRAIN_INIT_CAP"] show ?thesis
    by (simp only: ) (simp add: DRAIN_INIT_CAP_def)
qed

lemma drain_ensure_spec:
  assumes "drain_ensure H need d e = (r, d', e')" and "drain_ok d" and "need \<le> SIZE_MAX"
  shows "drain_ok d' \<and> dbuf d' = dbuf d \<and> wire d' = wire d \<and> max_size d' = max_size d \<and>
     on_drain d' = on_drain d \<and> dr_on_writable d' = dr_on_writable d \<and> prealloc d' = prealloc d \<and>
     (r = 0 \<and> length (dbuf d) + need \<le> buf_cap d' \<and> dr_error d' = dr_error d \<and>
        (max_size d > 0 \<longrightarrow> length (dbuf d) + need \<le> max_size d) \<or> r = -1)"
proof -
  let ?req = "(length (dbuf d) + need) mod (SIZE_MAX + 1)"
  have req: "?req < length (dbuf d) \<or> ?req = length (dbuf d) + need"
  proof (cases "length (dbuf d) + need \<le> SIZE_MAX")
    case False
    with assms(2,3) have "length (dbuf d) + need - (SIZE_MAX + 1) < SIZE_MAX + 1" "SIZE_MAX + 1 \<le> length (dbuf d) + need"
      by (auto simp: drain_ok_def)
    then have "?req = length (dbuf d) + need - (SIZE_MAX + 1)" by (metis le_mod_geq mod_less)
    then show ?thesis using assms(3) False by linarith
  qed simp
  define cap0 where "cap0 = (if buf_cap d > 0 then buf_cap d else DRAIN_INIT_CAP)"
  have c0: "cap0 \<le> SIZE_MAX" "buf_cap d \<le> cap0"
    using assms(2) by (auto simp: cap0_def drain_ok_def DRAIN_INIT_CAP_def SIZE_MAX_def)
  define q where "q = ?req"
  have q: "q < length (dbuf d) \<or> q = length (dbuf d) + need" using req by (simp only: q_def)
  have ens: "drain_ensure H need d e =
     (if q < length (dbuf d) then (-1, d, e)
      else if max_size d > 0 \<and> q > max_size d then (-1, d\<lparr>dr_error := True\<rparr>, e)
      else if q \<le> buf_cap d then (0, d, e)
      else case drain_grow_cap 66 cap0 q of
        Some (Some cap) \<Rightarrow>
          let cap = (if max_size d > 0 \<and> cap > max_size d then max_size d else cap);
              (ok, e) = dr_realloc H cap e
          in if \<not> ok then (-1, d\<lparr>dr_error := True\<rparr>, e)
             else (0, d\<lparr>has_buf := True, buf_cap := cap\<rparr>, e)
      | _ \<Rightarrow> (-1, d\<lparr>dr_error := True\<rparr>, e))"
    unfolding drain_ensure_def q_def cap0_def Let_def ..
  consider (err) "r = -1" "d' = d \<or> d' = d\<lparr>dr_error := True\<rparr>"
    | (fits) "r = 0" "d' = d" "\<not> q < length (dbuf d)" "max_size d > 0 \<longrightarrow> q \<le> max_size d" "q \<le> buf_cap d"
    | (grow) c where "r = 0" "d' = d\<lparr>has_buf := True, buf_cap := c\<rparr>" "\<not> q < length (dbuf d)"
        "max_size d > 0 \<longrightarrow> q \<le> max_size d" "q \<le> c" "c \<le> SIZE_MAX" "buf_cap d < q"
  proof (cases "q < length (dbuf d) \<or> (max_size d > 0 \<and> q > max_size d) \<or> q \<le> buf_cap d")
    case True
    with assms(1) err fits show ?thesis unfolding ens by (auto split: if_splits)
  next
    case False
    show ?thesis
    proof (cases "\<exists>c. drain_grow_cap 66 cap0 q = Some (Some c)")
      case no: False
      with False assms(1) have "r = -1" "d' = d\<lparr>dr_error := True\<rparr>"
        unfolding ens by (auto split: option.splits)
      then show ?thesis using err by simp
    next
      case True
      then obtain c where c: "drain_grow_cap 66 cap0 q = Some (Some c)" by blast
      let ?c = "if max_size d > 0 \<and> c > max_size d then max_size d else c"
      from drain_grow_cap_result [OF c c0(1)] False have b: "q \<le> ?c" "?c \<le> SIZE_MAX" by auto
      define c' where "c' = ?c"
      obtain ok e1 where m: "dr_realloc H c' e = (ok, e1)" by fastforce
      have f: "\<not> q < length (dbuf d)" "\<not> (max_size d > 0 \<and> q > max_size d)" "\<not> q \<le> buf_cap d"
        using False by blast+
      have "(r, d', e') = (if ok then (0, d\<lparr>has_buf := True, buf_cap := c'\<rparr>, e1) else (-1, d\<lparr>dr_error := True\<rparr>, e1))"
        unfolding assms(1) [symmetric] ens if_not_P [OF f(1)] if_not_P [OF f(2)] if_not_P [OF f(3)] c
        by (simp add: c'_def [symmetric] m)
      then show ?thesis using err grow [of c'] f b by (cases ok) (auto simp: c'_def [symmetric])
    qed
  qed
  then show ?thesis using assms(2) q
    by cases (auto simp: drain_ok_def)
qed

section \<open>What each operation does\<close>

text \<open>\<open>drain_moved k d d'\<close>: exactly the first \<open>k\<close> buffered bytes have left for the transport.\<close>

definition drain_moved :: "nat \<Rightarrow> kl_drain \<Rightarrow> kl_drain \<Rightarrow> bool" where
  "drain_moved k d d' \<longleftrightarrow> k \<le> length (dbuf d) \<and>
     d' = d\<lparr>dbuf := drop k (dbuf d), wire := wire d @ take k (dbuf d), dr_error := dr_error d'\<rparr>"

lemma drain_moved_keeps:
  assumes "drain_moved k d d'"
  shows "drain_stream d' = drain_stream d" and "drain_ok d \<Longrightarrow> drain_ok d'"
    and "drain_within_max d \<Longrightarrow> drain_within_max d'" and "max_size d' = max_size d"
    and "buf_cap d' = buf_cap d" and "prealloc d' = prealloc d" and "on_drain d' = on_drain d"
    and "dr_on_writable d' = dr_on_writable d" and "low_water d' = low_water d" and "has_buf d' = has_buf d"
    and "dbuf d' = drop k (dbuf d)"
proof -
  from assms have k: "k \<le> length (dbuf d)"
    and d': "d' = d\<lparr>dbuf := drop k (dbuf d), wire := wire d @ take k (dbuf d), dr_error := dr_error d'\<rparr>"
    by (simp_all add: drain_moved_def)
  show "drain_stream d' = drain_stream d" by (subst d') (simp add: drain_stream_def)
  show "drain_ok d \<Longrightarrow> drain_ok d'" by (subst d') (auto simp: drain_ok_def)
  show "drain_within_max d \<Longrightarrow> drain_within_max d'" by (subst d') (auto simp: drain_within_max_def)
  show "max_size d' = max_size d" "buf_cap d' = buf_cap d" "prealloc d' = prealloc d" "on_drain d' = on_drain d"
    "dr_on_writable d' = dr_on_writable d" "low_water d' = low_water d" "has_buf d' = has_buf d"
    "dbuf d' = drop k (dbuf d)"
    by (subst d', simp)+
qed

lemma drain_moved_refl [simp]: "drain_moved 0 d d"
  by (simp add: drain_moved_def)

lemma drain_moved_error [simp]: "drain_moved 0 d (d\<lparr>dr_error := True\<rparr>)"
  by (simp add: drain_moved_def)

lemma drain_moved_step:
  assumes "n \<le> length (dbuf d)"
    and "drain_moved k (d\<lparr>dbuf := drop n (dbuf d), wire := wire d @ take n (dbuf d)\<rparr>) d'"
  shows "drain_moved (n + k) d d'"
proof -
  from assms(2) have k: "k \<le> length (dbuf d) - n"
    and d': "d' = d\<lparr>dbuf := drop k (drop n (dbuf d)),
      wire := (wire d @ take n (dbuf d)) @ take k (drop n (dbuf d)), dr_error := dr_error d'\<rparr>"
    by (simp_all add: drain_moved_def)
  have "take n (dbuf d) @ take k (drop n (dbuf d)) = take (n + k) (dbuf d)"
    by (simp add: take_add)
  with k d' assms(1) show ?thesis by (simp add: drain_moved_def add.commute)
qed

text \<open>\<open>drain_push\<close> moves a prefix of the buffer; it leaves bytes behind without an error only on would-block.\<close>

lemma drain_push_moves:
  "drain_push H d e = (r, d', e') \<Longrightarrow>
     \<exists>k. drain_moved k d d' \<and> (r = 0 \<and> dr_error d' = dr_error d \<or> r = -1 \<and> dr_error d')"
proof (induction H d e arbitrary: r d' e' rule: drain_push.induct)
  case (1 H d e)
  obtain n e1 where w: "wfn H (dbuf d) e = (n, e1)" by fastforce
  let ?d1 = "d\<lparr>dbuf := drop (nat n) (dbuf d), wire := wire d @ take (nat n) (dbuf d)\<rparr>"
  show ?case
  proof (cases "dbuf d \<noteq> [] \<and> 0 < n \<and> nat n \<le> length (dbuf d)")
    case True
    with 1(2) w have rec: "drain_push H ?d1 e1 = (r, d', e')"
      by (subst (asm) drain_push.simps) (simp add: Let_def)
    have "\<exists>k. drain_moved k ?d1 d' \<and> (r = 0 \<and> dr_error d' = dr_error ?d1 \<or> r = -1 \<and> dr_error d')"
      by (rule 1(1) [OF _ w [symmetric] _ _ _ _ rec]) (use True in auto)
    then obtain k where k: "drain_moved k ?d1 d'"
      and rest: "r = 0 \<and> dr_error d' = dr_error d \<or> r = -1 \<and> dr_error d'" by auto
    from drain_moved_step [OF _ k] True rest show ?thesis by blast
  next
    case False
    with 1(2) w show ?thesis
      by (subst (asm) drain_push.simps) (auto simp: Let_def split: if_splits intro!: exI [of _ 0])
  qed
qed

lemma drain_direct_spec:
  assumes "drain_direct H data d e = (r, d', e')" and "drain_ok d" and "dbuf d = []" and "\<not> dr_error d"
    and "length data \<le> SIZE_MAX"
  shows "drain_ok d' \<and> drain_within_max d' \<and> max_size d' = max_size d \<and>
     (r = 0 \<and> drain_stream d' = drain_stream d @ data \<and> \<not> dr_error d' \<or>
      r = -1 \<and> (\<exists>k\<le>length data. drain_stream d' = drain_stream d @ take k data))"
proof -
  obtain n e1 where w: "wfn H data e = (n, e1)" by fastforce
  show ?thesis
  proof (cases "0 \<le> n \<and> nat n < length data")
    case False
    with assms w show ?thesis
      by (auto simp: drain_direct_def Let_def drain_ok_def drain_within_max_def drain_stream_def
          split: if_splits intro: exI [of _ 0])
  next
    case True
    define d1 where "d1 = d\<lparr>wire := wire d @ take (nat n) data\<rparr>"
    obtain r2 d2 e2 where en: "drain_ensure H (length data - nat n) d1 e1 = (r2, d2, e2)"
      by (metis prod_cases3)
    have "drain_ok d1" using assms(2) by (auto simp: d1_def drain_ok_def)
    note sp = drain_ensure_spec [OF en this]
    from assms(5) have "length data - nat n \<le> SIZE_MAX" by simp
    note sp = sp [OF this]
    have d1: "dbuf d1 = []" "max_size d1 = max_size d" "wire d1 = wire d @ take (nat n) data" "dr_error d1 = dr_error d"
      using assms(3) by (simp_all add: d1_def)
    show ?thesis
    proof (cases "r2 < 0")
      case True
      with assms(1) w \<open>0 \<le> n \<and> nat n < length data\<close> en have "r = -1" "d' = d2"
        by (auto simp: drain_direct_def Let_def d1_def)
      with sp d1 assms(3) \<open>0 \<le> n \<and> nat n < length data\<close> show ?thesis
        by (auto simp: drain_within_max_def drain_stream_def intro!: exI [of _ "nat n"])
    next
      case False
      with assms(1) w \<open>0 \<le> n \<and> nat n < length data\<close> en have "r = 0" "d' = drain_append (drop (nat n) data) d2"
        by (auto simp: drain_direct_def Let_def d1_def)
      with sp d1 assms(3,4) False show ?thesis
        by (auto simp: drain_within_max_def drain_stream_def drain_append_def drain_ok_def)
    qed
  qed
qed

lemma drain_notify_no_cb:
  "\<not> on_drain d \<Longrightarrow> \<not> dr_on_writable d \<Longrightarrow>
     drain_notify H p d e = (if dbuf d = [] then 0 else 1, d, e)"
  by (simp add: drain_notify_def drain_crossed_low_water_def)

lemma kl_drain_flush_no_cb:
  assumes "\<not> on_drain d" and "\<not> dr_on_writable d" and "kl_drain_flush H d e = (r, d', e')"
  shows "\<exists>k. drain_moved k d d'"
proof (cases "dr_error d \<or> dbuf d = []")
  case True
  with assms(3) have "d' = d" by (auto simp: kl_drain_flush_def split: if_splits)
  then show ?thesis using drain_moved_refl by blast
next
  case False
  obtain r1 d1 e1 where p: "drain_push H d e = (r1, d1, e1)" by (metis prod_cases3)
  from drain_push_moves [OF p] obtain k where k: "drain_moved k d d1" by blast
  from assms(1,2) drain_moved_keeps(7,8) [OF k] have "\<not> on_drain d1" "\<not> dr_on_writable d1" by simp_all
  with assms(3) False p have "d' = d1"
    by (auto simp: kl_drain_flush_def drain_notify_no_cb split: if_splits)
  with k show ?thesis by blast
qed

lemma kl_drain_consume_no_cb:
  assumes "\<not> on_drain d" and "\<not> dr_on_writable d" and "kl_drain_consume H n d e = (d', e')"
  shows "drain_moved (min n (length (dbuf d))) d d'"
  using assms
  by (auto simp: kl_drain_consume_def Let_def drain_notify_no_cb drain_moved_def min_def split: if_splits)

lemma kl_drain_reserve_write_spec:
  assumes "kl_drain_reserve_write H data d e = (st, d', e')" and "drain_ok d"
  shows "drain_ok d' \<and> drain_stream d' = drain_stream d @ (if st = KL_DRAIN_ACCEPTED then data else []) \<and>
     buf_cap d' = buf_cap d \<and> on_drain d' = on_drain d \<and> dr_on_writable d' = dr_on_writable d"
  using assms
  by (auto simp: kl_drain_reserve_write_def Let_def drain_ok_def drain_stream_def drain_append_def
      split: if_splits prod.splits)

lemma kl_drain_reserve_buffer_spec:
  assumes "kl_drain_reserve_buffer data d = (st, d')" and "drain_ok d"
  shows "drain_ok d' \<and> drain_stream d' = drain_stream d @ (if st = KL_DRAIN_ACCEPTED then data else []) \<and>
     buf_cap d' = buf_cap d \<and> on_drain d' = on_drain d \<and> dr_on_writable d' = dr_on_writable d"
  using assms
  by (auto simp: kl_drain_reserve_buffer_def Let_def drain_ok_def drain_stream_def drain_append_def
      split: if_splits)

section \<open>The write queue contract\<close>

text \<open>
  What a client of the reservation mode relies on: a submission is accepted whole or not at all, and
  no other operation changes the sequence of accepted bytes. \<open>wq_run\<close> runs a sequence of operations and
  collects the data of the accepted submissions.
\<close>

datatype ('s, 'a) wq_op = Submit 's | Advance 'a

fun wq_run ::
  "('s \<Rightarrow> byte list) \<Rightarrow> ('s \<Rightarrow> 'q \<Rightarrow> 'e \<Rightarrow> drain_status \<times> 'q \<times> 'e) \<Rightarrow> ('a \<Rightarrow> 'q \<Rightarrow> 'e \<Rightarrow> 'q \<times> 'e) \<Rightarrow>
   ('s, 'a) wq_op list \<Rightarrow> 'q \<Rightarrow> 'e \<Rightarrow> byte list \<times> 'q \<times> 'e" where
  "wq_run payload submit advance [] q e = ([], q, e)"
| "wq_run payload submit advance (Submit s # ops) q e =
     (let (st, q, e) = submit s q e;
          (acc, q, e) = wq_run payload submit advance ops q e
      in (if st = KL_DRAIN_ACCEPTED then payload s @ acc else acc, q, e))"
| "wq_run payload submit advance (Advance a # ops) q e =
     (let (q, e) = advance a q e in wq_run payload submit advance ops q e)"

locale write_queue =
  fixes payload :: "'s \<Rightarrow> byte list"
    and submit :: "'s \<Rightarrow> 'q \<Rightarrow> 'e \<Rightarrow> drain_status \<times> 'q \<times> 'e"
    and advance :: "'a \<Rightarrow> 'q \<Rightarrow> 'e \<Rightarrow> 'q \<times> 'e"
    and ok :: "'q \<Rightarrow> bool"
    and stream :: "'q \<Rightarrow> byte list"
    and cap :: "'q \<Rightarrow> nat"
  assumes submit_law: "submit s q e = (st, q', e') \<Longrightarrow> ok q \<Longrightarrow>
      ok q' \<and> cap q' = cap q \<and> stream q' = stream q @ (if st = KL_DRAIN_ACCEPTED then payload s else [])"
    and advance_law: "advance a q e = (q', e') \<Longrightarrow> ok q \<Longrightarrow> ok q' \<and> cap q' = cap q \<and> stream q' = stream q"
begin

lemma run_fifo:
  "wq_run payload submit advance ops q e = (acc, q', e') \<Longrightarrow> ok q \<Longrightarrow>
     ok q' \<and> cap q' = cap q \<and> stream q' = stream q @ acc"
proof (induction ops arbitrary: q e acc)
  case (Cons x ops)
  show ?case
  proof (cases x)
    case (Submit s)
    obtain st q1 e1 where s: "submit s q e = (st, q1, e1)" by (metis prod_cases3)
    obtain acc' where r: "wq_run payload submit advance ops q1 e1 = (acc', q', e')"
      and acc: "acc = (if st = KL_DRAIN_ACCEPTED then payload s @ acc' else acc')"
      using Cons.prems(1) Submit s by (auto split: prod.splits)
    from submit_law [OF s Cons.prems(2)] Cons.IH [OF r] acc show ?thesis by simp
  next
    case (Advance a)
    obtain q1 e1 where a: "advance a q e = (q1, e1)" by fastforce
    from advance_law [OF a Cons.prems(2)] Cons.IH [of q1 e1 acc] Cons.prems(1) Advance a
    show ?thesis by simp
  qed
qed simp

end

datatype drain_submission = ReserveWrite "byte list" | ReserveBuffer "byte list"

datatype drain_advance = Flush | Consume nat

fun submission_bytes :: "drain_submission \<Rightarrow> byte list" where
  "submission_bytes (ReserveWrite data) = data"
| "submission_bytes (ReserveBuffer data) = data"

fun drain_submit :: "'e drain_hooks \<Rightarrow> drain_submission \<Rightarrow> kl_drain \<Rightarrow> 'e \<Rightarrow> drain_status \<times> kl_drain \<times> 'e" where
  "drain_submit H (ReserveWrite data) d e = kl_drain_reserve_write H data d e"
| "drain_submit H (ReserveBuffer data) d e = (let (st, d) = kl_drain_reserve_buffer data d in (st, d, e))"

fun drain_advance_op :: "'e drain_hooks \<Rightarrow> drain_advance \<Rightarrow> kl_drain \<Rightarrow> 'e \<Rightarrow> kl_drain \<times> 'e" where
  "drain_advance_op H Flush d e = snd (kl_drain_flush H d e)"
| "drain_advance_op H (Consume n) d e = kl_drain_consume H n d e"

definition drain_plain :: "kl_drain \<Rightarrow> bool" where
  "drain_plain d \<longleftrightarrow> drain_ok d \<and> \<not> on_drain d \<and> \<not> dr_on_writable d"

interpretation dq: write_queue submission_bytes "drain_submit H" "drain_advance_op H" drain_plain drain_stream buf_cap
  for H :: "'e drain_hooks"
proof unfold_locales
  fix s d e st d' and e' :: 'e
  assume "drain_submit H s d e = (st, d', e')" and "drain_plain d"
  then show "drain_plain d' \<and> buf_cap d' = buf_cap d \<and>
      drain_stream d' = drain_stream d @ (if st = KL_DRAIN_ACCEPTED then submission_bytes s else [])"
    using kl_drain_reserve_write_spec [of H _ d e st d' e'] kl_drain_reserve_buffer_spec [of _ d st d']
    by (cases s) (auto simp: drain_plain_def split: prod.splits)
next
  fix a d e d' and e' :: 'e
  assume a: "drain_advance_op H a d e = (d', e')" and d: "drain_plain d"
  have "\<exists>k. drain_moved k d d'"
  proof (cases a)
    case Flush
    obtain r where "kl_drain_flush H d e = (r, d', e')" using a Flush by (metis drain_advance_op.simps(1) prod.collapse)
    with d show ?thesis using kl_drain_flush_no_cb by (auto simp: drain_plain_def)
  next
    case (Consume n)
    with a d show ?thesis using kl_drain_consume_no_cb [of d H n e d' e'] by (auto simp: drain_plain_def)
  qed
  then obtain k where k: "drain_moved k d d'" ..
  from drain_moved_keeps [OF k] d show "drain_plain d' \<and> buf_cap d' = buf_cap d \<and> drain_stream d' = drain_stream d"
    by (simp add: drain_plain_def)
qed

section \<open>Properties\<close>

text \<open>
  C20. The reservation mode is a bounded FIFO byte queue: after a successful \<open>kl_drain_prealloc\<close>, whatever
  sequence of reserved writes, buffer-only writes, flushes and consumes follows, and however the
  writer behaves (partial writes, would-block, errors, bogus counts), the bytes that left for the
  transport followed by the bytes still queued are exactly the data of the accepted submissions, in
  order; no accepted byte is lost, repeated or reordered, a refused submission contributes nothing,
  the buffer never holds more than its capacity and is never reallocated.
\<close>

theorem drain_reservation_fifo:
  assumes "kl_drain_prealloc H c kl_drain_init e = (0, d, e1)" and "c \<le> SIZE_MAX"
    and "wq_run submission_bytes (drain_submit H) (drain_advance_op H) ops d e1 = (accepted, d', e2)"
  shows "wire d' @ dbuf d' = accepted \<and> length (dbuf d') \<le> c \<and> buf_cap d' = c"
proof -
  from assms(1,2) have "drain_plain d" and s: "drain_stream d = []" and c: "buf_cap d = c"
    by (auto simp: kl_drain_prealloc_def kl_drain_init_def drain_plain_def drain_ok_def drain_stream_def
        split: if_splits prod.splits)
  from dq.run_fifo [OF assms(3) this(1)] s c show ?thesis
    by (simp add: drain_stream_def drain_plain_def drain_ok_def)
qed

text \<open>
  C28. \<open>kl_drain_write\<close> on a growable drain: success means all the data was accepted behind what was
  already queued, with the sticky error clear; a failure returns -1 and leaves a prefix of the data
  accepted, never a gap or a reordering. Either way the buffer stays within its allocation, and
  within \<open>max_size\<close> when one is set.
\<close>

theorem kl_drain_write_spec:
  assumes "drain_ok d" and "drain_within_max d" and "length data \<le> SIZE_MAX"
    and "kl_drain_write H data d e = (r, d', e')"
  shows "drain_ok d' \<and> drain_within_max d' \<and>
     (r = 0 \<and> drain_stream d' = drain_stream d @ data \<and> \<not> dr_error d' \<or>
      r = -1 \<and> (\<exists>k\<le>length data. drain_stream d' = drain_stream d @ take k data))"
proof (cases "dr_error d \<or> data = []")
  case True
  with assms show ?thesis by (auto simp: kl_drain_write_def split: if_splits intro: exI [of _ 0])
next
  case False
  show ?thesis
  proof (cases "dbuf d = []")
    case True
    with False assms(4) have "drain_direct H data d e = (r, d', e')" by (simp add: kl_drain_write_def)
    from drain_direct_spec [OF this assms(1) True _ assms(3)] False show ?thesis by simp
  next
    case ne: False
    obtain r1 d1 e1 where p: "drain_push H d e = (r1, d1, e1)" by (metis prod_cases3)
    from drain_push_moves [OF p] obtain k where k: "drain_moved k d d1"
      and r1: "r1 = 0 \<and> dr_error d1 = dr_error d \<or> r1 = -1" by blast
    note d1 = drain_moved_keeps(1,2,3,4) [OF k]
    consider "r1 = -1" | "r1 = 0" "dbuf d1 = []" | "r1 = 0" "dbuf d1 \<noteq> []" using r1 by blast
    then show ?thesis
    proof cases
      case 1
      with False ne p assms(4) have "r = -1" "d' = d1" by (auto simp: kl_drain_write_def)
      with d1 assms(1,2) show ?thesis by (auto intro: exI [of _ 0])
    next
      case 2
      with False ne p assms(4) have "drain_direct H data d1 e1 = (r, d', e')" by (simp add: kl_drain_write_def)
      from drain_direct_spec [OF this d1(2) [OF assms(1)] 2(2) _ assms(3)] 2 r1 False d1(1) show ?thesis by simp
    next
      case 3
      obtain r2 d2 e2 where en: "drain_ensure H (length data) d1 e1 = (r2, d2, e2)" by (metis prod_cases3)
      note sp = drain_ensure_spec [OF en d1(2) [OF assms(1)] assms(3)]
      show ?thesis
      proof (cases "r2 < 0")
        case True
        with 3 False ne p assms(4) en have "r = -1" "d' = d2" by (auto simp: kl_drain_write_def)
        with sp d1 assms(2) show ?thesis
          by (auto simp: drain_stream_def drain_within_max_def intro: exI [of _ 0])
      next
        case f: False
        with 3 False ne p assms(4) en have "r = 0" "d' = drain_append data d2" by (auto simp: kl_drain_write_def)
        with sp d1(1) f 3 r1 False show ?thesis
          by (auto simp: drain_stream_def drain_within_max_def drain_append_def drain_ok_def)
      qed
    qed
  qed
qed

text \<open>
  C29. \<open>kl_drain_flush\<close> on a drain with bytes pending and no error: it moves some number \<open>k\<close> of the oldest
  bytes to the writer and nothing else changes, then either reports -1 with the sticky error set and no
  callback, or fires at most one callback on the updated state: \<open>on_writable\<close> when the low-water mark
  was crossed (suppressing \<open>on_drain\<close>), else \<open>on_drain\<close> when the buffer emptied. The result tells
  whether bytes are pending, counting those an \<open>on_writable\<close> callback added.
\<close>

theorem kl_drain_flush_spec:
  assumes "\<not> dr_error d" and "dbuf d \<noteq> []" and "kl_drain_flush H d e = (r, d', e')"
  shows "\<exists>k d1 e1. drain_moved k d d1 \<and>
     (r = -1 \<and> dr_error d1 \<and> (d', e') = (d1, e1) \<or>
      \<not> dr_error d1 \<and>
      (if dr_on_writable d \<and> 0 < low_water d \<and> low_water d < length (dbuf d) \<and> length (dbuf d) - k \<le> low_water d
       then (d', e') = cb_writable H d1 e1 \<and> r = (if dbuf d' = [] then 0 else 1)
       else if k = length (dbuf d) then r = 0 \<and> (d', e') = (if on_drain d then cb_drain H d1 e1 else (d1, e1))
       else r = 1 \<and> (d', e') = (d1, e1)))"
proof -
  obtain r1 d1 e1 where p: "drain_push H d e = (r1, d1, e1)" by (metis prod_cases3)
  from drain_push_moves [OF p] obtain k where k: "drain_moved k d d1"
    and r1: "r1 = 0 \<and> dr_error d1 = dr_error d \<or> r1 = -1 \<and> dr_error d1" by blast
  have kl: "k \<le> length (dbuf d)" using k by (simp add: drain_moved_def)
  note d1 = drain_moved_keeps(7,8,9,11) [OF k]
  show ?thesis
  proof (cases "r1 = -1")
    case True
    with assms p r1 have "r = -1" "dr_error d1" "(d', e') = (d1, e1)" by (auto simp: kl_drain_flush_def)
    with k show ?thesis by blast
  next
    case False
    with r1 assms p have "\<not> dr_error d1" and n: "drain_notify H (length (dbuf d)) d1 e1 = (r, d', e')"
      by (auto simp: kl_drain_flush_def)
    moreover have "dbuf d1 = [] \<longleftrightarrow> k = length (dbuf d)" using d1(4) kl by auto
    ultimately show ?thesis using d1 k n
      by (intro exI [of _ k] exI [of _ d1] exI [of _ e1])
        (auto simp: drain_notify_def drain_crossed_low_water_def Let_def split: if_splits prod.splits)
  qed
qed


section \<open>A concrete drain\<close>

text \<open>A writer that takes the bytes its script allows, then would block; an allocator that always succeeds.\<close>

definition scripted_writer :: "byte list \<Rightarrow> int list \<Rightarrow> int \<times> int list" where
  "scripted_writer data rs = (case rs of [] \<Rightarrow> (0, []) | r # rs \<Rightarrow> (r, rs))"

definition demo_hooks :: "int list drain_hooks" where
  "demo_hooks = \<lparr>wfn = scripted_writer, dr_realloc = (\<lambda>_ e. (True, e)),
     cb_writable = (\<lambda>d e. (d\<lparr>dbuf := dbuf d @ [9]\<rparr>, e)), cb_drain = (\<lambda>d e. (d, 0 # e))\<rparr>"

lemmas demo_drain_defs = demo_hooks_def scripted_writer_def kl_drain_init_def kl_drain_prealloc_def
  kl_drain_reserve_write_def kl_drain_reserve_buffer_def kl_drain_consume_def kl_drain_write_def
  kl_drain_flush_def drain_direct_def drain_ensure_def drain_append_def drain_notify_def
  drain_crossed_low_water_def drain_ok_def drain_within_max_def SIZE_MAX_def drain_push.simps Let_def
  DRAIN_INIT_CAP_def

lemma drain_grow_cap_numeral:
  "cap \<ge> required \<Longrightarrow> drain_grow_cap (numeral v) cap required = Some (Some cap)"
  by (simp add: numeral_eq_Suc)

theorem drain_reservation_fifo_witness:
  "\<exists>d' e2. wq_run submission_bytes (drain_submit demo_hooks) (drain_advance_op demo_hooks)
       [Submit (ReserveWrite [1, 2, 3]), Submit (ReserveBuffer [4, 5]), Submit (ReserveWrite [6, 7]), Advance Flush, Advance (Consume 1)]
       (fst (snd (kl_drain_prealloc demo_hooks 4 kl_drain_init [1, 1]))) [1, 1] = ([1, 2, 3, 4, 5], d', e2) \<and>
     wire d' @ dbuf d' = [1, 2, 3, 4, 5] \<and> length (dbuf d') \<le> 4 \<and> buf_cap d' = 4"
proof -
  have i: "kl_drain_prealloc demo_hooks 4 kl_drain_init [1, 1] =
      (0, fst (snd (kl_drain_prealloc demo_hooks 4 kl_drain_init [1, 1])), [1, 1])"
    by (simp add: demo_drain_defs)
  have "\<exists>d' e2. wq_run submission_bytes (drain_submit demo_hooks) (drain_advance_op demo_hooks)
       [Submit (ReserveWrite [1, 2, 3]), Submit (ReserveBuffer [4, 5]), Submit (ReserveWrite [6, 7]), Advance Flush, Advance (Consume 1)]
       (fst (snd (kl_drain_prealloc demo_hooks 4 kl_drain_init [1, 1]))) [1, 1] = ([1, 2, 3, 4, 5], d', e2)"
    by (simp add: demo_drain_defs)
  then obtain d' e2 where r: "wq_run submission_bytes (drain_submit demo_hooks) (drain_advance_op demo_hooks)
       [Submit (ReserveWrite [1, 2, 3]), Submit (ReserveBuffer [4, 5]), Submit (ReserveWrite [6, 7]), Advance Flush, Advance (Consume 1)]
       (fst (snd (kl_drain_prealloc demo_hooks 4 kl_drain_init [1, 1]))) [1, 1] = ([1, 2, 3, 4, 5], d', e2)" by blast
  from drain_reservation_fifo [OF i _ r] r show ?thesis by (auto simp: SIZE_MAX_def)
qed

theorem kl_drain_write_spec_witness:
  "\<exists>d' e'. kl_drain_write demo_hooks [1, 2, 3] (kl_drain_init\<lparr>max_size := 2\<rparr>) [1] = (0, d', e') \<and>
     drain_ok d' \<and> drain_within_max d' \<and> drain_stream d' = [1, 2, 3]"
proof -
  have "\<exists>d' e'. kl_drain_write demo_hooks [1, 2, 3] (kl_drain_init\<lparr>max_size := 2\<rparr>) [1] = (0, d', e')"
    by (simp add: demo_drain_defs drain_grow_cap_numeral)
  then obtain d' e' where w: "kl_drain_write demo_hooks [1, 2, 3] (kl_drain_init\<lparr>max_size := 2\<rparr>) [1] = (0, d', e')" by blast
  have "drain_ok (kl_drain_init\<lparr>max_size := 2\<rparr>)" "drain_within_max (kl_drain_init\<lparr>max_size := 2\<rparr>)"
    "length ([1, 2, 3] :: byte list) \<le> SIZE_MAX" "drain_stream (kl_drain_init\<lparr>max_size := 2\<rparr>) = []"
    by (simp_all add: demo_drain_defs drain_stream_def)
  with kl_drain_write_spec [OF this(1-3) w] w show ?thesis by simp
qed

definition demo_drain :: kl_drain where
  "demo_drain = kl_drain_init\<lparr>dr_on_writable := True, on_drain := True, low_water := 1, has_buf := True,
     buf_cap := 4, dbuf := [1, 2, 3], prealloc := True, max_size := 4\<rparr>"

theorem kl_drain_flush_spec_witness:
  "\<exists>k d1 e1 d' e'. kl_drain_flush demo_hooks demo_drain [2, 1] = (1, d', e') \<and> drain_moved k demo_drain d1 \<and>
     (d', e') = cb_writable demo_hooks d1 e1"
proof -
  have "kl_drain_flush demo_hooks demo_drain [2, 1] =
      (1, demo_drain\<lparr>dbuf := [9], wire := [1, 2, 3]\<rparr>, [])"
    by (simp add: demo_drain_defs demo_drain_def)
  note f = this
  have "\<not> dr_error demo_drain" "dbuf demo_drain \<noteq> []" by (simp_all add: demo_drain_def kl_drain_init_def)
  from kl_drain_flush_spec [OF this f]
  have "\<exists>k d1 e1. drain_moved k demo_drain d1 \<and> (dbuf d1 = [9] \<or>
      (demo_drain\<lparr>dbuf := [9], wire := [1, 2, 3]\<rparr>, []) = cb_writable demo_hooks d1 e1)"
    by (elim exE conjE) (intro exI conjI, assumption, auto simp: demo_drain_def kl_drain_init_def split: if_splits)
  then obtain k d1 e1 where k: "drain_moved k demo_drain d1" and "dbuf d1 = [9] \<or>
      (demo_drain\<lparr>dbuf := [9], wire := [1, 2, 3]\<rparr>, []) = cb_writable demo_hooks d1 e1" by blast
  moreover have "set (drop k [1, 2, 3 :: byte]) \<subseteq> {1, 2, 3}" by (rule subset_trans [OF set_drop_subset]) simp
  then have "drop k [1, 2, 3 :: byte] \<noteq> [9]" by auto
  moreover have "dbuf d1 = drop k [1, 2, 3]"
    using drain_moved_keeps(11) [OF k] by (simp add: demo_drain_def)
  ultimately have "(demo_drain\<lparr>dbuf := [9], wire := [1, 2, 3]\<rparr>, []) = cb_writable demo_hooks d1 e1" by metis
  with f k show ?thesis by blast
qed


end
