(* ===== verification/Stream.thy ===== *)
theory Stream
  imports Reentrancy Drain
begin

text \<open>
  The raw-transport stream \<open>KlStream\<close> (\<open>src/stream.c\<close>, \<open>src/stream_write.c\<close>, \<open>src/stream_read.c\<close>,
  \<open>src/stream_close.c\<close>): a bounded write queue with one submission in flight, strict read pause and
  resume over an arm trampoline, and graceful or abortive close with confirmed detachment.

  The record \<open>kl_stream\<close> has the fields of \<open>struct KlStream\<close> the machinery uses; a callback field is whether
  it is installed. A \<open>world\<close> adds what surrounds the stream: the reactions of the hooks still to come
  (\<open>script\<close>, see theory Reentrancy), the results of the readiness writer still to come (\<open>wres\<close>), and three
  ghost fields no operation reads: the hooks now on the call stack (\<open>active\<close>, innermost first), the
  hook calls made so far with a snapshot of the stream at each (\<open>trace\<close>, newest first) and the bytes
  the write queue has accepted (\<open>accepted\<close>). Operations that can call a hook take the interpreter \<open>hk\<close> of
  the hooks, and those with a trampoline loop take fuel for it.
\<close>

section \<open>State\<close>

datatype close_state_t = KL_STREAM_STATE_OPEN | KL_STREAM_STATE_CLOSING | KL_STREAM_STATE_CLOSED

datatype write_status = KL_STREAM_ACCEPTED | KL_STREAM_WOULD_BLOCK | KL_STREAM_TOO_LARGE
  | KL_STREAM_CLOSED | KL_STREAM_ERROR

record kl_stream =
  read_buf :: ptr
  read_cap :: nat
  read_paused :: bool
  wq :: kl_drain
  wq_write_fn :: bool
  wq_inited :: bool
  wq_err :: bool
  submit_fn :: bool
  submit_copying :: bool
  send_inflight :: bool
  inflight_len :: nat
  inflight_copying :: bool
  submitting :: bool
  inline_done :: bool
  inline_ok :: bool
  wr_blocked :: bool
  in_writable :: nat
  on_writable :: bool
  read_disarm :: bool
  read_completion_mode :: bool
  read_inited :: bool
  recv_inflight :: bool
  recv_held :: bool
  held_len :: nat
  held_ok :: bool
  read_closed :: bool
  arming :: bool
  rearm_pending :: bool
  completed_inline :: bool
  close_state :: close_state_t
  close_abort :: bool
  in_close_cancel :: nat
  close_notified :: bool
  close_inited :: bool
  wq_closing :: bool
  recv_cancel_requested :: bool
  send_cancel_requested :: bool
  on_close :: bool
  cancel_recv :: bool
  cancel_send :: bool
  on_retire :: bool

text \<open>The hooks a stream calls, and the functions a hook (or the owner) may call on the stream.\<close>

datatype hook = Read_deliver nat bool | Read_arm | Read_disarm | Submit_fn "byte list" | On_writable
  | On_close | Cancel_recv | Cancel_send

datatype call = Write "byte list" | Flush | On_write_complete bool | Set_on_writable bool | Write_free
  | Set_writer bool | Set_submit bool bool
  | Read_start | On_recv nat bool | Pause | Resume | Read_close
  | Set_cancel bool bool | Close_begin | Cancel

record world = kl_stream +
  script :: "(call list \<times> int) list"
  wres :: "int list"
  active :: "hook list"
  trace :: "(hook \<times> hook list \<times> kl_stream) list"
  accepted :: "byte list"

type_synonym hk = "(hook, world) hooks"

section \<open>Initialisation\<close>

text \<open>\<open>memset\<close> to zero.\<close>

definition zero_drain :: kl_drain where
  "zero_drain = \<lparr>on_drain = False, dr_on_writable = False, has_buf = False, dbuf = [], buf_cap = 0,
     max_size = 0, dr_error = False, prealloc = False, low_water = 0, wire = []\<rparr>"

definition zero_stream :: kl_stream where
  "zero_stream = \<lparr>read_buf = NULL, read_cap = 0, read_paused = False, wq = zero_drain, wq_write_fn = False,
     wq_inited = False, wq_err = False, submit_fn = False, submit_copying = False, send_inflight = False,
     inflight_len = 0, inflight_copying = False, submitting = False, inline_done = False, inline_ok = False,
     wr_blocked = False, in_writable = 0, on_writable = False, read_disarm = False,
     read_completion_mode = False, read_inited = False, recv_inflight = False, recv_held = False,
     held_len = 0, held_ok = False, read_closed = False, arming = False, rearm_pending = False,
     completed_inline = False, close_state = KL_STREAM_STATE_OPEN, close_abort = False, in_close_cancel = 0,
     close_notified = False, close_inited = False, wq_closing = False, recv_cancel_requested = False,
     send_cancel_requested = False, on_close = False, cancel_recv = False, cancel_send = False,
     on_retire = False\<rparr>"

definition kl_stream_init :: "ptr \<Rightarrow> nat \<Rightarrow> int \<times> kl_stream option" where
  "kl_stream_init read_buffer read_capacity =
     (if read_buffer = NULL \<or> read_capacity = 0 then (-1, None)
      else (0, Some (zero_stream\<lparr>read_buf := read_buffer, read_cap := read_capacity\<rparr>)))"

text \<open>The allocator answers \<open>alloc_ok\<close>; \<open>alloc_valid\<close> is \<open>kl_allocator_ops_valid\<close>.\<close>

definition wq_hooks :: "bool \<Rightarrow> int list drain_hooks" where
  "wq_hooks alloc_ok = \<lparr>wfn = scripted_writer, dr_realloc = (\<lambda>_ e. (alloc_ok, e)),
     cb_writable = (\<lambda>d e. (d, e)), cb_drain = (\<lambda>d e. (d, e))\<rparr>"

definition kl_stream_write_init :: "bool \<Rightarrow> bool \<Rightarrow> nat \<Rightarrow> 'x kl_stream_scheme \<Rightarrow> int \<times> 'x kl_stream_scheme" where
  "kl_stream_write_init alloc_valid alloc_ok capacity s =
     (if wq_inited s \<or> \<not> alloc_valid then (-1, s)
      else let s = s\<lparr>wq := kl_drain_init, wq_write_fn := False\<rparr>;
               (r, d, e) = kl_drain_prealloc (wq_hooks alloc_ok) capacity (wq s) []
           in if r < 0 then (-1, s\<lparr>wq := d\<rparr>)
              else (0, s\<lparr>wq := d, wq_inited := True, wq_err := False, submit_fn := False,
                     submit_copying := False, send_inflight := False, inflight_len := 0,
                     inflight_copying := False, wr_blocked := False, in_writable := 0, on_writable := False\<rparr>))"

definition kl_stream_read_init ::
  "bool \<Rightarrow> bool \<Rightarrow> bool \<Rightarrow> bool \<Rightarrow> 'x kl_stream_scheme \<Rightarrow> int \<times> 'x kl_stream_scheme" where
  "kl_stream_read_init completion_mode deliver arm disarm s =
     (if read_inited s \<or> \<not> deliver \<or> \<not> arm then (-1, s)
      else if read_buf s = NULL \<or> read_cap s = 0 then (-1, s)
      else if \<not> completion_mode \<and> \<not> disarm then (-1, s)
      else (0, s\<lparr>read_disarm := disarm, read_completion_mode := completion_mode, read_inited := True,
             read_paused := False, recv_inflight := False, recv_held := False, held_len := 0,
             held_ok := False, read_closed := False, arming := False, rearm_pending := False,
             completed_inline := False\<rparr>))"

definition kl_stream_close_init :: "bool \<Rightarrow> 'x kl_stream_scheme \<Rightarrow> int \<times> 'x kl_stream_scheme" where
  "kl_stream_close_init on_close_fn s =
     (if close_inited s \<or> \<not> on_close_fn then (-1, s)
      else (0, s\<lparr>close_state := KL_STREAM_STATE_OPEN, close_abort := False, in_close_cancel := 0,
             close_notified := False, wq_closing := False, recv_cancel_requested := False,
             send_cancel_requested := False, on_close := True, cancel_recv := False, cancel_send := False,
             on_retire := True, close_inited := True\<rparr>))"

definition kl_stream_set_cancel :: "bool \<Rightarrow> bool \<Rightarrow> 'x kl_stream_scheme \<Rightarrow> int \<times> 'x kl_stream_scheme" where
  "kl_stream_set_cancel cr cs s =
     (if \<not> close_inited s then (-1, s)
      else if close_state s \<noteq> KL_STREAM_STATE_OPEN then (-1, s)
      else (0, s\<lparr>cancel_recv := cr, cancel_send := cs\<rparr>))"

definition stream_config_locked :: "'x kl_stream_scheme \<Rightarrow> bool" where
  "stream_config_locked s \<longleftrightarrow> send_inflight s \<or> kl_drain_buffered (wq s) > 0"

definition kl_stream_set_writer :: "bool \<Rightarrow> 'x kl_stream_scheme \<Rightarrow> int \<times> 'x kl_stream_scheme" where
  "kl_stream_set_writer fn s =
     (if \<not> wq_inited s then (-1, s) else if stream_config_locked s then (-1, s)
      else (0, s\<lparr>wq_write_fn := fn\<rparr>))"

definition kl_stream_set_submit :: "bool \<Rightarrow> bool \<Rightarrow> 'x kl_stream_scheme \<Rightarrow> int \<times> 'x kl_stream_scheme" where
  "kl_stream_set_submit fn copying s =
     (if \<not> wq_inited s then (-1, s) else if stream_config_locked s then (-1, s)
      else (0, s\<lparr>submit_fn := fn, submit_copying := copying\<rparr>))"

definition kl_stream_on_writable :: "bool \<Rightarrow> 'x kl_stream_scheme \<Rightarrow> int \<times> 'x kl_stream_scheme" where
  "kl_stream_on_writable fn s =
     (if \<not> wq_inited s then (-1, s)
      else (0, (if \<not> fn then s\<lparr>on_writable := fn, wr_blocked := False\<rparr> else s\<lparr>on_writable := fn\<rparr>)))"

section \<open>Close\<close>

definition kl_stream_write_pending :: "'x kl_stream_scheme \<Rightarrow> nat" where
  "kl_stream_write_pending s =
     (if \<not> wq_inited s then 0
      else let q = kl_drain_buffered (wq s) in
        if inflight_copying s \<and> send_inflight s then
          if inflight_len s > SIZE_MAX - q then SIZE_MAX else q + inflight_len s
        else q)"

definition stream_detach :: "hk \<Rightarrow> world \<Rightarrow> world option" where
  "stream_detach hk s =
     (let s = s\<lparr>close_state := KL_STREAM_STATE_CLOSED\<rparr> in
      if \<not> close_notified s then
        let s = s\<lparr>close_notified := True\<rparr> in
        if on_close s then map_option snd (hk On_close s) else Some s
      else Some s)"

definition stream_fully_retired :: "'x kl_stream_scheme \<Rightarrow> bool" where
  "stream_fully_retired s \<longleftrightarrow>
     (if recv_inflight s then False
      else if send_inflight s then False
      else if \<not> close_abort s \<and> \<not> wq_err s \<and> kl_stream_write_pending s > 0 then False
      else True)"

definition stream_close_finalize :: "hk \<Rightarrow> world \<Rightarrow> world option" where
  "stream_close_finalize hk s =
     (if close_state s \<noteq> KL_STREAM_STATE_CLOSING then Some s
      else if in_close_cancel s > 0 then Some s
      else if in_writable s > 0 then Some s
      else if \<not> stream_fully_retired s then Some s
      else stream_detach hk s)"

text \<open>The field \<open>on_retire\<close> is null or \<open>stream_on_retire\<close>; \<open>notify_retire\<close> is the call through it.\<close>

definition stream_on_retire :: "hk \<Rightarrow> world \<Rightarrow> world option" where
  "stream_on_retire hk s = stream_close_finalize hk s"

definition notify_retire :: "hk \<Rightarrow> world \<Rightarrow> world option" where
  "notify_retire hk s = (if on_retire s then stream_on_retire hk s else Some s)"

definition kl_stream_read_close :: "hk \<Rightarrow> world \<Rightarrow> world option" where
  "kl_stream_read_close hk s =
     (if \<not> read_inited s \<or> read_closed s then Some s
      else let s = s\<lparr>read_closed := True, recv_held := False, held_len := 0, held_ok := False\<rparr> in
        if \<not> read_completion_mode s then do {
          s \<leftarrow> (if recv_inflight s \<and> read_disarm s then map_option snd (hk Read_disarm s) else Some s);
          Some (s\<lparr>recv_inflight := False\<rparr>) }
        else Some s)"

text \<open>The cancel requests of \<open>stream_close_common\<close>, between the two changes of \<open>in_close_cancel\<close>.\<close>

definition stream_request_cancels :: "hk \<Rightarrow> world \<Rightarrow> world option" where
  "stream_request_cancels hk s = do {
     s \<leftarrow> (if recv_inflight s \<and> cancel_recv s \<and> \<not> recv_cancel_requested s
          then map_option snd (hk Cancel_recv (s\<lparr>recv_cancel_requested := True\<rparr>)) else Some s);
     (if send_inflight s \<and> cancel_send s \<and> \<not> send_cancel_requested s
      then map_option snd (hk Cancel_send (s\<lparr>send_cancel_requested := True\<rparr>)) else Some s) }"

definition stream_close_common :: "hk \<Rightarrow> bool \<Rightarrow> world \<Rightarrow> (int \<times> world) option" where
  "stream_close_common hk abort s =
     (if \<not> close_inited s then Some (-1, s)
      else if close_state s = KL_STREAM_STATE_CLOSED then Some (0, s)
      else do {
        let s = (if abort then s\<lparr>close_abort := True\<rparr> else s);
        s \<leftarrow> (if close_state s = KL_STREAM_STATE_OPEN then
               let s = s\<lparr>close_state := KL_STREAM_STATE_CLOSING, wq_closing := True\<rparr> in
               if read_inited s then kl_stream_read_close hk s else Some s
             else Some s);
        s \<leftarrow> (if close_abort s then do {
               s \<leftarrow> stream_request_cancels hk (s\<lparr>in_close_cancel := in_close_cancel s + 1\<rparr>);
               Some (s\<lparr>in_close_cancel := in_close_cancel s - 1\<rparr>) }
             else Some s);
        s \<leftarrow> stream_close_finalize hk s;
        Some (0, s) })"

definition kl_stream_close_begin :: "hk \<Rightarrow> world \<Rightarrow> (int \<times> world) option" where
  "kl_stream_close_begin hk s = stream_close_common hk False s"

definition kl_stream_cancel :: "hk \<Rightarrow> world \<Rightarrow> (int \<times> world) option" where
  "kl_stream_cancel hk s = stream_close_common hk True s"

definition kl_stream_is_detached :: "'x kl_stream_scheme \<Rightarrow> int" where
  "kl_stream_is_detached s = (if close_notified s then 1 else 0)"

section \<open>Read\<close>

text \<open>The trampoline loop of \<open>stream_arm\<close>.\<close>

fun stream_arm_loop :: "nat \<Rightarrow> hk \<Rightarrow> world \<Rightarrow> (int \<times> world) option" where
  "stream_arm_loop 0 hk s = None"
| "stream_arm_loop (Suc n) hk s =
     (if read_closed s \<or> read_paused s \<or> recv_inflight s \<or> recv_held s then Some (0, s)
      else do {
        (rc, s) \<leftarrow> hk Read_arm (s\<lparr>recv_inflight := True, recv_cancel_requested := False,
                     completed_inline := False, rearm_pending := False, arming := True\<rparr>);
        let s = s\<lparr>arming := False\<rparr>;
        if completed_inline s then
          (if rearm_pending s then stream_arm_loop n hk s else Some (0, s))
        else if rc < 0 then Some (-1, s\<lparr>recv_inflight := False, read_closed := True\<rparr>)
        else Some (0, s) })"

definition stream_arm :: "nat \<Rightarrow> hk \<Rightarrow> world \<Rightarrow> (int \<times> world) option" where
  "stream_arm n hk s =
     (if arming s then Some (0, s\<lparr>rearm_pending := True\<rparr>) else stream_arm_loop n hk s)"

definition stream_deliver_and_continue :: "nat \<Rightarrow> hk \<Rightarrow> nat \<Rightarrow> bool \<Rightarrow> world \<Rightarrow> (int \<times> world) option" where
  "stream_deliver_and_continue n hk len ok s = do {
     let s = (if \<not> ok then s\<lparr>read_closed := True\<rparr> else s);
     let len = (if \<not> ok then 0 else len);
     (r, s) \<leftarrow> hk (Read_deliver len ok) s;
     if \<not> ok then Some (0, s)
     else if read_closed s \<or> read_paused s then Some (0, s)
     else if recv_inflight s then Some (0, s)
     else stream_arm n hk s }"

definition kl_stream_read_start :: "nat \<Rightarrow> hk \<Rightarrow> world \<Rightarrow> (int \<times> world) option" where
  "kl_stream_read_start n hk s =
     (if \<not> read_inited s then Some (-1, s)
      else if read_paused s \<or> read_closed s \<or> recv_inflight s \<or> recv_held s then Some (0, s)
      else stream_arm n hk s)"

definition kl_stream_on_recv :: "nat \<Rightarrow> hk \<Rightarrow> nat \<Rightarrow> bool \<Rightarrow> world \<Rightarrow> (int \<times> world) option" where
  "kl_stream_on_recv n hk len ok s =
     (if \<not> read_inited s then Some (-1, s)
      else if \<not> recv_inflight s then Some (0, s)
      else do {
        let s = s\<lparr>recv_inflight := False\<rparr>;
        let s = (if arming s then s\<lparr>completed_inline := True\<rparr> else s);
        if read_closed s then do { s \<leftarrow> notify_retire hk s; Some (0, s) }
        else if ok \<and> len > read_cap s then do { s \<leftarrow> notify_retire hk (s\<lparr>read_closed := True\<rparr>); Some (-1, s) }
        else let len = (if \<not> ok then 0 else len) in
          if read_paused s then do {
            s \<leftarrow> notify_retire hk (s\<lparr>recv_held := True, held_len := len, held_ok := ok\<rparr>);
            Some (0, s) }
          else do {
            (r, s) \<leftarrow> stream_deliver_and_continue n hk len ok s;
            s \<leftarrow> (if \<not> recv_inflight s then notify_retire hk s else Some s);
            Some (r, s) } })"

definition kl_stream_pause :: "hk \<Rightarrow> world \<Rightarrow> world option" where
  "kl_stream_pause hk s =
     (if \<not> read_inited s \<or> read_paused s then Some s
      else let s = s\<lparr>read_paused := True\<rparr> in
        if \<not> read_completion_mode s \<and> recv_inflight s then do {
          (r, s) \<leftarrow> hk Read_disarm s;
          Some (s\<lparr>recv_inflight := False\<rparr>) }
        else Some s)"

definition kl_stream_resume :: "nat \<Rightarrow> hk \<Rightarrow> world \<Rightarrow> (int \<times> world) option" where
  "kl_stream_resume n hk s =
     (if \<not> read_inited s \<or> \<not> read_paused s then Some (0, s)
      else let s = s\<lparr>read_paused := False\<rparr> in
        if read_closed s then Some (0, s)
        else if recv_held s then
          stream_deliver_and_continue n hk (held_len s) (held_ok s)
            (s\<lparr>recv_held := False, held_len := 0, held_ok := False\<rparr>)
        else if recv_inflight s then Some (0, s)
        else stream_arm n hk s)"

definition kl_stream_read_held :: "'x kl_stream_scheme \<Rightarrow> int" where
  "kl_stream_read_held s = (if recv_held s then 1 else 0)"

section \<open>Write\<close>

definition map_drain :: "drain_status \<Rightarrow> write_status" where
  "map_drain st = (case st of KL_DRAIN_ACCEPTED \<Rightarrow> KL_STREAM_ACCEPTED
     | KL_DRAIN_WOULD_BLOCK \<Rightarrow> KL_STREAM_WOULD_BLOCK | KL_DRAIN_TOO_LARGE \<Rightarrow> KL_STREAM_TOO_LARGE
     | KL_DRAIN_WERROR \<Rightarrow> KL_STREAM_ERROR)"

definition wq_consume :: "nat \<Rightarrow> world \<Rightarrow> world" where
  "wq_consume n s = s\<lparr>wq := fst (kl_drain_consume (wq_hooks True) n (wq s) (wres s))\<rparr>"

text \<open>The test of the edge (\<open>stream_writable_edge\<close>), then the callback when it holds (\<open>stream_fire_writable\<close>).\<close>

definition stream_writable_edge :: "'x kl_stream_scheme \<Rightarrow> bool" where
  "stream_writable_edge s \<longleftrightarrow>
     (if \<not> wr_blocked s \<or> \<not> on_writable s \<or> wq_closing s then False
      else if \<not> wq_err s \<and> kl_stream_write_pending s \<ge> max_size (wq s) then False
      else True)"

definition stream_fire_writable :: "hk \<Rightarrow> world \<Rightarrow> world option" where
  "stream_fire_writable hk s = do {
     (r, s) \<leftarrow> hk On_writable (s\<lparr>in_writable := in_writable s + 1\<rparr>);
     Some (s\<lparr>in_writable := in_writable s - 1\<rparr>) }"

definition stream_edge_and_fire :: "hk \<Rightarrow> world \<Rightarrow> world option" where
  "stream_edge_and_fire hk s =
     (if stream_writable_edge s then stream_fire_writable hk (s\<lparr>wr_blocked := False\<rparr>) else Some s)"

definition stream_send_retired :: "world \<Rightarrow> world" where
  "stream_send_retired s =
     (let s = (if \<not> inflight_copying s then wq_consume (inflight_len s) s else s)
      in s\<lparr>send_inflight := False, inflight_len := 0\<rparr>)"

fun stream_pump_completion :: "nat \<Rightarrow> hk \<Rightarrow> world \<Rightarrow> (int \<times> world) option" where
  "stream_pump_completion 0 hk s = None"
| "stream_pump_completion (Suc n) hk s =
     (if wq_err s then Some (-1, s)
      else if close_abort s then Some (0, s)
      else if send_inflight s then Some (0, s)
      else let len = kl_drain_buffered (wq s) in
        if len = 0 then Some (0, s)
        else do {
          (r, s) \<leftarrow> hk (Submit_fn (dbuf (wq s)))
            (s\<lparr>send_inflight := True, send_cancel_requested := False, inflight_len := len,
               inflight_copying := submit_copying s, inline_done := False, submitting := True\<rparr>);
          let s = s\<lparr>submitting := False\<rparr>;
          if r \<noteq> 0 then
            Some (-1, s\<lparr>send_inflight := False, inflight_len := 0, inline_done := False, wq_err := True\<rparr>)
          else let s = (if inflight_copying s then wq_consume len s else s) in
            if \<not> inline_done s then Some (0, s)
            else let s = s\<lparr>inline_done := False\<rparr> in
              if \<not> inline_ok s then Some (-1, s\<lparr>send_inflight := False, inflight_len := 0, wq_err := True\<rparr>)
              else stream_pump_completion n hk (stream_send_retired s) })"

definition kl_stream_write :: "nat \<Rightarrow> hk \<Rightarrow> byte list \<Rightarrow> world \<Rightarrow> (write_status \<times> world) option" where
  "kl_stream_write n hk data s =
     (if \<not> wq_inited s then Some (KL_STREAM_ERROR, s)
      else if wq_err s then Some (KL_STREAM_ERROR, s)
      else if wq_closing s then Some (KL_STREAM_CLOSED, s)
      else if \<not> submit_fn s \<and> \<not> wq_write_fn s then Some (KL_STREAM_ERROR, s)
      else if data = [] then Some (KL_STREAM_ACCEPTED, s)
      else if submit_fn s then
        let (ds, d) = kl_drain_reserve_buffer data (wq s);
            s = s\<lparr>wq := d\<rparr>;
            s = (if ds = KL_DRAIN_WOULD_BLOCK then s\<lparr>wr_blocked := True\<rparr> else s)
        in if ds \<noteq> KL_DRAIN_ACCEPTED then Some (map_drain ds, s)
           else do {
             (r, s) \<leftarrow> stream_pump_completion n hk (s\<lparr>wr_blocked := False, accepted := accepted s @ data\<rparr>);
             Some (if r < 0 then KL_STREAM_ERROR else KL_STREAM_ACCEPTED, s) }
      else
        let (ds, d, ws) = kl_drain_reserve_write (wq_hooks True) data (wq s) (wres s);
            s = s\<lparr>wq := d, wres := ws\<rparr>;
            s = (if ds = KL_DRAIN_WERROR then s\<lparr>wq_err := True\<rparr> else s);
            s = (if ds = KL_DRAIN_WOULD_BLOCK then s\<lparr>wr_blocked := True\<rparr> else s);
            s = (if ds = KL_DRAIN_ACCEPTED then s\<lparr>wr_blocked := False, accepted := accepted s @ data\<rparr> else s)
        in Some (map_drain ds, s))"

definition kl_stream_flush :: "hk \<Rightarrow> world \<Rightarrow> (int \<times> world) option" where
  "kl_stream_flush hk s =
     (if \<not> wq_inited s \<or> wq_err s then Some (-1, s)
      else if submit_fn s \<or> \<not> wq_write_fn s then Some (-1, s)
      else let (r, d, ws) = kl_drain_flush (wq_hooks True) (wq s) (wres s);
               s = s\<lparr>wq := d, wres := ws\<rparr>;
               s = (if r < 0 then s\<lparr>wq_err := True\<rparr> else s);
               fired = stream_writable_edge s
           in do {
             s \<leftarrow> stream_edge_and_fire hk s;
             let r = (if fired \<and> r = 0 \<and> kl_drain_buffered (wq s) > 0 then 1 else r);
             s \<leftarrow> (if r \<noteq> 1 \<or> fired then notify_retire hk s else Some s);
             Some (r, s) })"

definition kl_stream_on_write_complete :: "nat \<Rightarrow> hk \<Rightarrow> bool \<Rightarrow> world \<Rightarrow> (int \<times> world) option" where
  "kl_stream_on_write_complete n hk ok s =
     (if \<not> wq_inited s then Some (-1, s)
      else if \<not> send_inflight s then Some (if wq_err s then -1 else 0, s)
      else if submitting s then Some (0, s\<lparr>inline_done := True, inline_ok := ok\<rparr>)
      else if \<not> ok then do {
        s \<leftarrow> stream_edge_and_fire hk (s\<lparr>send_inflight := False, inflight_len := 0, wq_err := True\<rparr>);
        s \<leftarrow> notify_retire hk s;
        Some (-1, s) }
      else do {
        (r, s) \<leftarrow> stream_pump_completion n hk (stream_send_retired s);
        s \<leftarrow> stream_edge_and_fire hk s;
        s \<leftarrow> notify_retire hk s;
        Some (r, s) })"

definition kl_stream_write_free :: "world \<Rightarrow> int \<times> world" where
  "kl_stream_write_free s =
     (if send_inflight s then (-1, s)
      else (0, s\<lparr>wq := kl_drain_free (wq s), wq_inited := False, inflight_len := 0, wq_err := False,
                 wr_blocked := False, on_writable := False\<rparr>))"

section \<open>The reentrant system\<close>

definition void :: "world option \<Rightarrow> (int \<times> world) option" where
  "void r = map_option (\<lambda>s. (0, s)) r"

fun stream_api :: "hk \<Rightarrow> nat \<Rightarrow> call \<Rightarrow> world \<Rightarrow> (int \<times> world) option" where
  "stream_api hk n (Write data) s = map_option (\<lambda>(st, s). (0, s)) (kl_stream_write n hk data s)"
| "stream_api hk n Flush s = kl_stream_flush hk s"
| "stream_api hk n (On_write_complete ok) s = kl_stream_on_write_complete n hk ok s"
| "stream_api hk n (Set_on_writable fn) s = Some (kl_stream_on_writable fn s)"
| "stream_api hk n Write_free s = Some (kl_stream_write_free s)"
| "stream_api hk n (Set_writer fn) s = Some (kl_stream_set_writer fn s)"
| "stream_api hk n (Set_submit fn copying) s = Some (kl_stream_set_submit fn copying s)"
| "stream_api hk n Read_start s = kl_stream_read_start n hk s"
| "stream_api hk n (On_recv len ok) s = kl_stream_on_recv n hk len ok s"
| "stream_api hk n Pause s = void (kl_stream_pause hk s)"
| "stream_api hk n Resume s = kl_stream_resume n hk s"
| "stream_api hk n Read_close s = void (kl_stream_read_close hk s)"
| "stream_api hk n (Set_cancel cr cs) s = Some (kl_stream_set_cancel cr cs s)"
| "stream_api hk n Close_begin s = kl_stream_close_begin hk s"
| "stream_api hk n Cancel s = kl_stream_cancel hk s"

text \<open>A hook is entered: it is logged with a snapshot, and takes the next reaction of the script.\<close>

definition log_hook :: "hook \<Rightarrow> world \<Rightarrow> world" where
  "log_hook h s = s\<lparr>active := h # active s, trace := (h, active s, kl_stream.truncate s) # trace s\<rparr>"

definition stream_enter :: "hook \<Rightarrow> world \<Rightarrow> (call list \<times> int) \<times> world" where
  "stream_enter h s =
     (case script s of [] \<Rightarrow> (([], 0), log_hook h s)
      | x # xs \<Rightarrow> (x, (log_hook h s)\<lparr>script := xs\<rparr>))"

definition stream_leave :: "hook \<Rightarrow> world \<Rightarrow> world" where
  "stream_leave h s = s\<lparr>active := tl (active s)\<rparr>"

definition stream_hooks :: "nat \<Rightarrow> hk" where
  "stream_hooks = hook_sem stream_api stream_enter stream_leave"

definition stream_call :: "nat \<Rightarrow> call \<Rightarrow> world \<Rightarrow> (int \<times> world) option" where
  "stream_call = top_call stream_api stream_enter stream_leave"

end
