(* ===== verification/Stream_Inv.thy ===== *)
theory Stream_Inv
  imports Stream
begin

text \<open>
  The contract of the stream and its proof. \<open>trace_ok\<close> is a monitor over the hook calls of a run: it says,
  call by call, when a hook may be called. \<open>stream_inv\<close> is the invariant, \<open>keeps\<close> what an operation leaves in
  place for the frames below it on the call stack, and each operation is shown to return and to keep
  both over any well-behaved hooks. The interpretation \<open>sr\<close> of the locale \<open>reentrant\<close> then gives the
  theorems for the whole reentrant system.
\<close>

section \<open>The contract as a monitor of hook calls\<close>

abbreviation hooks_of :: "(hook \<times> hook list \<times> kl_stream) list \<Rightarrow> hook set" where
  "hooks_of t \<equiv> fst ` set t"

text \<open>Is there a call of the cancel hook \<open>c\<close> since the last hook that \<open>starts\<close> a new operation?\<close>

fun cancelled_since :: "hook \<Rightarrow> (hook \<Rightarrow> bool) \<Rightarrow> (hook \<times> hook list \<times> kl_stream) list \<Rightarrow> bool" where
  "cancelled_since c starts [] = False"
| "cancelled_since c starts (e # t) =
     (if fst e = c then True else if starts (fst e) then False else cancelled_since c starts t)"

fun is_submit :: "hook \<Rightarrow> bool" where
  "is_submit (Submit_fn d) = True"
| "is_submit h = False"

fun is_terminal :: "hook \<Rightarrow> bool" where
  "is_terminal (Read_deliver len ok) = (\<not> ok)"
| "is_terminal h = False"

text \<open>
  May the hook be called now, with the hooks \<open>fs\<close> on the call stack, in the stream state \<open>k\<close>, after the
  earlier calls \<open>t\<close>?
\<close>

fun hook_allowed :: "(hook \<times> hook list \<times> kl_stream) list \<Rightarrow> hook list \<Rightarrow> kl_stream \<Rightarrow> hook \<Rightarrow> bool" where
  "hook_allowed t fs k On_close \<longleftrightarrow>
     On_close \<notin> hooks_of t \<and> \<not> recv_inflight k \<and> \<not> send_inflight k \<and>
     (close_abort k \<or> wq_err k \<or> kl_stream_write_pending k = 0) \<and>
     On_writable \<notin> set fs \<and> Cancel_recv \<notin> set fs \<and> Cancel_send \<notin> set fs"
| "hook_allowed t fs k Read_arm \<longleftrightarrow>
     On_close \<notin> hooks_of t \<and> \<not> read_paused k \<and> \<not> read_closed k \<and> \<not> recv_held k"
| "hook_allowed t fs k (Read_deliver len ok) \<longleftrightarrow>
     On_close \<notin> hooks_of t \<and> \<not> read_paused k \<and> len \<le> read_cap k \<and> (\<forall>h \<in> hooks_of t. \<not> is_terminal h) \<and>
     (if ok then \<not> read_closed k else read_closed k \<and> len = 0)"
| "hook_allowed t fs k (Submit_fn data) \<longleftrightarrow>
     On_close \<notin> hooks_of t \<and> \<not> close_abort k \<and> data \<noteq> [] \<and> data = dbuf (wq k)"
| "hook_allowed t fs k Read_disarm \<longleftrightarrow> \<not> read_completion_mode k \<and> recv_inflight k"
| "hook_allowed t fs k Cancel_recv \<longleftrightarrow>
     recv_inflight k \<and> close_abort k \<and> \<not> cancelled_since Cancel_recv (\<lambda>h. h = Read_arm) t"
| "hook_allowed t fs k Cancel_send \<longleftrightarrow>
     send_inflight k \<and> close_abort k \<and> \<not> cancelled_since Cancel_send is_submit t"
| "hook_allowed t fs k On_writable \<longleftrightarrow>
     \<not> wq_closing k \<and> (wq_err k \<or> kl_stream_write_pending k < max_size (wq k))"

fun trace_ok :: "(hook \<times> hook list \<times> kl_stream) list \<Rightarrow> bool" where
  "trace_ok [] = True"
| "trace_ok ((h, fs, k) # t) = (hook_allowed t fs k h \<and> trace_ok t)"

section \<open>Invariant\<close>

definition close_inv :: "world \<Rightarrow> bool" where
  "close_inv s \<longleftrightarrow>
     (close_notified s \<longleftrightarrow> close_state s = KL_STREAM_STATE_CLOSED) \<and>
     (close_state s = KL_STREAM_STATE_CLOSED \<longrightarrow> \<not> recv_inflight s \<and> \<not> send_inflight s \<and>
        (close_abort s \<or> wq_err s \<or> kl_stream_write_pending s = 0)) \<and>
     (close_state s \<noteq> KL_STREAM_STATE_OPEN \<longrightarrow>
        close_inited s \<and> wq_closing s \<and> (read_inited s \<longrightarrow> read_closed s)) \<and>
     (close_inited s \<longrightarrow> on_close s \<and> on_retire s) \<and>
     (On_close \<in> hooks_of (trace s) \<longleftrightarrow> close_notified s)"

definition read_inv :: "world \<Rightarrow> bool" where
  "read_inv s \<longleftrightarrow>
     (recv_inflight s \<longrightarrow> read_inited s) \<and> (\<not> read_completion_mode s \<and> read_inited s \<longrightarrow> read_disarm s) \<and>
     (recv_held s \<longrightarrow> read_inited s \<and> held_len s \<le> read_cap s \<and> (\<not> held_ok s \<longrightarrow> held_len s = 0)) \<and>
     ((\<exists>h \<in> hooks_of (trace s). is_terminal h) \<longrightarrow> read_closed s) \<and>
     (cancelled_since Cancel_recv (\<lambda>h. h = Read_arm) (trace s) \<longrightarrow> recv_cancel_requested s)"

definition write_inv :: "world \<Rightarrow> bool" where
  "write_inv s \<longleftrightarrow>
     (submitting s \<longrightarrow> send_inflight s) \<and> (send_inflight s \<longrightarrow> wq_inited s \<and> submit_fn s) \<and>
     (wq_inited s \<longrightarrow> drain_plain (wq s) \<and> drain_stream (wq s) = accepted s) \<and>
     (send_inflight s \<and> (submitting s \<or> \<not> inflight_copying s) \<longrightarrow> inflight_len s \<le> length (dbuf (wq s))) \<and>
     (cancelled_since Cancel_send is_submit (trace s) \<longrightarrow> send_cancel_requested s)"

definition frames_inv :: "world \<Rightarrow> bool" where
  "frames_inv s \<longleftrightarrow>
     in_writable s = length (filter (\<lambda>h. h = On_writable) (active s)) \<and>
     in_close_cancel s = length (filter (\<lambda>h. h = Cancel_recv \<or> h = Cancel_send) (active s))"

definition stream_inv :: "world \<Rightarrow> bool" where
  "stream_inv s \<longleftrightarrow> close_inv s \<and> read_inv s \<and> write_inv s \<and> trace_ok (trace s)"

text \<open>What an operation, with all that its hooks do, leaves in place.\<close>

definition keeps :: "world \<Rightarrow> world \<Rightarrow> bool" where
  "keeps s s' \<longleftrightarrow>
     active s' = active s \<and> in_writable s' = in_writable s \<and> in_close_cancel s' = in_close_cancel s \<and>
     arming s' = arming s \<and> submitting s' = submitting s \<and>
     (submitting s \<longrightarrow> send_inflight s \<longrightarrow> send_inflight s' \<and> inflight_len s' = inflight_len s \<and>
        inflight_copying s' = inflight_copying s) \<and>
     (close_state s = KL_STREAM_STATE_CLOSED \<longrightarrow> close_state s' = KL_STREAM_STATE_CLOSED) \<and>
     (close_state s \<noteq> KL_STREAM_STATE_OPEN \<longrightarrow> close_state s' \<noteq> KL_STREAM_STATE_OPEN) \<and>
     (read_closed s \<longrightarrow> read_closed s') \<and> (close_abort s \<longrightarrow> close_abort s') \<and>
     read_inited s' = read_inited s \<and> close_inited s' = close_inited s \<and> read_cap s' = read_cap s \<and>
     on_retire s' = on_retire s \<and>
     length (script s') \<le> length (script s) \<and> (\<exists>evs. trace s' = evs @ trace s)"

definition hook_pre :: "hook \<Rightarrow> world \<Rightarrow> bool" where
  "hook_pre h s \<longleftrightarrow> stream_inv (log_hook h s) \<and> frames_inv (log_hook h s)"

definition hook_post :: "hook \<Rightarrow> world \<Rightarrow> int \<Rightarrow> world \<Rightarrow> bool" where
  "hook_post h s r s' \<longleftrightarrow> stream_inv s' \<and> keeps s s' \<and>
     (\<exists>evs. trace s' = evs @ (h, active s, kl_stream.truncate s) # trace s) \<and>
     (length (script s') < length (script s) \<or> s' = s\<lparr>trace := (h, active s, kl_stream.truncate s) # trace s\<rparr>)"

abbreviation script_len :: "world \<Rightarrow> nat" where "script_len s \<equiv> length (script s)"

abbreviation good_hooks :: "nat \<Rightarrow> hk \<Rightarrow> bool" where
  "good_hooks n hk \<equiv> hooks_ok hook_pre hook_post script_len n hk"

lemma keeps_refl [simp]: "keeps s s"
  by (simp add: keeps_def)

lemma keeps_trans: "keeps s s1 \<Longrightarrow> keeps s1 s2 \<Longrightarrow> keeps s s2"
  unfolding keeps_def by (elim conjE exE, intro conjI) (auto intro: exI)

lemma keeps_frames: "keeps s s' \<Longrightarrow> frames_inv s \<Longrightarrow> frames_inv s'"
  by (simp add: keeps_def frames_inv_def)

lemma pending_truncate [simp]: "kl_stream_write_pending (kl_stream.truncate s) = kl_stream_write_pending s"
  by (simp add: kl_stream_write_pending_def kl_stream.truncate_def Let_def)

text \<open>The record fields of a snapshot.\<close>

lemma truncate_fields [simp]:
  "recv_inflight (kl_stream.truncate s) = recv_inflight s" "send_inflight (kl_stream.truncate s) = send_inflight s"
  "close_abort (kl_stream.truncate s) = close_abort s" "wq_err (kl_stream.truncate s) = wq_err s"
  "read_paused (kl_stream.truncate s) = read_paused s" "read_closed (kl_stream.truncate s) = read_closed s"
  "recv_held (kl_stream.truncate s) = recv_held s" "read_cap (kl_stream.truncate s) = read_cap s"
  "wq (kl_stream.truncate s) = wq s" "wq_closing (kl_stream.truncate s) = wq_closing s"
  "read_completion_mode (kl_stream.truncate s) = read_completion_mode s"
  by (simp_all add: kl_stream.truncate_def)

lemma log_hook_inv:
  "stream_inv (log_hook h s) \<longleftrightarrow>
     close_inv (log_hook h s) \<and> read_inv (log_hook h s) \<and> write_inv (log_hook h s) \<and>
     hook_allowed (trace s) (active s) (kl_stream.truncate s) h \<and> trace_ok (trace s)"
  by (simp add: stream_inv_def log_hook_def)

section \<open>Running operations\<close>

definition runs :: "world \<Rightarrow> ('r \<times> world) option \<Rightarrow> bool" where
  "runs s m \<longleftrightarrow> (\<exists>r s'. m = Some (r, s') \<and> stream_inv s' \<and> keeps s s')"

definition runs_void :: "world \<Rightarrow> world option \<Rightarrow> bool" where
  "runs_void s m \<longleftrightarrow> (\<exists>s'. m = Some s' \<and> stream_inv s' \<and> keeps s s')"

lemma runs_ret: "stream_inv s' \<Longrightarrow> keeps s s' \<Longrightarrow> runs s (Some (r, s'))"
  by (simp add: runs_def)

lemma runs_void_ret: "stream_inv s' \<Longrightarrow> keeps s s' \<Longrightarrow> runs_void s (Some s')"
  by (simp add: runs_void_def)

lemma runs_bind:
  assumes "runs s1 m" and "keeps s s1"
    and "\<And>r s'. stream_inv s' \<Longrightarrow> keeps s1 s' \<Longrightarrow> keeps s s' \<Longrightarrow> runs s (f (r, s'))"
  shows "runs s (Option.bind m f)"
proof -
  from assms(1) obtain r s' where "m = Some (r, s')" "stream_inv s'" "keeps s1 s'" by (auto simp: runs_def)
  with assms(3) [of s' r] keeps_trans [OF assms(2)] show ?thesis by simp
qed

lemma runs_bind_void:
  assumes "runs_void s1 m" and "keeps s s1"
    and "\<And>s'. stream_inv s' \<Longrightarrow> keeps s1 s' \<Longrightarrow> keeps s s' \<Longrightarrow> runs s (f s')"
  shows "runs s (Option.bind m f)"
proof -
  from assms(1) obtain s' where "m = Some s'" "stream_inv s'" "keeps s1 s'" by (auto simp: runs_void_def)
  with assms(3) [of s'] keeps_trans [OF assms(2)] show ?thesis by simp
qed

lemma runs_void_bind:
  assumes "runs s1 m" and "keeps s s1"
    and "\<And>r s'. stream_inv s' \<Longrightarrow> keeps s1 s' \<Longrightarrow> keeps s s' \<Longrightarrow> runs_void s (f (r, s'))"
  shows "runs_void s (Option.bind m f)"
proof -
  from assms(1) obtain r s' where "m = Some (r, s')" "stream_inv s'" "keeps s1 s'" by (auto simp: runs_def)
  with assms(3) [of s' r] keeps_trans [OF assms(2)] show ?thesis by simp
qed

lemma runs_void_bind_void:
  assumes "runs_void s1 m" and "keeps s s1"
    and "\<And>s'. stream_inv s' \<Longrightarrow> keeps s1 s' \<Longrightarrow> keeps s s' \<Longrightarrow> runs_void s (f s')"
  shows "runs_void s (Option.bind m f)"
proof -
  from assms(1) obtain s' where "m = Some s'" "stream_inv s'" "keeps s1 s'" by (auto simp: runs_void_def)
  with assms(3) [of s'] keeps_trans [OF assms(2)] show ?thesis by simp
qed

lemma runs_void_snd: "runs s m \<Longrightarrow> runs_void s (map_option snd m)"
  by (auto simp: runs_def runs_void_def)

lemma runs_weaken: "runs s1 m \<Longrightarrow> keeps s s1 \<Longrightarrow> runs s m"
  by (auto simp: runs_def intro: keeps_trans)

lemma runs_void_weaken: "runs_void s1 m \<Longrightarrow> keeps s s1 \<Longrightarrow> runs_void s m"
  by (auto simp: runs_void_def intro: keeps_trans)

lemma hook_runs:
  assumes "good_hooks n hk" and "hook_pre h s" and "script_len s < n"
  shows "runs s (hk h s)"
  using hooks_okD [OF assms] by (metis hook_post_def runs_def)

lemma hook_step:
  assumes "good_hooks n hk" and "hook_pre h s" and "script_len s < n"
  obtains r s' where "hk h s = Some (r, s')" and "stream_inv s'" and "keeps s s'"
    and "script_len s' < script_len s \<or> s' = s\<lparr>trace := (h, active s, kl_stream.truncate s) # trace s\<rparr>"
  using hooks_okD [OF assms] by (metis hook_post_def)

lemma keeps_script: "keeps s s' \<Longrightarrow> script_len s < n \<Longrightarrow> script_len s' < n"
  by (simp add: keeps_def)

text \<open>The state an operation starts in.\<close>

definition ready :: "nat \<Rightarrow> world \<Rightarrow> bool" where
  "ready n s \<longleftrightarrow> stream_inv s \<and> frames_inv s \<and> script_len s < n"

lemma ready_keeps: "ready n s \<Longrightarrow> stream_inv s' \<Longrightarrow> keeps s s' \<Longrightarrow> ready n s'"
  unfolding ready_def using keeps_frames keeps_script by blast

lemmas inv_defs = stream_inv_def close_inv_def read_inv_def write_inv_def

lemma no_frames:
  "frames_inv s \<Longrightarrow> in_writable s = 0 \<Longrightarrow> in_close_cancel s = 0 \<Longrightarrow>
     On_writable \<notin> set (active s) \<and> Cancel_recv \<notin> set (active s) \<and> Cancel_send \<notin> set (active s)"
  by (auto simp: frames_inv_def filter_empty_conv)

lemma pending_indep [simp]:
  "kl_stream_write_pending (s\<lparr>trace := t\<rparr>) = kl_stream_write_pending s"
  "kl_stream_write_pending (s\<lparr>active := a\<rparr>) = kl_stream_write_pending s"
  "kl_stream_write_pending (s\<lparr>close_state := c\<rparr>) = kl_stream_write_pending s"
  "kl_stream_write_pending (s\<lparr>close_notified := b\<rparr>) = kl_stream_write_pending s"
  "kl_stream_write_pending (s\<lparr>wq_closing := b\<rparr>) = kl_stream_write_pending s"
  "kl_stream_write_pending (s\<lparr>close_abort := b\<rparr>) = kl_stream_write_pending s"
  "kl_stream_write_pending (s\<lparr>in_close_cancel := n\<rparr>) = kl_stream_write_pending s"
  "kl_stream_write_pending (s\<lparr>in_writable := n\<rparr>) = kl_stream_write_pending s"
  "kl_stream_write_pending (s\<lparr>recv_inflight := b\<rparr>) = kl_stream_write_pending s"
  "kl_stream_write_pending (s\<lparr>read_closed := b\<rparr>) = kl_stream_write_pending s"
  "kl_stream_write_pending (s\<lparr>read_paused := b\<rparr>) = kl_stream_write_pending s"
  "kl_stream_write_pending (s\<lparr>recv_held := b\<rparr>) = kl_stream_write_pending s"
  "kl_stream_write_pending (s\<lparr>held_len := n\<rparr>) = kl_stream_write_pending s"
  "kl_stream_write_pending (s\<lparr>held_ok := b\<rparr>) = kl_stream_write_pending s"
  "kl_stream_write_pending (s\<lparr>arming := b\<rparr>) = kl_stream_write_pending s"
  "kl_stream_write_pending (s\<lparr>rearm_pending := b\<rparr>) = kl_stream_write_pending s"
  "kl_stream_write_pending (s\<lparr>completed_inline := b\<rparr>) = kl_stream_write_pending s"
  "kl_stream_write_pending (s\<lparr>recv_cancel_requested := b\<rparr>) = kl_stream_write_pending s"
  "kl_stream_write_pending (s\<lparr>send_cancel_requested := b\<rparr>) = kl_stream_write_pending s"
  "kl_stream_write_pending (s\<lparr>wq_err := b\<rparr>) = kl_stream_write_pending s"
  "kl_stream_write_pending (s\<lparr>wr_blocked := b\<rparr>) = kl_stream_write_pending s"
  "kl_stream_write_pending (s\<lparr>cancel_recv := b\<rparr>) = kl_stream_write_pending s"
  "kl_stream_write_pending (s\<lparr>cancel_send := b\<rparr>) = kl_stream_write_pending s"
  "kl_stream_write_pending (s\<lparr>inline_done := b\<rparr>) = kl_stream_write_pending s"
  "kl_stream_write_pending (s\<lparr>inline_ok := b\<rparr>) = kl_stream_write_pending s"
  "kl_stream_write_pending (s\<lparr>submitting := b\<rparr>) = kl_stream_write_pending s"
  "kl_stream_write_pending (s\<lparr>on_writable := b\<rparr>) = kl_stream_write_pending s"
  "kl_stream_write_pending (s\<lparr>wq_write_fn := b\<rparr>) = kl_stream_write_pending s"
  "kl_stream_write_pending (s\<lparr>submit_fn := b\<rparr>) = kl_stream_write_pending s"
  "kl_stream_write_pending (s\<lparr>submit_copying := b\<rparr>) = kl_stream_write_pending s"
  "kl_stream_write_pending (s\<lparr>script := sc\<rparr>) = kl_stream_write_pending s"
  "kl_stream_write_pending (s\<lparr>wres := ws\<rparr>) = kl_stream_write_pending s"
  "kl_stream_write_pending (s\<lparr>accepted := ac\<rparr>) = kl_stream_write_pending s"
  by (simp_all add: kl_stream_write_pending_def Let_def)

text \<open>Logging an allowed hook keeps the invariant; frames count the hooks that defer a detachment.\<close>

lemma log_hook_keeps_inv:
  assumes "stream_inv s" and "hook_allowed (trace s) (active s) (kl_stream.truncate s) h" and "h \<noteq> On_close"
    and "h = Cancel_recv \<Longrightarrow> recv_cancel_requested s" and "h = Cancel_send \<Longrightarrow> send_cancel_requested s"
    and "is_terminal h \<Longrightarrow> read_closed s"
  shows "stream_inv (log_hook h s)"
proof -
  have "close_inv (log_hook h s)" using assms(1,3) by (simp add: stream_inv_def close_inv_def log_hook_def)
  moreover have "read_inv (log_hook h s)"
    using assms(1,4,6) by (auto simp: stream_inv_def read_inv_def log_hook_def)
  moreover have "write_inv (log_hook h s)"
    using assms(1,5) by (auto simp: stream_inv_def write_inv_def log_hook_def)
  moreover have "trace_ok (trace s)" using assms(1) by (simp add: stream_inv_def)
  ultimately show ?thesis using assms(2) by (simp add: log_hook_inv)
qed

lemma frames_log_neutral:
  "h \<noteq> On_writable \<Longrightarrow> h \<noteq> Cancel_recv \<Longrightarrow> h \<noteq> Cancel_send \<Longrightarrow>
     frames_inv (log_hook h s) \<longleftrightarrow> frames_inv s"
  by (simp add: frames_inv_def log_hook_def)

lemma frames_log_cancel:
  "h = Cancel_recv \<or> h = Cancel_send \<Longrightarrow> 0 < in_close_cancel s \<Longrightarrow>
     frames_inv (s\<lparr>in_close_cancel := in_close_cancel s - 1\<rparr>) \<Longrightarrow> frames_inv (log_hook h s)"
  by (auto simp: frames_inv_def log_hook_def)

lemma frames_log_writable:
  "0 < in_writable s \<Longrightarrow> frames_inv (s\<lparr>in_writable := in_writable s - 1\<rparr>) \<Longrightarrow>
     frames_inv (log_hook On_writable s)"
  by (auto simp: frames_inv_def log_hook_def)

lemma on_close_pre:
  assumes "ready n s" and "close_state s = KL_STREAM_STATE_CLOSING" and "in_close_cancel s = 0" and "in_writable s = 0"
    and "stream_fully_retired s"
  shows "hook_pre On_close (s\<lparr>close_state := KL_STREAM_STATE_CLOSED, close_notified := True\<rparr>)"
  using assms no_frames [of s]
  by (auto simp: hook_pre_def log_hook_inv ready_def inv_defs log_hook_def frames_inv_def
      stream_fully_retired_def split: if_splits)

lemma finalize_runs:
  assumes hk: "good_hooks n hk" and s: "ready n s"
  shows "runs_void s (stream_close_finalize hk s)"
proof (cases "close_state s = KL_STREAM_STATE_CLOSING \<and> in_close_cancel s = 0 \<and> in_writable s = 0 \<and>
    stream_fully_retired s")
  case False
  then have "stream_close_finalize hk s = Some s" by (auto simp: stream_close_finalize_def)
  with s show ?thesis by (simp add: runs_void_ret ready_def)
next
  case True
  let ?s1 = "s\<lparr>close_state := KL_STREAM_STATE_CLOSED, close_notified := True\<rparr>"
  from s True have nn: "\<not> close_notified s" and oc: "on_close s" by (auto simp: ready_def inv_defs)
  have "hook_pre On_close ?s1" using s True by (intro on_close_pre) simp_all
  then have "runs ?s1 (hk On_close ?s1)"
    using s by (intro hook_runs [OF hk]) (simp_all add: ready_def)
  moreover have "keeps s ?s1" using True by (simp add: keeps_def)
  ultimately have "runs_void s (map_option snd (hk On_close ?s1))"
    by (blast intro: runs_void_snd runs_void_weaken)
  with True nn oc show ?thesis by (simp add: stream_close_finalize_def stream_detach_def)
qed


lemma notify_runs:
  assumes "good_hooks n hk" and "ready n s"
  shows "runs_void s (notify_retire hk s)"
  using finalize_runs [OF assms] assms(2)
  by (simp add: notify_retire_def stream_on_retire_def runs_void_ret ready_def)

text \<open>Operations that end by giving the close lifecycle a chance to finalize.\<close>

definition notifies :: "nat \<Rightarrow> hk \<Rightarrow> world \<Rightarrow> (int \<times> world) option \<Rightarrow> bool" where
  "notifies n hk s m \<longleftrightarrow>
     (\<exists>s1 r. stream_inv s1 \<and> keeps s s1 \<and> m = do { s' \<leftarrow> notify_retire hk s1; Some (r, s') })"

lemma notifiesI:
  "stream_inv s1 \<Longrightarrow> keeps s s1 \<Longrightarrow> notifies n hk s (do { s' \<leftarrow> notify_retire hk s1; Some (r, s') })"
  unfolding notifies_def by blast

lemma notifies_bind:
  assumes "runs s1 m" and "keeps s s1" and "\<And>r s'. stream_inv s' \<Longrightarrow> keeps s s' \<Longrightarrow> notifies n hk s (f (r, s'))"
  shows "notifies n hk s (Option.bind m f)"
proof -
  from assms(1) obtain r s' where "m = Some (r, s')" "stream_inv s'" "keeps s1 s'" by (auto simp: runs_def)
  with assms(3) [of s' r] keeps_trans [OF assms(2)] show ?thesis by simp
qed

lemma notifies_bind_void:
  assumes "runs_void s1 m" and "keeps s s1" and "\<And>s'. stream_inv s' \<Longrightarrow> keeps s s' \<Longrightarrow> notifies n hk s (f s')"
  shows "notifies n hk s (Option.bind m f)"
proof -
  from assms(1) obtain s' where "m = Some s'" "stream_inv s'" "keeps s1 s'" by (auto simp: runs_void_def)
  with assms(3) [of s'] keeps_trans [OF assms(2)] show ?thesis by simp
qed

lemma notifies_runs:
  assumes "good_hooks n hk" and "ready n s" and "notifies n hk s m"
  shows "runs s m"
proof -
  from assms(3) obtain s1 r where 1: "stream_inv s1" "keeps s s1" and m: "m = do { s' \<leftarrow> notify_retire hk s1; Some (r, s') }"
    unfolding notifies_def by blast
  show ?thesis unfolding m
    by (rule runs_bind_void [OF notify_runs [OF assms(1) ready_keeps [OF assms(2) 1]] 1(2)]) (erule (1) runs_ret)
qed

lemma read_close_runs:
  assumes hk: "good_hooks n hk" and f: "frames_inv s" "script_len s < n"
    and i: "stream_inv (if read_inited s \<and> \<not> read_closed s
      then s\<lparr>read_closed := True, recv_held := False, held_len := 0, held_ok := False\<rparr> else s)"
  shows "runs_void s (kl_stream_read_close hk s)"
proof (cases "read_inited s \<and> \<not> read_closed s")
  case False
  with i show ?thesis by (auto simp: kl_stream_read_close_def intro: runs_void_ret)
next
  case True
  let ?s1 = "s\<lparr>read_closed := True, recv_held := False, held_len := 0, held_ok := False\<rparr>"
  from i True have i1: "stream_inv ?s1" by simp
  have k1: "keeps s ?s1" by (simp add: keeps_def)
  have i2: "stream_inv s' \<Longrightarrow> keeps s s' \<Longrightarrow> runs_void s (Some (s'\<lparr>recv_inflight := False\<rparr>))" for s'
    by (intro runs_void_ret) (auto simp: inv_defs keeps_def)
  show ?thesis
  proof (cases "recv_inflight s \<and> read_disarm s \<and> \<not> read_completion_mode s")
    case True
    have "hook_pre Read_disarm ?s1"
      unfolding hook_pre_def
      using log_hook_keeps_inv [OF i1, of Read_disarm] f True by (simp add: frames_inv_def log_hook_def)
    then have "runs ?s1 (hk Read_disarm ?s1)" using f by (intro hook_runs [OF hk]) simp_all
    then have "runs_void ?s1 (map_option snd (hk Read_disarm ?s1))" by (rule runs_void_snd)
    then show ?thesis
      using True \<open>read_inited s \<and> \<not> read_closed s\<close>
      by (auto simp: kl_stream_read_close_def Let_def intro!: runs_void_bind_void [OF _ k1] i2)
  next
    case False
    with \<open>read_inited s \<and> \<not> read_closed s\<close> show ?thesis
      using i2 [OF i1 k1] runs_void_ret [OF i1 k1]
      by (auto simp: kl_stream_read_close_def Let_def)
  qed
qed

lemma cancels_run:
  assumes hk: "good_hooks n hk" and i: "stream_inv s" and l: "script_len s < n" and a: "close_abort s"
    and f: "frames_inv (s\<lparr>in_close_cancel := in_close_cancel s - 1\<rparr>)" and p: "0 < in_close_cancel s"
  shows "runs_void s (stream_request_cancels hk s)"
  unfolding stream_request_cancels_def
proof (rule runs_void_bind_void)
  let ?s1 = "s\<lparr>recv_cancel_requested := True\<rparr>"
  show "runs_void s (if recv_inflight s \<and> cancel_recv s \<and> \<not> recv_cancel_requested s
     then map_option snd (hk Cancel_recv ?s1) else Some s)"
  proof (cases "recv_inflight s \<and> cancel_recv s \<and> \<not> recv_cancel_requested s")
    case True
    have "stream_inv ?s1" using i by (simp add: inv_defs)
    moreover have "\<not> cancelled_since Cancel_recv (\<lambda>h. h = Read_arm) (trace s)"
      using i True by (auto simp: stream_inv_def read_inv_def)
    ultimately have "hook_pre Cancel_recv ?s1"
      unfolding hook_pre_def using f p a True
      by (intro conjI log_hook_keeps_inv frames_log_cancel) (simp_all add: frames_inv_def)
    then have "runs ?s1 (hk Cancel_recv ?s1)" using l by (intro hook_runs [OF hk]) simp_all
    moreover have "keeps s ?s1" by (simp add: keeps_def)
    ultimately have "runs s (hk Cancel_recv ?s1)" by (rule runs_weaken)
    with True show ?thesis by (simp add: runs_void_snd)
  qed (use i in \<open>auto intro: runs_void_ret\<close>)
next
  fix s' assume i': "stream_inv s'" and k: "keeps s s'"
  let ?s1 = "s'\<lparr>send_cancel_requested := True\<rparr>"
  show "runs_void s (if send_inflight s' \<and> cancel_send s' \<and> \<not> send_cancel_requested s'
     then map_option snd (hk Cancel_send ?s1) else Some s')"
  proof (cases "send_inflight s' \<and> cancel_send s' \<and> \<not> send_cancel_requested s'")
    case True
    have l': "script_len s' < n" using k l by (simp add: keeps_def)
    have "close_abort s'" "frames_inv (s'\<lparr>in_close_cancel := in_close_cancel s' - 1\<rparr>)" "0 < in_close_cancel s'"
      using k a f p by (simp_all add: keeps_def frames_inv_def)
    moreover have "stream_inv ?s1" using i' by (simp add: inv_defs)
    moreover have "\<not> cancelled_since Cancel_send is_submit (trace s')"
      using i' True by (auto simp: stream_inv_def write_inv_def)
    ultimately have "hook_pre Cancel_send ?s1"
      unfolding hook_pre_def using True
      by (intro conjI log_hook_keeps_inv frames_log_cancel) (simp_all add: frames_inv_def)
    then have "runs ?s1 (hk Cancel_send ?s1)" using l' by (intro hook_runs [OF hk]) simp_all
    moreover have "keeps s ?s1" using k by (simp add: keeps_def)
    ultimately have "runs s (hk Cancel_send ?s1)" by (rule runs_weaken)
    with True show ?thesis by (simp add: runs_void_snd)
  qed (use i' k in \<open>auto intro: runs_void_ret\<close>)
qed simp

section \<open>Close and arm\<close>

lemma close_common_notifies:
  assumes hk: "good_hooks n hk" and s: "ready n s" and c: "close_inited s" "close_state s \<noteq> KL_STREAM_STATE_CLOSED"
  shows "notifies n hk s (stream_close_common hk abort s)"
proof -
  define s0 where "s0 = (if abort then s\<lparr>close_abort := True\<rparr> else s)"
  have r0: "ready n s0" and k0: "keeps s s0" and c0: "close_inited s0" "close_state s0 = close_state s"
    using s c by (auto simp: s0_def ready_def inv_defs frames_inv_def keeps_def)
  define s1 where "s1 = s0\<lparr>close_state := KL_STREAM_STATE_CLOSING, wq_closing := True\<rparr>"
  have k1: "keeps s0 s1" using c0 c by (auto simp: s1_def keeps_def)
  have op: "runs_void s0 (if close_state s0 = KL_STREAM_STATE_OPEN then
               if read_inited s1 then kl_stream_read_close hk s1 else Some s1 else Some s0)"
  proof (cases "close_state s0 = KL_STREAM_STATE_OPEN")
    case False
    with r0 show ?thesis by (simp add: ready_def runs_void_ret)
  next
    case o: True
    have i1: "\<not> (read_inited s1 \<and> \<not> read_closed s1) \<Longrightarrow> stream_inv s1"
      using r0 o c0 by (auto simp: s1_def ready_def inv_defs)
    have i2: "stream_inv (s1\<lparr>read_closed := True, recv_held := False, held_len := 0, held_ok := False\<rparr>)"
      using r0 o c0 by (auto simp: s1_def ready_def inv_defs)
    have f1: "frames_inv s1" "script_len s1 < n" using r0 by (simp_all add: s1_def ready_def frames_inv_def)
    have "runs_void s1 (kl_stream_read_close hk s1)"
      by (rule read_close_runs [OF hk f1]) (use i1 i2 in auto)
    then show ?thesis using o k1 i1 by (auto intro: runs_void_weaken runs_void_ret)
  qed
  have cancels: "runs_void s' (if close_abort s' then do {
               s \<leftarrow> stream_request_cancels hk (s'\<lparr>in_close_cancel := in_close_cancel s' + 1\<rparr>);
               Some (s\<lparr>in_close_cancel := in_close_cancel s - 1\<rparr>) } else Some s')"
    if r': "ready n s'" for s'
  proof (cases "close_abort s'")
    case False
    with r' show ?thesis by (simp add: ready_def runs_void_ret)
  next
    case a: True
    let ?s2 = "s'\<lparr>in_close_cancel := in_close_cancel s' + 1\<rparr>"
    have "runs_void ?s2 (stream_request_cancels hk ?s2)"
      by (rule cancels_run [OF hk]) (use r' a in \<open>simp_all add: ready_def inv_defs frames_inv_def\<close>)
    then obtain s3 where s3: "stream_request_cancels hk ?s2 = Some s3" "stream_inv s3" "keeps ?s2 s3"
      by (auto simp: runs_void_def)
    have "stream_inv (s3\<lparr>in_close_cancel := in_close_cancel s3 - 1\<rparr>)" using s3(2) by (simp add: inv_defs)
    moreover have "keeps s' (s3\<lparr>in_close_cancel := in_close_cancel s3 - 1\<rparr>)" using s3(3) by (simp add: keeps_def)
    ultimately show ?thesis using a s3(1) by (simp add: runs_void_ret)
  qed
  from op obtain s2 where s2: "(if close_state s0 = KL_STREAM_STATE_OPEN then
      if read_inited s1 then kl_stream_read_close hk s1 else Some s1 else Some s0) = Some s2"
    and i2: "stream_inv s2" and k2: "keeps s0 s2" by (auto simp: runs_void_def)
  from cancels [OF ready_keeps [OF r0 i2 k2]] obtain s3 where s3: "(if close_abort s2 then do {
      s \<leftarrow> stream_request_cancels hk (s2\<lparr>in_close_cancel := in_close_cancel s2 + 1\<rparr>);
      Some (s\<lparr>in_close_cancel := in_close_cancel s - 1\<rparr>) } else Some s2) = Some s3"
    and i3: "stream_inv s3" and k3: "keeps s2 s3" by (auto simp: runs_void_def)
  have k: "keeps s s3" by (rule keeps_trans [OF k0 keeps_trans [OF k2 k3]])
  then have "close_inited s3" using c(1) by (simp add: keeps_def)
  then have "on_retire s3" using i3 by (simp add: stream_inv_def close_inv_def)
  then have "notify_retire hk s3 = stream_close_finalize hk s3" by (simp add: notify_retire_def stream_on_retire_def)
  note nf = this
  have cs: "(close_state s = KL_STREAM_STATE_CLOSED) = False" "(\<not> close_inited s) = False" using c by simp_all
  have "stream_close_common hk abort s = do { s' \<leftarrow> notify_retire hk s3; Some (0, s') }"
    unfolding stream_close_common_def cs if_False Let_def s0_def [symmetric] s1_def [symmetric] s2
      bind.bind_lunit s3 nf ..
  with notifiesI [OF i3 k] show ?thesis by simp
qed

lemma close_common_runs:
  assumes hk: "good_hooks n hk" and s: "ready n s"
  shows "runs s (stream_close_common hk abort s)"
proof (cases "close_inited s \<and> close_state s \<noteq> KL_STREAM_STATE_CLOSED")
  case False
  with s show ?thesis by (auto simp: stream_close_common_def ready_def intro: runs_ret)
next
  case True
  then show ?thesis by (intro notifies_runs [OF hk s] close_common_notifies [OF hk s]) simp_all
qed

lemma arm_loop_runs:
  assumes hk: "good_hooks n hk" and s: "ready n s" and m: "script_len s < m"
    and p: "read_inited s" "\<not> arming s"
  shows "runs s (stream_arm_loop m hk s)"
  using s m p
proof (induction m arbitrary: s)
  case 0
  then show ?case by simp
next
  case (Suc m)
  show ?case
  proof (cases "read_closed s \<or> read_paused s \<or> recv_inflight s \<or> recv_held s")
    case True
    with Suc.prems show ?thesis by (simp add: ready_def runs_ret)
  next
    case False
    let ?s1 = "s\<lparr>recv_inflight := True, recv_cancel_requested := False, completed_inline := False,
                  rearm_pending := False, arming := True\<rparr>"
    let ?log = "?s1\<lparr>trace := (Read_arm, active ?s1, kl_stream.truncate ?s1) # trace ?s1\<rparr>"
    from Suc.prems False have op: "close_state s = KL_STREAM_STATE_OPEN" "On_close \<notin> hooks_of (trace s)"
      by (auto simp: ready_def stream_inv_def close_inv_def)
    have "stream_inv (log_hook Read_arm ?s1)"
      using Suc.prems False op by (auto simp: ready_def inv_defs log_hook_def)
    then have "hook_pre Read_arm ?s1" using Suc.prems
      by (simp add: hook_pre_def ready_def frames_inv_def log_hook_def)
    then obtain r s2 where s2: "hk Read_arm ?s1 = Some (r, s2)" "stream_inv s2" "keeps ?s1 s2"
      and d: "script_len s2 < script_len ?s1 \<or> s2 = ?log"
      by (rule hook_step [OF hk]) (use Suc.prems(1) in \<open>simp_all add: ready_def\<close>)
    let ?s3 = "s2\<lparr>arming := False\<rparr>"
    have i3: "stream_inv ?s3" using s2(2) by (simp add: inv_defs)
    have k3: "keeps s ?s3" using s2(3) Suc.prems(4) op by (auto simp: keeps_def)
    have i4: "stream_inv (?s3\<lparr>recv_inflight := False, read_closed := True\<rparr>)"
      using i3 by (simp add: inv_defs)
    have k4: "keeps s (?s3\<lparr>recv_inflight := False, read_closed := True\<rparr>)" using k3 by (simp add: keeps_def)
    have rec: "runs s (stream_arm_loop m hk ?s3)" if "completed_inline s2"
    proof -
      from d that have l: "script_len s2 < script_len s" by auto
      have "runs ?s3 (stream_arm_loop m hk ?s3)"
        using l k3 Suc.prems by (intro Suc.IH ready_keeps [OF Suc.prems(1) i3 k3]) (simp_all add: keeps_def)
      then show ?thesis using k3 by (rule runs_weaken)
    qed
    show ?thesis using False s2(1) rec i3 k3 i4 k4 by (auto simp: Let_def intro: runs_ret)
  qed
qed

section \<open>The read side\<close>

lemma arm_runs:
  assumes hk: "good_hooks n hk" and s: "ready n s" and p: "read_inited s"
  shows "runs s (stream_arm n hk s)"
proof (cases "arming s")
  case True
  have "stream_inv (s\<lparr>rearm_pending := True\<rparr>)" using s by (simp add: ready_def inv_defs)
  moreover have "keeps s (s\<lparr>rearm_pending := True\<rparr>)" by (simp add: keeps_def)
  ultimately show ?thesis using True by (simp add: stream_arm_def runs_ret)
next
  case False
  with arm_loop_runs [OF hk s _ p] s show ?thesis by (simp add: stream_arm_def ready_def)
qed

abbreviation deliver_state :: "bool \<Rightarrow> world \<Rightarrow> world" where
  "deliver_state ok s \<equiv> if \<not> ok then s\<lparr>read_closed := True\<rparr> else s"

lemma deliver_pre:
  assumes s: "ready n s" and p: "read_inited s" "\<not> read_closed s" "\<not> read_paused s"
    and l: "len \<le> read_cap s"
  shows "hook_pre (Read_deliver (if \<not> ok then 0 else len) ok) (deliver_state ok s)"
proof -
  let ?h = "Read_deliver (if \<not> ok then 0 else len) ok"
  from s p have op: "close_state s = KL_STREAM_STATE_OPEN" "On_close \<notin> hooks_of (trace s)"
    "\<forall>h \<in> hooks_of (trace s). \<not> is_terminal h"
    by (auto simp: ready_def stream_inv_def close_inv_def read_inv_def)
  have "stream_inv (deliver_state ok s)" using s op by (auto simp: ready_def inv_defs)
  then have "stream_inv (log_hook ?h (deliver_state ok s))"
    by (rule log_hook_keeps_inv) (use op p l in auto)
  moreover have "frames_inv (log_hook ?h (deliver_state ok s))"
    using s by (simp add: ready_def frames_inv_def log_hook_def)
  ultimately show ?thesis by (simp add: hook_pre_def)
qed

lemma deliver_steps:
  assumes hk: "good_hooks n hk" and s: "ready n s" and p: "read_inited s" "\<not> read_closed s" "\<not> read_paused s"
    and l: "len \<le> read_cap s"
  shows "\<exists>r s2. stream_deliver_and_continue n hk len ok s = Some (r, s2) \<and> stream_inv s2 \<and> keeps s s2 \<and>
     (\<exists>evs. trace s2 = evs @ (Read_deliver (if \<not> ok then 0 else len) ok, active s,
        kl_stream.truncate (deliver_state ok s)) # trace s)"
proof -
  let ?h = "Read_deliver (if \<not> ok then 0 else len) ok"
  let ?s1 = "deliver_state ok s"
  have k1: "keeps s ?s1" by (simp add: keeps_def)
  from deliver_pre [OF s p l, of ok] obtain r s' where h: "hk ?h ?s1 = Some (r, s')" and post: "hook_post ?h ?s1 r s'"
    by (rule hooks_okD [OF hk]) (use s in \<open>simp add: ready_def\<close>)
  from post have i': "stream_inv s'" and k': "keeps s s'" using keeps_trans [OF k1] by (auto simp: hook_post_def)
  from post have "\<exists>evs. trace s' = evs @ (?h, active ?s1, kl_stream.truncate ?s1) # trace ?s1" by (simp add: hook_post_def)
  then obtain evs where t: "trace s' = evs @ (?h, active s, kl_stream.truncate ?s1) # trace s" by auto
  have "read_inited s'" using k' p(1) by (simp add: keeps_def)
  from arm_runs [OF hk ready_keeps [OF s i' k'] this]
  obtain r2 s2 where a: "stream_arm n hk s' = Some (r2, s2)" "stream_inv s2" "keeps s' s2" by (auto simp: runs_def)
  from a(3) have "\<exists>evs. trace s2 = evs @ trace s'" by (simp add: keeps_def)
  then obtain evs2 where "trace s2 = (evs2 @ evs) @ (?h, active s, kl_stream.truncate ?s1) # trace s" using t by auto
  with a i' k' t keeps_trans [OF k' a(3)] h show ?thesis
    by (auto simp: stream_deliver_and_continue_def Let_def)
qed

lemma deliver_runs:
  assumes "good_hooks n hk" and "ready n s" and "read_inited s" "\<not> read_closed s" "\<not> read_paused s"
    and "len \<le> read_cap s"
  shows "runs s (stream_deliver_and_continue n hk len ok s)"
  using deliver_steps [OF assms, of ok] by (auto simp: runs_def)

lemma read_start_runs:
  assumes hk: "good_hooks n hk" and s: "ready n s"
  shows "runs s (kl_stream_read_start n hk s)"
  using arm_runs [OF hk s] s by (auto simp: kl_stream_read_start_def ready_def intro: runs_ret)

lemma on_recv_notifies:
  assumes hk: "good_hooks n hk" and s: "ready n s" and p: "read_inited s" "recv_inflight s"
  shows "notifies n hk s (kl_stream_on_recv n hk len ok s) \<or>
    (\<exists>r s'. kl_stream_on_recv n hk len ok s = Some (r, s') \<and> stream_inv s' \<and> keeps s s' \<and> recv_inflight s')"
proof -
  define s1 where "s1 = (if arming s then s\<lparr>recv_inflight := False, completed_inline := True\<rparr> else s\<lparr>recv_inflight := False\<rparr>)"
  define len' where "len' = (if \<not> ok then 0 else len)"
  have i1: "stream_inv s1" using s by (simp add: s1_def ready_def inv_defs)
  have k1: "keeps s s1" by (simp add: s1_def keeps_def)
  have f1: "read_inited s1" using p by (simp add: s1_def)
  have i2: "stream_inv (s1\<lparr>read_closed := True\<rparr>)" using i1 by (simp add: inv_defs)
  have i3: "stream_inv (s1\<lparr>recv_held := True, held_len := len', held_ok := ok\<rparr>)"
    if "\<not> (ok \<and> len > read_cap s1)"
  proof -
    have "len' \<le> read_cap s1" "\<not> ok \<longrightarrow> len' = 0" using that by (auto simp: len'_def)
    with i1 f1 show ?thesis by (simp add: inv_defs)
  qed
  have k2: "keeps s (s1\<lparr>read_closed := True\<rparr>)"
    and k3: "keeps s (s1\<lparr>recv_held := True, held_len := len', held_ok := ok\<rparr>)"
    using k1 by (simp_all add: keeps_def)
  have "kl_stream_on_recv n hk len ok s =
     (if read_closed s1 then do { s \<leftarrow> notify_retire hk s1; Some (0, s) }
      else if ok \<and> len > read_cap s1 then do { s \<leftarrow> notify_retire hk (s1\<lparr>read_closed := True\<rparr>); Some (-1, s) }
      else if read_paused s1 then do {
            s \<leftarrow> notify_retire hk (s1\<lparr>recv_held := True, held_len := len', held_ok := ok\<rparr>);
            Some (0, s) }
      else do {
            (r, s) \<leftarrow> stream_deliver_and_continue n hk len' ok s1;
            s \<leftarrow> (if \<not> recv_inflight s then notify_retire hk s else Some s);
            Some (r, s) })"
    using p by (simp add: kl_stream_on_recv_def Let_def s1_def len'_def)
  note eq = this
  consider "read_closed s1" | "\<not> read_closed s1" "ok \<and> len > read_cap s1"
    | "\<not> read_closed s1" "\<not> (ok \<and> len > read_cap s1)" "read_paused s1"
    | "\<not> read_closed s1" "\<not> (ok \<and> len > read_cap s1)" "\<not> read_paused s1" by blast
  then show ?thesis
  proof cases
    case 1
    with eq notifiesI [OF i1 k1] show ?thesis by simp
  next
    case 2
    with eq notifiesI [OF i2 k2] show ?thesis by simp
  next
    case 3
    with eq notifiesI [OF i3 k3] show ?thesis by simp
  next
    case 4
    from 4 f1 have "runs s1 (stream_deliver_and_continue n hk len' ok s1)"
      by (intro deliver_runs [OF hk ready_keeps [OF s i1 k1]]) (auto simp: len'_def)
    then obtain r s2 where d: "stream_deliver_and_continue n hk len' ok s1 = Some (r, s2)"
      and i: "stream_inv s2" and k: "keeps s1 s2" by (auto simp: runs_def)
    note k' = keeps_trans [OF k1 k]
    note eq = eq [unfolded if_not_P [OF 4(1)] if_not_P [OF 4(2)] if_not_P [OF 4(3)] d bind.bind_lunit prod.case]
    show ?thesis
    proof (cases "recv_inflight s2")
      case True
      with eq i k' show ?thesis by simp
    next
      case False
      with eq notifiesI [OF i k'] show ?thesis by simp
    qed
  qed
qed

lemma on_recv_runs:
  assumes hk: "good_hooks n hk" and s: "ready n s"
  shows "runs s (kl_stream_on_recv n hk len ok s)"
proof (cases "read_inited s \<and> recv_inflight s")
  case False
  with s show ?thesis by (auto simp: kl_stream_on_recv_def ready_def intro: runs_ret)
next
  case True
  with on_recv_notifies [OF hk s, of len ok] show ?thesis
    by (auto intro: notifies_runs [OF hk s] runs_ret)
qed

lemma pause_runs:
  assumes hk: "good_hooks n hk" and s: "ready n s"
  shows "runs_void s (kl_stream_pause hk s)"
proof (cases "read_inited s \<and> \<not> read_paused s")
  case False
  with s show ?thesis by (auto simp: kl_stream_pause_def ready_def intro: runs_void_ret)
next
  case True
  let ?s1 = "s\<lparr>read_paused := True\<rparr>"
  have i1: "stream_inv ?s1" using s by (simp add: ready_def inv_defs)
  have k1: "keeps s ?s1" by (simp add: keeps_def)
  show ?thesis
  proof (cases "\<not> read_completion_mode s \<and> recv_inflight s")
    case d: True
    have "hook_pre Read_disarm ?s1"
      unfolding hook_pre_def using log_hook_keeps_inv [OF i1, of Read_disarm] d s
      by (simp add: ready_def frames_inv_def log_hook_def)
    then have h: "runs ?s1 (hk Read_disarm ?s1)" by (rule hook_runs [OF hk]) (use s in \<open>simp add: ready_def\<close>)
    have "runs_void s (do { (r, s) \<leftarrow> hk Read_disarm ?s1; Some (s\<lparr>recv_inflight := False\<rparr>) })"
    proof (rule runs_void_bind [OF h k1], unfold prod.case, rule runs_void_ret)
      fix s' assume "stream_inv s'" "keeps s s'"
      then show "stream_inv (s'\<lparr>recv_inflight := False\<rparr>)" "keeps s (s'\<lparr>recv_inflight := False\<rparr>)"
        by (simp_all add: inv_defs keeps_def)
    qed
    with True d show ?thesis by (simp add: kl_stream_pause_def Let_def)
  next
    case False
    with True i1 k1 show ?thesis by (auto simp: kl_stream_pause_def Let_def intro: runs_void_ret)
  qed
qed

lemma resume_runs:
  assumes hk: "good_hooks n hk" and s: "ready n s"
  shows "runs s (kl_stream_resume n hk s)"
proof (cases "read_inited s \<and> read_paused s")
  case False
  with s show ?thesis by (auto simp: kl_stream_resume_def ready_def intro: runs_ret)
next
  case True
  let ?s1 = "s\<lparr>read_paused := False\<rparr>"
  let ?s2 = "?s1\<lparr>recv_held := False, held_len := 0, held_ok := False\<rparr>"
  have i1: "stream_inv ?s1" and i2: "stream_inv ?s2" using s by (simp_all add: ready_def inv_defs)
  have k1: "keeps s ?s1" and k2: "keeps s ?s2" by (simp_all add: keeps_def)
  have a: "runs s (stream_arm n hk ?s1)"
    by (rule runs_weaken [OF arm_runs [OF hk ready_keeps [OF s i1 k1]] k1]) (simp add: True)
  have d: "runs s (stream_deliver_and_continue n hk (held_len s) (held_ok s) ?s2)"
    if "\<not> read_closed s" "recv_held s"
  proof -
    have "held_len s \<le> read_cap s" using s that by (auto simp: ready_def stream_inv_def read_inv_def)
    then have "runs ?s2 (stream_deliver_and_continue n hk (held_len s) (held_ok s) ?s2)"
      using True that by (intro deliver_runs [OF hk ready_keeps [OF s i2 k2]]) simp_all
    then show ?thesis using k2 by (rule runs_weaken)
  qed
  show ?thesis using True i1 k1 a d by (auto simp: kl_stream_resume_def Let_def intro: runs_ret)
qed

section \<open>The write side\<close>

lemma edge_runs:
  assumes hk: "good_hooks n hk" and s: "ready n s"
  shows "runs_void s (stream_edge_and_fire hk s)"
proof (cases "stream_writable_edge s")
  case False
  with s show ?thesis by (simp add: stream_edge_and_fire_def ready_def runs_void_ret)
next
  case True
  let ?s1 = "s\<lparr>wr_blocked := False, in_writable := in_writable s + 1\<rparr>"
  have i1: "stream_inv ?s1" using s by (simp add: ready_def inv_defs)
  have "hook_pre On_writable ?s1"
    unfolding hook_pre_def
  proof
    show "stream_inv (log_hook On_writable ?s1)"
      by (rule log_hook_keeps_inv [OF i1]) (use True in \<open>auto simp: stream_writable_edge_def split: if_splits\<close>)
    show "frames_inv (log_hook On_writable ?s1)"
      using s by (simp add: ready_def frames_inv_def log_hook_def)
  qed
  then have "runs ?s1 (hk On_writable ?s1)" by (rule hook_runs [OF hk]) (use s in \<open>simp add: ready_def\<close>)
  then obtain r s2 where s2: "hk On_writable ?s1 = Some (r, s2)" "stream_inv s2" "keeps ?s1 s2" by (auto simp: runs_def)
  have "stream_inv (s2\<lparr>in_writable := in_writable s2 - 1\<rparr>)" using s2(2) by (simp add: inv_defs)
  moreover have "keeps s (s2\<lparr>in_writable := in_writable s2 - 1\<rparr>)" using s2(3) by (simp add: keeps_def)
  ultimately show ?thesis using True s2(1)
    by (simp add: stream_edge_and_fire_def stream_fire_writable_def runs_void_ret)
qed

lemma wq_consume_wq:
  assumes "drain_plain (wq s)"
  shows "drain_plain (wq (wq_consume n s))" and "drain_stream (wq (wq_consume n s)) = drain_stream (wq s)"
    and "dbuf (wq (wq_consume n s)) = drop n (dbuf (wq s))" and "max_size (wq (wq_consume n s)) = max_size (wq s)"
proof -
  obtain d e where c: "kl_drain_consume (wq_hooks True) n (wq s) (wres s) = (d, e)" by fastforce
  have m: "drain_moved (min n (length (dbuf (wq s)))) (wq s) d"
    using assms by (intro kl_drain_consume_no_cb [OF _ _ c]) (simp_all add: drain_plain_def)
  show "drain_plain (wq (wq_consume n s))" "drain_stream (wq (wq_consume n s)) = drain_stream (wq s)"
    "dbuf (wq (wq_consume n s)) = drop n (dbuf (wq s))" "max_size (wq (wq_consume n s)) = max_size (wq s)"
    using drain_moved_keeps [OF m] assms c by (simp_all add: wq_consume_def drain_plain_def min_def)
qed

text \<open>Replacing the queue of an open stream by one that has the same accepted bytes.\<close>

lemma wq_update_inv:
  assumes "stream_inv s" and "close_state s \<noteq> KL_STREAM_STATE_CLOSED" and "drain_plain d"
    and "drain_stream d = accepted s"
    and "send_inflight s \<Longrightarrow> submitting s \<or> \<not> inflight_copying s \<Longrightarrow> inflight_len s \<le> length (dbuf d)"
  shows "stream_inv (s\<lparr>wq := d\<rparr>)"
  using assms by (simp add: inv_defs)

lemma not_closed_inflight:
  "stream_inv s \<Longrightarrow> send_inflight s \<Longrightarrow> close_state s \<noteq> KL_STREAM_STATE_CLOSED"
  by (auto simp: stream_inv_def close_inv_def)

lemma send_retired_inv:
  assumes i: "stream_inv s" and f: "send_inflight s" "\<not> submitting s"
  shows "stream_inv (stream_send_retired s)" and "keeps s (stream_send_retired s)"
proof -
  have nc: "close_state s \<noteq> KL_STREAM_STATE_CLOSED" using not_closed_inflight [OF i f(1)] .
  have w: "drain_plain (wq s)" "drain_stream (wq s) = accepted s" using i f by (auto simp: stream_inv_def write_inv_def)
  let ?s0 = "s\<lparr>send_inflight := False, inflight_len := 0\<rparr>"
  have i0: "stream_inv ?s0" using i f nc by (simp add: inv_defs)
  have "stream_inv (?s0\<lparr>wq := wq (wq_consume (inflight_len s) s)\<rparr>)"
    using wq_consume_wq [OF w(1)] w(2) nc by (intro wq_update_inv [OF i0]) simp_all
  moreover have "?s0\<lparr>wq := wq (wq_consume (inflight_len s) s)\<rparr> =
      (wq_consume (inflight_len s) s)\<lparr>send_inflight := False, inflight_len := 0\<rparr>"
    by (simp add: wq_consume_def)
  ultimately show "stream_inv (stream_send_retired s)" using i0 by (simp add: stream_send_retired_def)
  show "keeps s (stream_send_retired s)" using f by (simp add: stream_send_retired_def keeps_def wq_consume_def)
qed

lemma pump_runs:
  assumes hk: "good_hooks n hk" and s: "ready n s" and m: "script_len s < m"
    and p: "wq_inited s" "submit_fn s" "\<not> submitting s"
  shows "runs s (stream_pump_completion m hk s)"
  using s m p
proof (induction m arbitrary: s)
  case 0
  then show ?case by simp
next
  case (Suc m)
  let ?len = "kl_drain_buffered (wq s)"
  show ?case
  proof (cases "wq_err s \<or> close_abort s \<or> send_inflight s \<or> ?len = 0")
    case True
    with Suc.prems show ?thesis by (auto simp: ready_def runs_ret)
  next
    case False
    from Suc.prems have inv: "stream_inv s" by (simp add: ready_def)
    have nc: "close_state s \<noteq> KL_STREAM_STATE_CLOSED"
    proof
      assume "close_state s = KL_STREAM_STATE_CLOSED"
      with inv False have "kl_stream_write_pending s = 0" by (simp add: stream_inv_def close_inv_def)
      with Suc.prems False show False by (simp add: kl_stream_write_pending_def Let_def)
    qed
    then have nt: "On_close \<notin> hooks_of (trace s)" using inv by (simp add: stream_inv_def close_inv_def)
    let ?s1 = "s\<lparr>send_inflight := True, send_cancel_requested := False, inflight_len := ?len,
               inflight_copying := submit_copying s, inline_done := False, submitting := True\<rparr>"
    let ?h = "Submit_fn (dbuf (wq s))"
    have i1: "stream_inv (log_hook ?h ?s1)"
      using inv False Suc.prems nc nt by (simp add: inv_defs log_hook_def kl_drain_buffered_def)
    have "hook_pre ?h ?s1" using i1 Suc.prems(1) by (simp add: hook_pre_def ready_def frames_inv_def log_hook_def)
    then obtain r s2 where s2: "hk ?h ?s1 = Some (r, s2)" "stream_inv s2" "keeps ?s1 s2"
      and d: "script_len s2 < script_len ?s1 \<or> s2 = ?s1\<lparr>trace := (?h, active ?s1, kl_stream.truncate ?s1) # trace ?s1\<rparr>"
      by (rule hook_step [OF hk]) (use Suc.prems(1) in \<open>simp_all add: ready_def\<close>)
    have f2: "send_inflight s2" "submitting s2" "inflight_len s2 = ?len" using s2(3) by (simp_all add: keeps_def)
    have nc2: "close_state s2 \<noteq> KL_STREAM_STATE_CLOSED" using not_closed_inflight [OF s2(2) f2(1)] .
    have w2: "drain_plain (wq s2)" "drain_stream (wq s2) = accepted s2" "wq_inited s2" "submit_fn s2"
      "?len \<le> length (dbuf (wq s2))"
      using s2(2) f2 by (auto simp: stream_inv_def write_inv_def)
    let ?s3 = "s2\<lparr>submitting := False\<rparr>"
    have i3: "stream_inv ?s3" using s2(2) f2 by (simp add: inv_defs)
    have k3: "keeps s ?s3" using s2(3) Suc.prems(5) by (simp add: keeps_def)
    define s4 where "s4 = (if inflight_copying s2 then wq_consume ?len ?s3 else ?s3)"
    have i4: "stream_inv s4"
    proof (cases "inflight_copying s2")
      case True
      have "stream_inv (?s3\<lparr>wq := wq (wq_consume ?len ?s3)\<rparr>)"
        using wq_consume_wq [of ?s3 ?len] w2 nc2 True by (intro wq_update_inv [OF i3]) simp_all
      then show ?thesis using True by (simp add: s4_def wq_consume_def)
    qed (simp add: s4_def i3)
    have k4: "keeps s s4" using k3 by (simp add: s4_def wq_consume_def keeps_def)
    have f4: "send_inflight s4" "\<not> submitting s4" "inline_done s4 = inline_done s2" "inline_ok s4 = inline_ok s2"
      "wq_inited s4" "submit_fn s4" "close_state s4 = close_state s2" "script s4 = script s2"
      using f2 w2 by (simp_all add: s4_def wq_consume_def)
    have fail: "stream_inv (s'\<lparr>send_inflight := False, inflight_len := 0, wq_err := True\<rparr>)" if "stream_inv s'" "\<not> submitting s'" for s'
      using that by (simp add: inv_defs)
    let ?s5 = "s4\<lparr>inline_done := False\<rparr>"
    have i5: "stream_inv ?s5" using i4 by (simp add: inv_defs)
    have k5: "keeps s ?s5" using k4 by (simp add: keeps_def)
    let ?s6 = "stream_send_retired ?s5"
    have rec: "runs s (stream_pump_completion m hk ?s6)" if "inline_done s2"
    proof -
      have l: "script_len s2 < script_len s" using d that by auto
      note r6 = send_retired_inv [OF i5]
      have i6: "stream_inv ?s6" and k6: "keeps s ?s6"
        using r6 f4 keeps_trans [OF k5] by simp_all
      have "runs ?s6 (stream_pump_completion m hk ?s6)"
        using l Suc.prems(2) f4
        by (intro Suc.IH ready_keeps [OF Suc.prems(1) i6 k6]) (simp_all add: stream_send_retired_def wq_consume_def)
      then show ?thesis using k6 by (rule runs_weaken)
    qed
    have e1: "runs s (Some (-1 :: int, ?s3\<lparr>send_inflight := False, inflight_len := 0, inline_done := False, wq_err := True\<rparr>))"
      using fail [OF i3] k3 by (intro runs_ret) (simp_all add: inv_defs keeps_def)
    have e2: "runs s (Some (-1 :: int, ?s5\<lparr>send_inflight := False, inflight_len := 0, wq_err := True\<rparr>))"
      using fail [OF i5] f4 k5 Suc.prems(5) by (intro runs_ret) (simp_all add: keeps_def)
    have "stream_pump_completion (Suc m) hk s =
       (if r \<noteq> 0 then Some (-1, ?s3\<lparr>send_inflight := False, inflight_len := 0, inline_done := False, wq_err := True\<rparr>)
        else if \<not> inline_done s4 then Some (0, s4)
        else if \<not> inline_ok s4 then Some (-1, ?s5\<lparr>send_inflight := False, inflight_len := 0, wq_err := True\<rparr>)
        else stream_pump_completion m hk ?s6)"
      using False s2(1) by (simp add: Let_def s4_def)
    then show ?thesis using e1 e2 rec i4 k4 f4 by (simp add: runs_ret)
  qed
qed

lemma edge_notifies:
  assumes hk: "good_hooks n hk" and s: "ready n s" and i: "stream_inv s'" and k: "keeps s s'"
  shows "notifies n hk s (do { s \<leftarrow> stream_edge_and_fire hk s'; s \<leftarrow> notify_retire hk s; Some (r, s) })"
  by (rule notifies_bind_void [OF edge_runs [OF hk ready_keeps [OF s i k]] k]) (erule (1) notifiesI)

lemma on_write_complete_notifies:
  assumes hk: "good_hooks n hk" and s: "ready n s" and p: "wq_inited s" "send_inflight s" "\<not> submitting s"
  shows "notifies n hk s (kl_stream_on_write_complete n hk ok s)"
proof (cases ok)
  case False
  have i: "stream_inv s" using s by (simp add: ready_def)
  let ?s1 = "s\<lparr>send_inflight := False, inflight_len := 0, wq_err := True\<rparr>"
  have "stream_inv ?s1" "keeps s ?s1" using i p by (simp_all add: inv_defs keeps_def)
  from edge_notifies [OF hk s this] False p show ?thesis by (simp add: kl_stream_on_write_complete_def)
next
  case True
  have i: "stream_inv s" using s by (simp add: ready_def)
  let ?s1 = "stream_send_retired s"
  have i1: "stream_inv ?s1" and k1: "keeps s ?s1" using send_retired_inv [OF i] p by simp_all
  have f: "wq_inited ?s1" "submit_fn ?s1" "\<not> submitting ?s1" "script_len ?s1 < n"
    using p s i by (auto simp: stream_send_retired_def wq_consume_def ready_def stream_inv_def write_inv_def)
  have "notifies n hk s (do {
      (r, s) \<leftarrow> stream_pump_completion n hk ?s1;
      s \<leftarrow> stream_edge_and_fire hk s; s \<leftarrow> notify_retire hk s; Some (r, s) })"
    by (rule notifies_bind [OF pump_runs [OF hk ready_keeps [OF s i1 k1] f(4,1,2,3)] k1], unfold prod.case,
        erule (1) edge_notifies [OF hk s])
  with p True show ?thesis by (simp add: kl_stream_on_write_complete_def)
qed

lemma on_write_complete_runs:
  assumes hk: "good_hooks n hk" and s: "ready n s"
  shows "runs s (kl_stream_on_write_complete n hk ok s)"
proof -
  have i: "stream_inv s" using s by (simp add: ready_def)
  consider "\<not> (wq_inited s \<and> send_inflight s)" | "wq_inited s" "send_inflight s" "submitting s"
    | "wq_inited s" "send_inflight s" "\<not> submitting s" by blast
  then show ?thesis
  proof cases
    case 1
    with i show ?thesis by (auto simp: kl_stream_on_write_complete_def intro: runs_ret)
  next
    case 2
    have "stream_inv (s\<lparr>inline_done := True, inline_ok := ok\<rparr>)" using i by (simp add: inv_defs)
    moreover have "keeps s (s\<lparr>inline_done := True, inline_ok := ok\<rparr>)" by (simp add: keeps_def)
    ultimately show ?thesis using 2 by (simp add: kl_stream_on_write_complete_def runs_ret)
  next
    case 3
    then show ?thesis by (rule notifies_runs [OF hk s on_write_complete_notifies [OF hk s]])
  qed
qed

lemma write_open:
  "stream_inv s \<Longrightarrow> \<not> wq_closing s \<Longrightarrow> close_state s = KL_STREAM_STATE_OPEN"
  by (auto simp: stream_inv_def close_inv_def)

lemma write_runs:
  assumes hk: "good_hooks n hk" and s: "ready n s"
  shows "runs s (kl_stream_write n hk data s)"
proof (cases "\<not> wq_inited s \<or> wq_err s \<or> wq_closing s \<or> (\<not> submit_fn s \<and> \<not> wq_write_fn s) \<or> data = []")
  case True
  with s show ?thesis by (auto simp: kl_stream_write_def ready_def intro: runs_ret)
next
  case False
  have i: "stream_inv s" using s by (simp add: ready_def)
  with False have nc: "close_state s = KL_STREAM_STATE_OPEN" by (auto intro: write_open)
  have w: "drain_plain (wq s)" "drain_stream (wq s) = accepted s"
    using i False by (auto simp: stream_inv_def write_inv_def)
  have sm: "submitting s \<Longrightarrow> send_inflight s" and il: "send_inflight s \<Longrightarrow> submitting s \<or> \<not> inflight_copying s \<Longrightarrow>
      inflight_len s \<le> length (dbuf (wq s))"
    using i by (auto simp: stream_inv_def write_inv_def)
  show ?thesis
  proof (cases "submit_fn s")
    case True
    obtain ds d where rb: "kl_drain_reserve_buffer data (wq s) = (ds, d)" by fastforce
    have ok: "drain_ok (wq s)" "\<not> on_drain (wq s)" "\<not> dr_on_writable (wq s)" using w(1) by (simp_all add: drain_plain_def)
    from kl_drain_reserve_buffer_spec [OF rb ok(1)] ok
    have d: "drain_plain d" "drain_stream d = drain_stream (wq s) @ (if ds = KL_DRAIN_ACCEPTED then data else [])"
      by (simp_all add: drain_plain_def)
    have len: "length (dbuf (wq s)) \<le> length (dbuf d)"
      using rb by (auto simp: kl_drain_reserve_buffer_def drain_append_def split: if_splits)
    have il': "send_inflight s \<and> (submitting s \<or> \<not> inflight_copying s) \<longrightarrow> inflight_len s \<le> length (dbuf d)"
      using il len by force
    have i1: "stream_inv (s\<lparr>wq := d, accepted := drain_stream d\<rparr>)"
      using i d nc il' False by (simp add: inv_defs)
    have k: "keeps s (s\<lparr>wq := d, wr_blocked := b, accepted := a\<rparr>)" for b a by (simp add: keeps_def)
    show ?thesis
    proof (cases "ds = KL_DRAIN_ACCEPTED")
      case False
      with d w have a: "drain_stream d = accepted s" by simp
      have "stream_inv (s\<lparr>wq := d, wr_blocked := True\<rparr>)" "stream_inv (s\<lparr>wq := d\<rparr>)"
        using i1 a by (simp_all add: inv_defs)
      moreover have "keeps s (s\<lparr>wq := d, wr_blocked := True\<rparr>)" "keeps s (s\<lparr>wq := d\<rparr>)" by (simp_all add: keeps_def)
      ultimately show ?thesis using False True rb \<open>\<not> (_ \<or> _)\<close>
        by (simp add: kl_stream_write_def Let_def runs_ret)
    next
      case acc: True
      let ?s1 = "s\<lparr>wq := d, wr_blocked := False, accepted := accepted s @ data\<rparr>"
      have i2: "stream_inv ?s1" using i1 d(2) w(2) acc by (simp add: inv_defs)
      have "runs s (do { (r, s) \<leftarrow> stream_pump_completion n hk ?s1;
               Some (if r < 0 then KL_STREAM_ERROR else KL_STREAM_ACCEPTED, s) })"
      proof (cases "submitting s")
        case sub: True
        with sm have si: "send_inflight ?s1" by simp
        obtain m where n: "n = Suc m" using s by (cases n) (simp_all add: ready_def)
        show ?thesis using si False i2 k by (auto simp: n intro!: runs_ret)
      next
        case False
        then have f: "script_len ?s1 < n" "wq_inited ?s1" "submit_fn ?s1" "\<not> submitting ?s1"
          using s True \<open>\<not> (_ \<or> _)\<close> by (simp_all add: ready_def)
        show ?thesis
          by (rule runs_bind [OF pump_runs [OF hk ready_keeps [OF s i2 k] f] k], unfold prod.case, erule (1) runs_ret)
      qed
      then show ?thesis using acc True rb False by (simp add: kl_stream_write_def Let_def)
    qed
  next
    case sf: False
    obtain ds d ws where rb: "kl_drain_reserve_write (wq_hooks True) data (wq s) (wres s) = (ds, d, ws)"
      by (metis prod_cases3)
    have ok: "drain_ok (wq s)" "\<not> on_drain (wq s)" "\<not> dr_on_writable (wq s)" using w(1) by (simp_all add: drain_plain_def)
    from kl_drain_reserve_write_spec [OF rb ok(1)] ok
    have d: "drain_plain d" "drain_stream d = drain_stream (wq s) @ (if ds = KL_DRAIN_ACCEPTED then data else [])"
      by (simp_all add: drain_plain_def)
    have ns: "\<not> send_inflight s" using i sf by (auto simp: stream_inv_def write_inv_def)
    have j: "stream_inv (s\<lparr>wq := d, wres := ws, wq_err := e, wr_blocked := b, accepted := drain_stream d\<rparr>)" for e b
      using i d nc ns by (simp add: inv_defs)
    have kk: "keeps s (s\<lparr>wq := d, wres := ws, wq_err := e, wr_blocked := b, accepted := a\<rparr>)" for e b a
      by (simp add: keeps_def)
    have "kl_stream_write n hk data s = Some (map_drain ds, s\<lparr>wq := d, wres := ws,
        wq_err := (wq_err s \<or> ds = KL_DRAIN_WERROR),
        wr_blocked := (if ds = KL_DRAIN_WOULD_BLOCK then True else if ds = KL_DRAIN_ACCEPTED then False else wr_blocked s),
        accepted := drain_stream d\<rparr>)"
      using sf rb False d(2) w(2) by (cases ds) (simp_all add: kl_stream_write_def Let_def)
    then show ?thesis using j kk by (simp add: runs_ret)
  qed
qed

lemma flush_notifies:
  assumes hk: "good_hooks n hk" and s: "ready n s"
    and p: "wq_inited s" "\<not> wq_err s" "\<not> submit_fn s" "wq_write_fn s"
  shows "notifies n hk s (kl_stream_flush hk s) \<or>
    (\<exists>d ws. kl_stream_flush hk s = Some (1, s\<lparr>wq := d, wres := ws\<rparr>) \<and> dbuf d \<noteq> [] \<and>
       stream_inv (s\<lparr>wq := d, wres := ws\<rparr>))"
proof -
  have i: "stream_inv s" using s by (simp add: ready_def)
  have w: "drain_plain (wq s)" "drain_stream (wq s) = accepted s" "\<not> send_inflight s"
    using i p by (auto simp: stream_inv_def write_inv_def)
  obtain r d ws where fl: "kl_drain_flush (wq_hooks True) (wq s) (wres s) = (r, d, ws)" by (metis prod_cases3)
  from kl_drain_flush_no_cb [OF _ _ fl] w(1) obtain k where m: "drain_moved k (wq s) d" by (auto simp: drain_plain_def)
  have d: "drain_plain d" "drain_stream d = accepted s" "length (dbuf d) \<le> length (dbuf (wq s))"
    using drain_moved_keeps [OF m] w by (simp_all add: drain_plain_def)
  have i1: "stream_inv (s\<lparr>wq := d, wres := ws, wq_err := e\<rparr>)" for e
  proof -
    have "kl_stream_write_pending s = 0 \<Longrightarrow> kl_stream_write_pending (s\<lparr>wq := d, wres := ws, wq_err := e\<rparr>) = 0"
      using d(3) w(3) by (auto simp: kl_stream_write_pending_def Let_def kl_drain_buffered_def split: if_splits)
    with i p have "close_state s = KL_STREAM_STATE_CLOSED \<longrightarrow>
        close_abort s \<or> e \<or> kl_stream_write_pending (s\<lparr>wq := d, wres := ws, wq_err := e\<rparr>) = 0"
      by (auto simp: stream_inv_def close_inv_def)
    with i d w p show ?thesis by (simp add: inv_defs del: pending_indep)
  qed
  have k1: "keeps s (s\<lparr>wq := d, wres := ws, wq_err := e\<rparr>)" for e by (simp add: keeps_def)
  let ?s1 = "s\<lparr>wq := d, wres := ws, wq_err := (wq_err s \<or> r < 0)\<rparr>"
  let ?f = "stream_writable_edge ?s1"
  have s1: "?s1 = (if r < 0 then s\<lparr>wq := d, wres := ws, wq_err := True\<rparr> else s\<lparr>wq := d, wres := ws\<rparr>)"
    using p by simp
  have eq: "kl_stream_flush hk s = do {
       s \<leftarrow> stream_edge_and_fire hk ?s1;
       let r = (if ?f \<and> r = 0 \<and> kl_drain_buffered (wq s) > 0 then 1 else r);
       s \<leftarrow> (if r \<noteq> 1 \<or> ?f then notify_retire hk s else Some s);
       Some (r, s) }"
    unfolding s1 using p fl by (cases "r < 0") (simp_all add: kl_stream_flush_def Let_def)
  show ?thesis
  proof (cases "r \<noteq> 1 \<or> ?f")
    case True
    have "notifies n hk s (kl_stream_flush hk s)"
      unfolding eq
    proof (rule notifies_bind_void [OF edge_runs [OF hk ready_keeps [OF s i1 k1]] k1])
      fix s2 assume a: "stream_inv s2" "keeps s s2"
      let ?r = "if ?f \<and> r = 0 \<and> kl_drain_buffered (wq s2) > 0 then 1 else r"
      from True have c: "?r \<noteq> 1 \<or> ?f" by auto
      show "notifies n hk s (let r = ?r in
          do { s \<leftarrow> (if r \<noteq> 1 \<or> ?f then notify_retire hk s2 else Some s2); Some (r, s) })"
        unfolding Let_def if_P [OF c] by (rule notifiesI [OF a])
    qed
    then show ?thesis ..
  next
    case False
    then have "kl_stream_flush hk s = Some (1, s\<lparr>wq := d, wres := ws\<rparr>)"
      using eq p by (simp add: stream_edge_and_fire_def)
    moreover have "dbuf d \<noteq> []" using fl False w(1)
      by (auto simp: kl_drain_flush_def drain_plain_def drain_notify_def drain_crossed_low_water_def wq_hooks_def Let_def
          split: if_splits prod.splits)
    moreover have "stream_inv (s\<lparr>wq := d, wres := ws\<rparr>)" using i1 [of "wq_err s"] by simp
    ultimately show ?thesis by blast
  qed
qed

lemma flush_runs:
  assumes hk: "good_hooks n hk" and s: "ready n s"
  shows "runs s (kl_stream_flush hk s)"
proof (cases "wq_inited s \<and> \<not> wq_err s \<and> \<not> submit_fn s \<and> wq_write_fn s")
  case False
  with s show ?thesis by (auto simp: kl_stream_flush_def ready_def intro: runs_ret)
next
  case True
  have "keeps s (s\<lparr>wq := d, wres := ws\<rparr>)" for d ws by (simp add: keeps_def)
  note k = this
  from True flush_notifies [OF hk s] have "notifies n hk s (kl_stream_flush hk s) \<or>
    (\<exists>d ws. kl_stream_flush hk s = Some (1, s\<lparr>wq := d, wres := ws\<rparr>) \<and> stream_inv (s\<lparr>wq := d, wres := ws\<rparr>))" by blast
  then show ?thesis
  proof (elim disjE exE conjE)
    show "notifies n hk s (kl_stream_flush hk s) \<Longrightarrow> ?thesis" by (rule notifies_runs [OF hk s])
    fix d ws assume e: "kl_stream_flush hk s = Some (1, s\<lparr>wq := d, wres := ws\<rparr>)"
      and i: "stream_inv (s\<lparr>wq := d, wres := ws\<rparr>)"
    show ?thesis unfolding e by (rule runs_ret [OF i k])
  qed
qed

section \<open>The reentrant system\<close>

lemma runs_simple:
  assumes "stream_inv (snd p)" and "keeps s (snd p)"
  shows "runs s (Some p)"
  using assms by (cases p) (simp add: runs_ret)

lemma write_free_inv:
  assumes "stream_inv s"
  shows "stream_inv (snd (kl_stream_write_free s))"
proof (cases "send_inflight s")
  case True
  then show ?thesis using assms by (simp add: kl_stream_write_free_def)
next
  case False
  then have "snd (kl_stream_write_free s) = s\<lparr>wq := kl_drain_free (wq s), wq_inited := False, inflight_len := 0,
      wq_err := False, wr_blocked := False, on_writable := False\<rparr>"
    by (simp add: kl_stream_write_free_def)
  moreover have "kl_stream_write_pending (s\<lparr>wq := kl_drain_free (wq s), wq_inited := False, inflight_len := 0,
      wq_err := False, wr_blocked := False, on_writable := False\<rparr>) = 0"
    by (simp add: kl_stream_write_pending_def)
  ultimately show ?thesis using assms False by (simp add: inv_defs)
qed

lemma config_inv:
  assumes "stream_inv s"
  shows "stream_inv (snd (kl_stream_on_writable fn s))" and "stream_inv (snd (kl_stream_set_writer fn s))"
    and "stream_inv (snd (kl_stream_set_submit fn cp s))" and "stream_inv (snd (kl_stream_set_cancel cr cs s))"
proof -
  have "stream_inv (s\<lparr>on_writable := a, wr_blocked := b\<rparr>)" "stream_inv (s\<lparr>on_writable := a\<rparr>)"
    "stream_inv (s\<lparr>wq_write_fn := a\<rparr>)" "stream_inv (s\<lparr>cancel_recv := a, cancel_send := b\<rparr>)" for a b
    using assms by (simp_all add: inv_defs)
  moreover have "\<not> send_inflight s \<Longrightarrow> stream_inv (s\<lparr>submit_fn := a, submit_copying := b\<rparr>)" for a b
    using assms by (simp add: inv_defs)
  ultimately show "stream_inv (snd (kl_stream_on_writable fn s))" "stream_inv (snd (kl_stream_set_writer fn s))"
    "stream_inv (snd (kl_stream_set_submit fn cp s))" "stream_inv (snd (kl_stream_set_cancel cr cs s))"
    using assms
    by (simp_all add: kl_stream_on_writable_def kl_stream_set_writer_def kl_stream_set_submit_def
        kl_stream_set_cancel_def stream_config_locked_def)
qed

lemma config_keeps:
  "keeps s (snd (kl_stream_on_writable fn s))" "keeps s (snd (kl_stream_set_writer fn s))"
  "keeps s (snd (kl_stream_set_submit fn cp s))" "keeps s (snd (kl_stream_set_cancel cr cs s))"
  by (simp_all add: kl_stream_on_writable_def kl_stream_set_writer_def kl_stream_set_submit_def
      kl_stream_set_cancel_def keeps_def)

lemma write_free_keeps:
  "stream_inv s \<Longrightarrow> keeps s (snd (kl_stream_write_free s))"
  by (auto simp: kl_stream_write_free_def keeps_def stream_inv_def write_inv_def)

lemma stream_read_close_call_runs:
  assumes "good_hooks n hk" and "ready n s"
  shows "runs_void s (kl_stream_read_close hk s)"
proof (rule read_close_runs [OF assms(1)])
  show "frames_inv s" "script_len s < n" using assms(2) by (simp_all add: ready_def)
  show "stream_inv (if read_inited s \<and> \<not> read_closed s
      then s\<lparr>read_closed := True, recv_held := False, held_len := 0, held_ok := False\<rparr> else s)"
    using assms(2) by (simp add: ready_def inv_defs)
qed

lemma runs_of_void: "runs_void s m \<Longrightarrow> runs s (void m)"
  by (auto simp: runs_def runs_void_def void_def)

lemma runs_map_status: "runs s m \<Longrightarrow> runs s (map_option (\<lambda>(st, s). (0 :: int, s)) m)"
  by (auto simp: runs_def)

lemma stream_api_runs:
  assumes "good_hooks n hk" and "ready n s"
  shows "runs s (stream_api hk n c s)"
proof -
  have i: "stream_inv s" using assms(2) by (simp add: ready_def)
  show ?thesis
    by (cases c)
      (simp_all add: runs_map_status write_runs [OF assms] flush_runs [OF assms] on_write_complete_runs [OF assms]
        runs_simple config_inv [OF i] config_keeps write_free_inv [OF i] write_free_keeps [OF i]
        read_start_runs [OF assms] on_recv_runs [OF assms] runs_of_void pause_runs [OF assms] resume_runs [OF assms]
        stream_read_close_call_runs [OF assms] kl_stream_close_begin_def kl_stream_cancel_def close_common_runs [OF assms])
qed

definition stream_frame_inv :: "world \<Rightarrow> bool" where
  "stream_frame_inv s \<longleftrightarrow> stream_inv s \<and> frames_inv s"

lemma stream_frame_inv_script: "stream_frame_inv (s\<lparr>script := xs\<rparr>) = stream_frame_inv s"
  by (simp add: stream_frame_inv_def inv_defs frames_inv_def)

lemma keeps_leave:
  assumes "stream_enter h s = ((cs, r), s1)" and "keeps s1 s2"
  shows "keeps s (stream_leave h s2)"
    and "\<exists>evs. trace (stream_leave h s2) = evs @ (h, active s, kl_stream.truncate s) # trace s"
proof -
  obtain xs where s1: "s1 = (log_hook h s)\<lparr>script := xs\<rparr>" and xs: "length xs \<le> script_len s"
    using assms(1) by (cases "script s") (auto simp: stream_enter_def log_hook_def)
  have "\<exists>evs. trace s2 = evs @ trace s1" using assms(2) by (simp add: keeps_def)
  then obtain evs where "trace s2 = evs @ trace s1" ..
  then have "trace s2 = evs @ (h, active s, kl_stream.truncate s) # trace s" by (simp add: s1 log_hook_def)
  then show "\<exists>evs. trace (stream_leave h s2) = evs @ (h, active s, kl_stream.truncate s) # trace s"
    by (simp add: stream_leave_def)
  from \<open>trace s2 = evs @ (h, active s, kl_stream.truncate s) # trace s\<close>
  have "trace s2 = (evs @ [(h, active s, kl_stream.truncate s)]) @ trace s" by simp
  then have "\<exists>evs. trace s2 = evs @ trace s" by blast
  with assms(2) xs show "keeps s (stream_leave h s2)" by (simp add: keeps_def s1 log_hook_def stream_leave_def)
qed

interpretation sr: reentrant stream_api stream_enter stream_leave stream_frame_inv keeps hook_pre hook_post
  "\<lambda>_ _. True" script_len
proof unfold_locales
  fix n hk s c
  assume "good_hooks n hk" "stream_frame_inv s" "script_len s < n"
  then have "runs s (stream_api hk n c s)" and "frames_inv s"
    by (auto simp: stream_frame_inv_def ready_def intro!: stream_api_runs)
  then show "\<exists>r w'. stream_api hk n c s = Some (r, w') \<and> stream_frame_inv w' \<and> keeps s w'"
    by (auto simp: runs_def stream_frame_inv_def intro: keeps_frames)
next
  fix h s cs r s1
  assume h: "hook_pre h s" and e: "stream_enter h s = ((cs, r), s1)"
  have "s1 = (log_hook h s)\<lparr>script := script s1\<rparr>" "cs = [] \<or> script_len s1 < script_len s"
    using e by (auto simp: stream_enter_def log_hook_def split: list.splits)
  moreover have "stream_frame_inv (log_hook h s)" using h by (simp add: hook_pre_def stream_frame_inv_def)
  ultimately show "stream_frame_inv s1 \<and> (cs = [] \<or> script_len s1 < script_len s) \<and> (\<forall>c \<in> set cs. True)"
    using stream_frame_inv_script by metis
next
  fix h s cs r s1 s2
  assume h: "hook_pre h s" and e: "stream_enter h s = ((cs, r), s1)" and i: "stream_frame_inv s2" and k: "keeps s1 s2"
    and n: "cs = [] \<Longrightarrow> s2 = s1"
  from i have "stream_inv (stream_leave h s2)" by (simp add: stream_frame_inv_def stream_leave_def inv_defs)
  moreover have "keeps s (stream_leave h s2)" by (rule keeps_leave(1) [OF e k])
  moreover note keeps_leave(2) [OF e k]
  moreover have "script_len (stream_leave h s2) < script_len s \<or>
      stream_leave h s2 = s\<lparr>trace := (h, active s, kl_stream.truncate s) # trace s\<rparr>"
  proof (cases "script s")
    case Nil
    with e have "s1 = log_hook h s" "cs = []" by (simp_all add: stream_enter_def)
    with n show ?thesis by (simp add: stream_leave_def log_hook_def)
  next
    case (Cons x xs)
    with e have "script s1 = xs" by (auto simp: stream_enter_def)
    moreover have "script_len s2 \<le> script_len s1" using k by (simp add: keeps_def)
    ultimately show ?thesis using Cons by (simp add: stream_leave_def)
  qed
  ultimately show "hook_post h s r (stream_leave h s2)" by (simp add: hook_post_def)
next
  fix s s1 s2
  show "keeps s s" by simp
  show "keeps s s1 \<Longrightarrow> keeps s1 s2 \<Longrightarrow> keeps s s2" by (rule keeps_trans)
  show "keeps s s1 \<Longrightarrow> script_len s1 \<le> script_len s" by (simp add: keeps_def)
qed

end
