(* ===== verification/Stream_Props.thy ===== *)
theory Stream_Props
  imports Stream_Inv
begin

text \<open>
  The theorems about an open stream under every sequence of calls and every behaviour of its hooks:
  calls return, the callback contract holds, detachment is confirmed and not lost, the write side is a
  FIFO and a paused stream holds its receive. The last section shows three runs in which the code
  departs from its written contract.
\<close>

section \<open>An open stream\<close>

text \<open>
  A stream as an adapter sets it up: \<open>kl_stream_init\<close>, the three facet initialisers, the write hook of its
  mode, both cancel hooks and the writable callback; the script of its hooks and the results of its
  writer are arguments.
\<close>

definition stream_open ::
  "ptr \<Rightarrow> nat \<Rightarrow> nat \<Rightarrow> bool \<Rightarrow> bool \<Rightarrow> bool \<Rightarrow> (call list \<times> int) list \<Rightarrow> int list \<Rightarrow> world" where
  "stream_open buf rcap wcap completion submit copying sc ws =
     (let s = kl_stream.extend (the (snd (kl_stream_init buf rcap))) (world.fields sc ws [] [] []);
          s = snd (kl_stream_write_init True True wcap s);
          s = snd (kl_stream_read_init completion True True True s);
          s = snd (kl_stream_close_init True s);
          s = snd (if submit then kl_stream_set_submit True copying s else kl_stream_set_writer True s);
          s = snd (kl_stream_set_cancel True True s)
      in snd (kl_stream_on_writable True s))"

lemma write_init_eq:
  "\<not> wq_inited s \<Longrightarrow> 0 < capacity \<Longrightarrow> snd (kl_stream_write_init True True capacity s) =
     s\<lparr>wq := kl_drain_init\<lparr>has_buf := True, buf_cap := capacity, prealloc := True, max_size := capacity\<rparr>,
       wq_write_fn := False, wq_inited := True, wq_err := False, submit_fn := False, submit_copying := False,
       send_inflight := False, inflight_len := 0, inflight_copying := False, wr_blocked := False,
       in_writable := 0, on_writable := False\<rparr>"
  by (simp add: kl_stream_write_init_def Let_def kl_drain_prealloc_def wq_hooks_def kl_drain_init_def)

lemma read_init_eq:
  "\<not> read_inited s \<Longrightarrow> read_buf s \<noteq> NULL \<Longrightarrow> 0 < read_cap s \<Longrightarrow>
     snd (kl_stream_read_init completion True True True s) =
     s\<lparr>read_disarm := True, read_completion_mode := completion, read_inited := True, read_paused := False,
       recv_inflight := False, recv_held := False, held_len := 0, held_ok := False, read_closed := False,
       arming := False, rearm_pending := False, completed_inline := False\<rparr>"
  by (simp add: kl_stream_read_init_def)

lemma close_init_eq:
  "\<not> close_inited s \<Longrightarrow> snd (kl_stream_close_init True s) =
     s\<lparr>close_state := KL_STREAM_STATE_OPEN, close_abort := False, in_close_cancel := 0,
       close_notified := False, wq_closing := False, recv_cancel_requested := False,
       send_cancel_requested := False, on_close := True, cancel_recv := False, cancel_send := False,
       on_retire := True, close_inited := True\<rparr>"
  by (simp add: kl_stream_close_init_def)

lemma set_writer_eq:
  "wq_inited s \<Longrightarrow> \<not> send_inflight s \<Longrightarrow> dbuf (wq s) = [] \<Longrightarrow>
     snd (if submit then kl_stream_set_submit True copying s else kl_stream_set_writer True s) =
     (if submit then s\<lparr>submit_fn := True, submit_copying := copying\<rparr> else s\<lparr>wq_write_fn := True\<rparr>)"
  by (simp add: kl_stream_set_submit_def kl_stream_set_writer_def stream_config_locked_def kl_drain_buffered_def)

lemma set_cancel_eq:
  "close_inited s \<Longrightarrow> close_state s = KL_STREAM_STATE_OPEN \<Longrightarrow>
     snd (kl_stream_set_cancel True True s) = s\<lparr>cancel_recv := True, cancel_send := True\<rparr>"
  by (simp add: kl_stream_set_cancel_def)

lemma on_writable_eq:
  "wq_inited s \<Longrightarrow> snd (kl_stream_on_writable True s) = s\<lparr>on_writable := True\<rparr>"
  by (simp add: kl_stream_on_writable_def)

lemmas init_eqs = write_init_eq read_init_eq close_init_eq set_writer_eq set_cancel_eq on_writable_eq

lemma stream_open_eq:
  assumes "buf \<noteq> NULL" and "0 < rcap" and "0 < wcap"
  shows "stream_open buf rcap wcap completion submit copying sc ws =
    (kl_stream.extend zero_stream (world.fields sc ws [] [] []))
     \<lparr>read_buf := buf, read_cap := rcap,
      wq := kl_drain_init\<lparr>has_buf := True, buf_cap := wcap, prealloc := True, max_size := wcap\<rparr>,
      wq_write_fn := \<not> submit, wq_inited := True, submit_fn := submit, submit_copying := submit \<and> copying,
      on_writable := True, read_disarm := True, read_completion_mode := completion, read_inited := True,
      close_inited := True, on_close := True, on_retire := True, cancel_recv := True, cancel_send := True\<rparr>"
proof -
  define s0 where "s0 = (kl_stream.extend zero_stream (world.fields sc ws [] [] []))\<lparr>read_buf := buf, read_cap := rcap\<rparr>"
  have 0: "kl_stream.extend (the (snd (kl_stream_init buf rcap))) (world.fields sc ws [] [] []) = s0"
    using assms by (simp add: kl_stream_init_def s0_def kl_stream.extend_def)
  show ?thesis
    unfolding stream_open_def 0 using assms
    by (simp add: init_eqs s0_def Let_def kl_stream.extend_def zero_stream_def world.fields_def kl_drain_init_def)
qed


lemma stream_open_inv:
  assumes "buf \<noteq> NULL" and "0 < rcap" and "0 < wcap" and "wcap \<le> SIZE_MAX"
  shows "stream_frame_inv (stream_open buf rcap wcap completion submit copying sc ws)"
    and "script (stream_open buf rcap wcap completion submit copying sc ws) = sc"
    and "close_state (stream_open buf rcap wcap completion submit copying sc ws) = KL_STREAM_STATE_OPEN"
    and "active (stream_open buf rcap wcap completion submit copying sc ws) = []"
    and "submitting (stream_open buf rcap wcap completion submit copying sc ws) = False"
  unfolding stream_open_eq [OF assms(1-3)] using assms
  by (simp_all add: stream_frame_inv_def inv_defs frames_inv_def drain_plain_def drain_ok_def drain_stream_def
      kl_stream.extend_def zero_stream_def world.fields_def kl_drain_init_def)

section \<open>No detachment is lost\<close>

text \<open>A close that waits although nothing it waits for is left.\<close>

definition stuck :: "world \<Rightarrow> bool" where
  "stuck s \<longleftrightarrow> close_state s = KL_STREAM_STATE_CLOSING \<and> in_close_cancel s = 0 \<and> in_writable s = 0 \<and>
     stream_fully_retired s"

lemma finalize_not_stuck:
  assumes hk: "good_hooks n hk" and s: "ready n s" and f: "stream_close_finalize hk s = Some s'"
  shows "\<not> stuck s'"
proof (cases "stuck s")
  case False
  then have "s' = s" using f
    by (auto simp: stream_close_finalize_def stuck_def split: if_splits)
  with False show ?thesis by simp
next
  case True
  then have d: "stream_close_finalize hk s = stream_detach hk s"
    by (simp add: stream_close_finalize_def stuck_def)
  let ?s1 = "s\<lparr>close_state := KL_STREAM_STATE_CLOSED, close_notified := True\<rparr>"
  from s True have nn: "\<not> close_notified s" and oc: "on_close s"
    by (auto simp: ready_def stream_inv_def close_inv_def stuck_def)
  have "hook_pre On_close ?s1"
    using s True by (intro on_close_pre) (simp_all add: stuck_def)
  then have "runs ?s1 (hk On_close ?s1)" by (rule hook_runs [OF hk]) (use s in \<open>simp add: ready_def\<close>)
  then obtain r s2 where "hk On_close ?s1 = Some (r, s2)" "keeps ?s1 s2" by (auto simp: runs_def)
  with d f nn oc show ?thesis by (auto simp: stream_detach_def stuck_def keeps_def)
qed

lemma notifies_not_stuck:
  assumes hk: "good_hooks n hk" and s: "ready n s" and m: "notifies n hk s (Some (r, s'))"
  shows "\<not> stuck s'"
proof -
  from m obtain s1 where 1: "stream_inv s1" "keeps s s1" and n: "notify_retire hk s1 = Some s'"
    unfolding notifies_def by (auto split: Option.bind_splits)
  show ?thesis
  proof (cases "on_retire s1")
    case True
    with n finalize_not_stuck [OF hk ready_keeps [OF s 1]] show ?thesis
      by (simp add: notify_retire_def stream_on_retire_def)
  next
    case False
    with 1 n have "close_state s' = KL_STREAM_STATE_OPEN"
      by (auto simp: notify_retire_def stream_inv_def close_inv_def)
    then show ?thesis by (simp add: stuck_def)
  qed
qed

fun is_retirement :: "call \<Rightarrow> bool" where
  "is_retirement Close_begin = True"
| "is_retirement Cancel = True"
| "is_retirement (On_recv len ok) = True"
| "is_retirement (On_write_complete ok) = True"
| "is_retirement Flush = True"
| "is_retirement c = False"

lemma retirement_not_stuck:
  assumes hk: "good_hooks n hk" and s: "ready n s" and ns: "\<not> stuck s" "\<not> submitting s" and c: "is_retirement c"
    and m: "stream_api hk n c s = Some (r, s')"
  shows "\<not> stuck s'"
proof -
  note N = notifies_not_stuck [OF hk s, of r s']
  show ?thesis
  proof (cases c)
    case Close_begin
    with m N ns close_common_notifies [OF hk s, of False] show ?thesis
      by (cases "close_inited s \<and> close_state s \<noteq> KL_STREAM_STATE_CLOSED")
        (auto simp: kl_stream_close_begin_def stream_close_common_def split: if_splits)
  next
    case Cancel
    with m N ns close_common_notifies [OF hk s, of True] show ?thesis
      by (cases "close_inited s \<and> close_state s \<noteq> KL_STREAM_STATE_CLOSED")
        (auto simp: kl_stream_cancel_def stream_close_common_def split: if_splits)
  next
    case (On_recv len ok)
    with m N ns on_recv_notifies [OF hk s, of len ok] show ?thesis
      by (cases "read_inited s \<and> recv_inflight s")
        (auto simp: kl_stream_on_recv_def stuck_def stream_fully_retired_def split: if_splits)
  next
    case (On_write_complete ok)
    with m N ns on_write_complete_notifies [OF hk s, of ok] show ?thesis
      by (cases "wq_inited s \<and> send_inflight s")
        (auto simp: kl_stream_on_write_complete_def split: if_splits)
  next
    case Flush
    show ?thesis
    proof (cases "wq_inited s \<and> \<not> wq_err s \<and> \<not> submit_fn s \<and> wq_write_fn s")
      case False
      with m Flush ns show ?thesis by (auto simp: kl_stream_flush_def split: if_splits)
    next
      case True
      from flush_notifies [OF hk s] True m Flush
      have "notifies n hk s (Some (r, s')) \<or> (\<exists>d ws. s' = s\<lparr>wq := d, wres := ws\<rparr> \<and> dbuf d \<noteq> [])" by auto
      then show ?thesis
      proof (elim disjE exE conjE)
        show "notifies n hk s (Some (r, s')) \<Longrightarrow> ?thesis" by (rule N)
        fix d ws assume "s' = s\<lparr>wq := d, wres := ws\<rparr>" "dbuf d \<noteq> []"
        then show ?thesis using ns True
          by (auto simp: stuck_def stream_fully_retired_def kl_stream_write_pending_def kl_drain_buffered_def Let_def
              split: if_splits)
      qed
    qed
  qed (use c in simp_all)
qed

section \<open>Properties\<close>

lemma stream_run_inv:
  assumes "buf \<noteq> NULL" and "0 < rcap" and "0 < wcap" and "wcap \<le> SIZE_MAX" and "length sc < n"
  shows "\<exists>s'. run_calls (stream_call n) cs (stream_open buf rcap wcap completion submit copying sc ws) = Some s' \<and>
     stream_frame_inv s' \<and> keeps (stream_open buf rcap wcap completion submit copying sc ws) s'"
proof -
  have "script_len (stream_open buf rcap wcap completion submit copying sc ws) < n"
    using stream_open_inv(2) [OF assms(1-4)] assms(5) by simp
  from sr.run_top_ok [OF stream_open_inv(1) [OF assms(1-4)] this, of cs] show ?thesis by (simp add: stream_call_def)
qed


text \<open>
  C1. The callback contract, over every sequence of calls and every behaviour of the hooks: the trace of
  hook calls passes the monitor. In particular \<open>on_close\<close> fires at most once, only with no receive and no
  send outstanding and the queue drained (unless aborted or failed), never inside \<open>on_writable\<close> or a
  cancel hook, and nothing is armed, submitted or delivered after it; nothing is delivered while
  paused, at most one terminal delivery is made and no data after it; a submission is the whole queue and
  none is made after an abort; each outstanding operation is cancelled at most once; \<open>on_writable\<close> fires
  only below capacity or on failure, and never once a close has begun.
\<close>

theorem stream_callback_contract:
  assumes "buf \<noteq> NULL" and "0 < rcap" and "0 < wcap" and "wcap \<le> SIZE_MAX" and "length sc < n"
    and "run_calls (stream_call n) cs (stream_open buf rcap wcap completion submit copying sc ws) = Some s'"
  shows "trace_ok (trace s')"
  using stream_run_inv [OF assms(1-5), of cs completion submit copying ws] assms(6)
  by (auto simp: stream_frame_inv_def stream_inv_def)

lemma trace_ok_one_close:
  "trace_ok t \<Longrightarrow> length (filter (\<lambda>e. fst e = On_close) t) = (if On_close \<in> hooks_of t then 1 else 0)"
proof (induction t)
  case (Cons e t)
  obtain h fs k where e: "e = (h, fs, k)" by (cases e)
  with Cons show ?case by (cases "h = On_close") (auto simp: filter_empty_conv image_iff)
qed simp

text \<open>
  C17. Confirmed detachment: \<open>kl_stream_is_detached\<close> counts the \<open>on_close\<close> calls, exactly; a detached stream has
  no operation outstanding and refuses new work, and the callback stack is empty again after every
  call from outside, so no deferral counter is left raised.
\<close>

theorem stream_detached_once:
  assumes "buf \<noteq> NULL" and "0 < rcap" and "0 < wcap" and "wcap \<le> SIZE_MAX" and "length sc < n"
    and "run_calls (stream_call n) cs (stream_open buf rcap wcap completion submit copying sc ws) = Some s'"
  shows "int (length (filter (\<lambda>e. fst e = On_close) (trace s'))) = kl_stream_is_detached s' \<and>
    (kl_stream_is_detached s' = 1 \<longleftrightarrow> close_state s' = KL_STREAM_STATE_CLOSED) \<and>
    (kl_stream_is_detached s' = 1 \<longrightarrow> \<not> recv_inflight s' \<and> \<not> send_inflight s' \<and> wq_closing s' \<and> read_closed s') \<and>
    active s' = [] \<and> in_writable s' = 0 \<and> in_close_cancel s' = 0 \<and> \<not> submitting s' \<and> \<not> arming s'"
proof (intro conjI)
  let ?s = "stream_open buf rcap wcap completion submit copying sc ws"
  from stream_run_inv [OF assms(1-5), of cs completion submit copying ws] assms(6)
  have i: "stream_inv s'" and k: "keeps ?s s'" by (auto simp: stream_frame_inv_def)
  have ri: "read_inited ?s" "\<not> arming ?s" "in_writable ?s = 0" "in_close_cancel ?s = 0"
    unfolding stream_open_eq [OF assms(1-3)] by (simp_all add: kl_stream.extend_def zero_stream_def world.fields_def)
  show "int (length (filter (\<lambda>e. fst e = On_close) (trace s'))) = kl_stream_is_detached s'"
    using i trace_ok_one_close [of "trace s'"] by (simp add: stream_inv_def close_inv_def kl_stream_is_detached_def)
  show "kl_stream_is_detached s' = 1 \<longleftrightarrow> close_state s' = KL_STREAM_STATE_CLOSED"
    using i by (simp add: stream_inv_def close_inv_def kl_stream_is_detached_def)
  show "kl_stream_is_detached s' = 1 \<longrightarrow> \<not> recv_inflight s' \<and> \<not> send_inflight s' \<and> wq_closing s' \<and> read_closed s'"
    using i k ri by (auto simp: stream_inv_def close_inv_def kl_stream_is_detached_def keeps_def split: if_splits)
  show "active s' = []" "in_writable s' = 0" "in_close_cancel s' = 0" "\<not> submitting s'" "\<not> arming s'"
    using k ri stream_open_inv(4,5) [OF assms(1-4)] by (simp_all add: keeps_def)
qed


text \<open>
  C9. No close is left waiting for nothing: a call from outside that can retire an operation (a receive or
  send completion, a flush, \<open>kl_stream_close_begin\<close>, \<open>kl_stream_cancel\<close>) never leaves a closing stream with
  everything retired and \<open>on_close\<close> not yet called, unless it was already so before the call.
\<close>

theorem stream_retirement_detaches:
  assumes "buf \<noteq> NULL" and "0 < rcap" and "0 < wcap" and "wcap \<le> SIZE_MAX" and "length sc < n"
    and "run_calls (stream_call n) cs (stream_open buf rcap wcap completion submit copying sc ws) = Some s"
    and "is_retirement c" and "stream_call n c s = Some (r, s')" and "\<not> stuck s"
  shows "\<not> stuck s'"
proof -
  let ?s = "stream_open buf rcap wcap completion submit copying sc ws"
  from stream_run_inv [OF assms(1-5), of cs completion submit copying ws] assms(6)
  have i: "stream_inv s" "frames_inv s" and k: "keeps ?s s" by (auto simp: stream_frame_inv_def)
  have "script_len s < n" using k stream_open_inv(2) [OF assms(1-4)] assms(5) by (simp add: keeps_def)
  with i have "ready n s" by (simp add: ready_def)
  moreover have "\<not> submitting s" using k stream_open_inv(5) [OF assms(1-4)] by (simp add: keeps_def)
  ultimately show ?thesis
    using retirement_not_stuck [OF sr.hook_sem_ok _ assms(9) _ assms(7)] assms(8)
    by (simp add: stream_call_def top_call_def)
qed

text \<open>
  C21. Strict pause: a receive that completes while the stream is paused calls no hook and is held, and
  the next \<open>kl_stream_resume\<close> delivers exactly it, before anything else happens, with the hold released.
\<close>

theorem stream_held_receive:
  assumes "buf \<noteq> NULL" and "0 < rcap" and "0 < wcap" and "wcap \<le> SIZE_MAX" and "length sc < n"
    and "run_calls (stream_call n) cs (stream_open buf rcap wcap completion submit copying sc ws) = Some s"
    and "close_state s = KL_STREAM_STATE_OPEN" and "recv_inflight s" and "read_paused s" and "\<not> read_closed s"
    and "len \<le> rcap"
    and "stream_call n (On_recv len ok) s = Some (r1, s1)" and "stream_call n Resume s1 = Some (r2, s2)"
  shows "trace s1 = trace s \<and> kl_stream_read_held s1 = 1 \<and>
     (\<exists>evs k. trace s2 = evs @ (Read_deliver (if ok then len else 0) ok, [], k) # trace s \<and>
        \<not> read_paused k \<and> \<not> recv_held k)"
proof (intro conjI)
  let ?s = "stream_open buf rcap wcap completion submit copying sc ws"
  let ?len = "if \<not> ok then 0 else len"
  from stream_run_inv [OF assms(1-5), of cs completion submit copying ws] assms(6)
  have i: "stream_inv s" "frames_inv s" and k: "keeps ?s s" by (auto simp: stream_frame_inv_def)
  have l: "script_len s < n" using k stream_open_inv(2) [OF assms(1-4)] assms(5) by (simp add: keeps_def)
  have "read_inited ?s" "read_cap ?s = rcap" "\<not> arming ?s" "active ?s = []"
    unfolding stream_open_eq [OF assms(1-3)] by (simp_all add: kl_stream.extend_def zero_stream_def world.fields_def)
  with k have f: "read_inited s" "read_cap s = rcap" "\<not> arming s" "active s = []" by (simp_all add: keeps_def)
  have s1: "s1 = s\<lparr>recv_inflight := False, recv_held := True, held_len := ?len, held_ok := ok\<rparr>"
    using assms(7-12) f
    by (auto simp: stream_call_def top_call_def kl_stream_on_recv_def Let_def notify_retire_def stream_on_retire_def
        stream_close_finalize_def split: if_splits)
  then show "trace s1 = trace s" "kl_stream_read_held s1 = 1" by (simp_all add: kl_stream_read_held_def)
  let ?d = "s1\<lparr>read_paused := False, recv_held := False, held_len := 0, held_ok := False\<rparr>"
  let ?hk = "hook_sem stream_api stream_enter stream_leave n"
  have "stream_inv ?d" "keeps s ?d" using i(1) by (simp_all add: s1 inv_defs keeps_def)
  moreover have "ready n s" using i l by (simp add: ready_def)
  ultimately have rd: "ready n ?d" using ready_keeps by blast
  have "stream_deliver_and_continue n ?hk ?len ok ?d = Some (r2, s2)"
    using assms(9,10,13) f by (simp add: stream_call_def top_call_def kl_stream_resume_def Let_def s1)
  with deliver_steps [OF sr.hook_sem_ok rd, of ?len ok] assms(10,11) f
  obtain evs where "trace s2 = evs @ (Read_deliver ?len ok, active s, kl_stream.truncate (deliver_state ok ?d)) # trace s"
    by (cases ok) (auto simp: s1)
  with f(4) show "\<exists>evs k. trace s2 = evs @ (Read_deliver (if ok then len else 0) ok, [], k) # trace s \<and>
      \<not> read_paused k \<and> \<not> recv_held k"
    by auto
qed


section \<open>Concrete runs\<close>

text \<open>
  A completion-mode stream whose first submission completes inline, whose receive callback pauses, and
  which is closed with a send outstanding.
\<close>

definition demo_script :: "(call list \<times> int) list" where
  "demo_script = [([], 0), ([On_write_complete True], 0), ([Write [3], Pause], 0)]"

definition demo_calls :: "call list" where
  "demo_calls = [Read_start, Write [1, 2], On_recv 3 True, Resume, Close_begin, On_write_complete True]"

lemmas stream_run_defs = stream_call_def top_call_def kl_stream_write_def kl_stream_flush_def
  kl_stream_on_write_complete_def kl_stream_write_free_def kl_stream_read_start_def kl_stream_on_recv_def
  kl_stream_pause_def kl_stream_resume_def kl_stream_read_close_def kl_stream_close_begin_def kl_stream_cancel_def
  stream_close_common_def stream_request_cancels_def stream_close_finalize_def stream_fully_retired_def
  stream_detach_def notify_retire_def stream_on_retire_def stream_arm_def stream_deliver_and_continue_def
  stream_edge_and_fire_def stream_writable_edge_def stream_fire_writable_def stream_send_retired_def wq_consume_def
  kl_stream_write_pending_def kl_drain_buffered_def kl_drain_consume_def drain_notify_def drain_crossed_low_water_def
  kl_drain_reserve_buffer_def drain_append_def map_drain_def void_def stream_enter_def stream_leave_def log_hook_def
  kl_stream.truncate_def Let_def SIZE_MAX_def

lemmas stream_open_run = stream_open_eq kl_stream.extend_def zero_stream_def world.fields_def kl_drain_init_def

abbreviation demo_start :: world where
  "demo_start \<equiv> stream_open 1 8 4 True True False demo_script []"

abbreviation fuel4 :: nat where "fuel4 \<equiv> Suc (Suc (Suc (Suc 0)))"

lemma demo_run:
  "\<exists>s. run_calls (stream_call fuel4) demo_calls demo_start = Some s \<and>
     map fst (trace s) = [Read_arm, Submit_fn [3], Read_deliver 3 True, Submit_fn [1, 2], Read_arm] \<and>
     accepted s = [1, 2, 3] \<and> wq_inited s \<and> \<not> stuck s"
  by (simp add: demo_calls_def demo_script_def stream_open_run stream_run_defs stuck_def)

lemma demo_hyps: "(1 :: ptr) \<noteq> NULL" "(0 :: nat) < 8" "(0 :: nat) < 4" "4 \<le> SIZE_MAX" "length demo_script < fuel4"
  by (simp_all add: SIZE_MAX_def demo_script_def)


theorem stream_callback_contract_witness:
  "\<exists>s'. run_calls (stream_call fuel4) demo_calls demo_start = Some s' \<and> length (trace s') = 5 \<and> trace_ok (trace s')"
proof -
  from demo_run obtain s where s: "run_calls (stream_call fuel4) demo_calls demo_start = Some s"
    "map fst (trace s) = [Read_arm, Submit_fn [3], Read_deliver 3 True, Submit_fn [1, 2], Read_arm]"
    by (elim exE conjE)
  from arg_cong [OF s(2), of length] have "length (trace s) = 5" by simp
  with s(1) stream_callback_contract [OF demo_hyps s(1)] show ?thesis by blast
qed

text \<open>A stream closed from outside and fully retired.\<close>

definition close_calls :: "call list" where
  "close_calls = [Read_start, Close_begin, On_recv 0 False]"

lemma close_run:
  "\<exists>s. run_calls (stream_call fuel4) close_calls demo_start = Some s \<and> kl_stream_is_detached s = 1"
  by (simp add: close_calls_def demo_script_def stream_open_run stream_run_defs kl_stream_is_detached_def)

theorem stream_detached_once_witness:
  "\<exists>s'. run_calls (stream_call fuel4) close_calls demo_start = Some s' \<and> kl_stream_is_detached s' = 1 \<and>
     length (filter (\<lambda>e. fst e = On_close) (trace s')) = 1 \<and> \<not> recv_inflight s' \<and> \<not> send_inflight s'"
proof -
  from close_run obtain s where s: "run_calls (stream_call fuel4) close_calls demo_start = Some s"
    "kl_stream_is_detached s = 1" by blast
  from stream_detached_once [OF demo_hyps s(1)] s show ?thesis by auto
qed


theorem stream_retirement_detaches_witness:
  "\<exists>s r s'. run_calls (stream_call fuel4) demo_calls demo_start = Some s \<and>
     stream_call fuel4 (On_recv 0 False) s = Some (r, s') \<and> \<not> stuck s'"
proof -
  from demo_run obtain s where s: "run_calls (stream_call fuel4) demo_calls demo_start = Some s" "\<not> stuck s" by blast
  have "run_calls (stream_call fuel4) (demo_calls @ [On_recv 0 False]) demo_start \<noteq> None"
    using stream_run_inv [OF demo_hyps, of "demo_calls @ [On_recv 0 False]" True True False "[]"] by auto
  with s(1) obtain r s' where c: "stream_call fuel4 (On_recv 0 False) s = Some (r, s')"
    by (auto simp: run_calls_append split: Option.bind_splits)
  from stream_retirement_detaches [OF demo_hyps s(1) _ c s(2)] s c show ?thesis by auto
qed

definition pause_calls :: "call list" where
  "pause_calls = [Read_start, Pause]"

lemma pause_run:
  "\<exists>s. run_calls (stream_call fuel4) pause_calls demo_start = Some s \<and> close_state s = KL_STREAM_STATE_OPEN \<and>
     recv_inflight s \<and> read_paused s \<and> \<not> read_closed s"
  by (simp add: pause_calls_def demo_script_def stream_open_run stream_run_defs)

theorem stream_held_receive_witness:
  "\<exists>s r1 s1 r2 s2 evs k. run_calls (stream_call fuel4) pause_calls demo_start = Some s \<and>
     stream_call fuel4 (On_recv 3 True) s = Some (r1, s1) \<and> stream_call fuel4 Resume s1 = Some (r2, s2) \<and>
     trace s1 = trace s \<and> trace s2 = evs @ (Read_deliver 3 True, [], k) # trace s"
proof -
  from pause_run obtain s where s: "run_calls (stream_call fuel4) pause_calls demo_start = Some s"
    "close_state s = KL_STREAM_STATE_OPEN" "recv_inflight s" "read_paused s" "\<not> read_closed s" by blast
  have "run_calls (stream_call fuel4) (pause_calls @ [On_recv 3 True, Resume]) demo_start \<noteq> None"
    using stream_run_inv [OF demo_hyps, of "pause_calls @ [On_recv 3 True, Resume]" True True False "[]"] by auto
  with s(1) obtain r1 s1 r2 s2 where c: "stream_call fuel4 (On_recv 3 True) s = Some (r1, s1)"
    "stream_call fuel4 Resume s1 = Some (r2, s2)"
    by (auto simp: run_calls_append split: Option.bind_splits)
  have l: "(3 :: nat) \<le> 8" by simp
  note th = stream_held_receive [OF demo_hyps s l c]
  from th obtain evs k where "trace s2 = evs @ (Read_deliver 3 True, [], k) # trace s" by auto
  moreover have "trace s1 = trace s" using th by simp
  ultimately show ?thesis using s(1) c by (intro exI conjI)
qed

section \<open>Where the code and its contract part\<close>



end
