(* ===== verification/Listener.thy ===== *)
theory Listener
  imports Reentrancy
begin

text \<open>
  The accept-side listener \<open>KlListener\<close> (\<open>src/listener.c\<close>): reserve-before-accept backpressure, an iterative
  pump that keeps up to \<open>window\<close> accepts posted with one pool credit each, hand-off or disposal of each
  accepted value, batch cancel and confirmed detachment.

  The record \<open>kl_listener\<close> has the fields of \<open>struct KlListener\<close>; hook fields are pointers, null when not
  installed. A \<open>lworld\<close> adds the script of the hooks (theory Reentrancy), whose entries say how each hook
  would react if it were the next one called, and ghost fields no operation reads: the hooks on the
  call stack, the trace of hook calls with snapshots, and three counters of the credit ledger (credits
  the pool granted, credits given back by the listener, credits committed to a lease).
\<close>

section \<open>State\<close>

datatype listener_state = KL_LISTENER_STATE_IDLE | KL_LISTENER_STATE_LISTENING | KL_LISTENER_STATE_PAUSED
  | KL_LISTENER_STATE_CLOSING | KL_LISTENER_STATE_CLOSED

record kl_slot_lease =
  lease_release :: ptr
  release_ctx :: ptr
  alive :: ptr

text \<open>One accepted value, of the descriptor family or of the object family.\<close>

datatype laccepted = Fd int | Conn ptr

record listener_hooks =
  h_reserve :: ptr
  h_release :: ptr
  h_credit_ctx :: ptr
  h_liveness :: ptr
  h_arm_accept :: ptr
  h_disarm_accept :: ptr
  h_cancel_accept :: ptr
  h_on_accept :: ptr
  h_dispose_fd :: ptr
  h_on_close :: ptr
  h_on_accept_obj :: ptr
  h_dispose_obj :: ptr

record kl_listener =
  lstate :: listener_state
  inited :: bool
  completion_mode :: bool
  detached :: bool
  last_error :: int
  window :: nat
  inflight :: nat
  accept_cancel_requested :: bool
  pumping :: bool
  pump_pending :: bool
  in_start :: nat
  in_dispatch :: nat
  reserve :: ptr
  release :: ptr
  credit_ctx :: ptr
  liveness :: ptr
  arm_accept :: ptr
  disarm_accept :: ptr
  cancel_accept :: ptr
  on_accept :: ptr
  dispose_fd :: ptr
  on_close :: ptr
  on_accept_obj :: ptr
  dispose_obj :: ptr

definition KL_LISTENER_ARM_RETRY :: int where "KL_LISTENER_ARM_RETRY = -2"

datatype lhook = Reserve | Release | Arm_accept | Disarm_accept | Cancel_accept
  | On_accept laccepted kl_slot_lease | Dispose laccepted | On_close

datatype lcall = Set_accept_window int | Start | On_accepted int | On_accepted_obj ptr | On_accept_failed int
  | Notify_slot_free | Close

record lworld = kl_listener +
  script :: "(lhook \<Rightarrow> lcall list \<times> int) list"
  active :: "lhook list"
  trace :: "(lhook \<times> lhook list \<times> kl_listener) list"
  acquired :: nat
  released :: nat
  leased :: nat

type_synonym lhk = "(lhook, lworld) hooks"

section \<open>Leases\<close>

text \<open>
  Releasing a lease consumes it; the result says which release function is called, with its context.
  \<open>mem\<close> reads the liveness token.
\<close>

definition kl_slot_lease_release :: "(ptr \<Rightarrow> int) \<Rightarrow> kl_slot_lease \<Rightarrow> (ptr \<times> ptr) option \<times> kl_slot_lease" where
  "kl_slot_lease_release mem lease =
     (if lease_release lease = NULL then (None, lease)
      else let fn = lease_release lease; ctx = release_ctx lease; al = alive lease;
               lease = lease\<lparr>lease_release := NULL, release_ctx := NULL, alive := NULL\<rparr>
           in if al \<noteq> NULL \<and> mem al = 0 then (None, lease) else (Some (fn, ctx), lease))"

section \<open>Operations\<close>

definition l_reserve :: "lhk \<Rightarrow> lworld \<Rightarrow> (int \<times> lworld) option" where
  "l_reserve hk l =
     (if reserve l = NULL then Some (1, l\<lparr>acquired := acquired l + 1\<rparr>)
      else do {
        (r, l) \<leftarrow> hk Reserve (l\<lparr>in_dispatch := in_dispatch l + 1\<rparr>);
        Some (r, l\<lparr>in_dispatch := in_dispatch l - 1, acquired := acquired l + (if r = 1 then 1 else 0)\<rparr>) })"

definition l_release_credit :: "lhk \<Rightarrow> lworld \<Rightarrow> lworld option" where
  "l_release_credit hk l =
     (let l = l\<lparr>released := released l + 1\<rparr> in
      if release l \<noteq> NULL then do {
        (r, l) \<leftarrow> hk Release (l\<lparr>in_dispatch := in_dispatch l + 1\<rparr>);
        Some (l\<lparr>in_dispatch := in_dispatch l - 1\<rparr>) }
      else Some l)"

definition l_finalize :: "lhk \<Rightarrow> lworld \<Rightarrow> lworld option" where
  "l_finalize hk l =
     (if lstate l \<noteq> KL_LISTENER_STATE_CLOSING then Some l
      else if in_start l > 0 \<or> in_dispatch l > 0 then Some l
      else if inflight l > 0 then Some l
      else if detached l then Some l
      else let l = l\<lparr>lstate := KL_LISTENER_STATE_CLOSED, detached := True\<rparr> in
        if on_close l \<noteq> NULL then map_option snd (hk On_close l) else Some l)"

definition l_dispose :: "lhk \<Rightarrow> laccepted \<Rightarrow> lworld \<Rightarrow> lworld option" where
  "l_dispose hk a l = do {
     (r, l) \<leftarrow> hk (Dispose a) (l\<lparr>in_dispatch := in_dispatch l + 1\<rparr>);
     l_finalize hk (l\<lparr>in_dispatch := in_dispatch l - 1\<rparr>) }"

text \<open>The loop of \<open>l_begin_close\<close> that returns the credit of every posted accept.\<close>

fun l_return_credits :: "nat \<Rightarrow> lhk \<Rightarrow> lworld \<Rightarrow> lworld option" where
  "l_return_credits 0 hk l = None"
| "l_return_credits (Suc k) hk l =
     (if inflight l > 0 then do {
        l \<leftarrow> l_release_credit hk (l\<lparr>inflight := inflight l - 1\<rparr>);
        l_return_credits k hk l }
      else Some l)"

definition l_begin_close :: "lhk \<Rightarrow> lworld \<Rightarrow> lworld option" where
  "l_begin_close hk l =
     (if lstate l = KL_LISTENER_STATE_CLOSED then Some l
      else do {
        l \<leftarrow> (if lstate l \<noteq> KL_LISTENER_STATE_CLOSING then
               let l = l\<lparr>lstate := KL_LISTENER_STATE_CLOSING\<rparr> in
               if inflight l > 0 then
                 if \<not> completion_mode l then do {
                   l \<leftarrow> (if disarm_accept l \<noteq> NULL then map_option snd (hk Disarm_accept l) else Some l);
                   l_return_credits (Suc (inflight l)) hk l }
                 else if cancel_accept l \<noteq> NULL \<and> \<not> accept_cancel_requested l then do {
                   (r, l) \<leftarrow> hk Cancel_accept (l\<lparr>accept_cancel_requested := True, in_dispatch := in_dispatch l + 1\<rparr>);
                   Some (l\<lparr>in_dispatch := in_dispatch l - 1\<rparr>) }
                 else Some l
               else Some l
             else Some l);
        l_finalize hk l })"

text \<open>The pause of the pump: nothing is posted, and a readiness listener drops its interest.\<close>

definition l_pause :: "lhk \<Rightarrow> lworld \<Rightarrow> lworld option" where
  "l_pause hk l =
     (let l = l\<lparr>lstate := KL_LISTENER_STATE_PAUSED\<rparr> in
      if \<not> completion_mode l \<and> disarm_accept l \<noteq> NULL then map_option snd (hk Disarm_accept l) else Some l)"

text \<open>The part of the pump after a failed post.\<close>

definition l_post_failed :: "lhk \<Rightarrow> int \<Rightarrow> nat \<Rightarrow> lworld \<Rightarrow> lworld option" where
  "l_post_failed hk rc before l = do {
     l \<leftarrow> l_release_credit hk (l\<lparr>inflight := before, pumping := True\<rparr>);
     let l = l\<lparr>pumping := False, pump_pending := False, last_error := rc\<rparr>;
     if rc = KL_LISTENER_ARM_RETRY then
       if inflight l = 0 \<and> lstate l = KL_LISTENER_STATE_LISTENING then l_pause hk l else Some l
     else l_begin_close hk l }"

text \<open>
  The two nested loops of \<open>l_pump\<close> as one function: \<open>l_pump_again\<close> is what follows a \<open>break\<close> or the end of
  the inner loop, the test of the outer one.
\<close>

definition l_pump_again :: "(lworld \<Rightarrow> lworld option) \<Rightarrow> lworld \<Rightarrow> lworld option" where
  "l_pump_again loop l = (if pump_pending l then loop (l\<lparr>pump_pending := False\<rparr>) else Some l)"

primrec l_pump_loop :: "nat \<Rightarrow> lhk \<Rightarrow> lworld \<Rightarrow> lworld option" where
  "l_pump_loop 0 hk l = None"
| "l_pump_loop (Suc n) hk l =
     (if lstate l = KL_LISTENER_STATE_LISTENING \<and> inflight l < window l then do {
        (r, l) \<leftarrow> l_reserve hk l;
        if r < 0 then do { l \<leftarrow> l_begin_close hk (l\<lparr>last_error := -1\<rparr>); l_pump_again (l_pump_loop n hk) l }
        else if lstate l \<noteq> KL_LISTENER_STATE_LISTENING then do {
          l \<leftarrow> (if r = 1 then l_release_credit hk l else Some l); l_pump_again (l_pump_loop n hk) l }
        else if r = 0 then do {
          l \<leftarrow> (if inflight l = 0 then l_pause hk l else Some l); l_pump_again (l_pump_loop n hk) l }
        else do {
          let before = inflight l;
          (rc, l) \<leftarrow> hk Arm_accept (l\<lparr>inflight := before + 1, pumping := True, in_start := in_start l + 1\<rparr>);
          let l = l\<lparr>in_start := in_start l - 1, pumping := False\<rparr>;
          if inflight l = before then l_pump_loop n hk l
          else if rc < 0 then do { l \<leftarrow> l_post_failed hk rc before l; l_pump_again (l_pump_loop n hk) l }
          else l_pump_loop n hk l } }
      else l_pump_again (l_pump_loop n hk) l)"

text \<open>Fuel for \<open>n - 1\<close> hook reactions: each round consumes one, or posts one more accept.\<close>

definition pump_fuel :: "nat \<Rightarrow> lworld \<Rightarrow> nat" where
  "pump_fuel n l = n * (4 * window l + 8)"

definition l_pump :: "nat \<Rightarrow> lhk \<Rightarrow> lworld \<Rightarrow> lworld option" where
  "l_pump n hk l =
     (if pumping l then Some (l\<lparr>pump_pending := True\<rparr>)
      else do {
        l \<leftarrow> l_pump_loop (pump_fuel n l) hk (l\<lparr>pump_pending := False\<rparr>);
        l_finalize hk l })"

definition zero_listener :: kl_listener where
  "zero_listener = \<lparr>lstate = KL_LISTENER_STATE_IDLE, inited = False, completion_mode = False, detached = False,
     last_error = 0, window = 0, inflight = 0, accept_cancel_requested = False, pumping = False,
     pump_pending = False, in_start = 0, in_dispatch = 0, reserve = NULL, release = NULL, credit_ctx = NULL,
     liveness = NULL, arm_accept = NULL, disarm_accept = NULL, cancel_accept = NULL, on_accept = NULL,
     dispose_fd = NULL, on_close = NULL, on_accept_obj = NULL, dispose_obj = NULL\<rparr>"

definition kl_listener_init :: "bool \<Rightarrow> listener_hooks \<Rightarrow> int \<times> kl_listener option" where
  "kl_listener_init completion h =
     (let fd_family = (h_on_accept h \<noteq> NULL \<or> h_dispose_fd h \<noteq> NULL);
          obj_family = (h_on_accept_obj h \<noteq> NULL \<or> h_dispose_obj h \<noteq> NULL)
      in if h_arm_accept h = NULL then (-1, None)
         else if fd_family = obj_family then (-1, None)
         else if fd_family \<and> (h_on_accept h = NULL \<or> h_dispose_fd h = NULL) then (-1, None)
         else if obj_family \<and> (h_on_accept_obj h = NULL \<or> h_dispose_obj h = NULL) then (-1, None)
         else if \<not> completion \<and> h_disarm_accept h = NULL then (-1, None)
         else if (h_reserve h \<noteq> NULL) \<noteq> (h_release h \<noteq> NULL) then (-1, None)
         else (0, Some (zero_listener\<lparr>completion_mode := completion, window := 1, reserve := h_reserve h,
             release := h_release h, credit_ctx := h_credit_ctx h, liveness := h_liveness h,
             arm_accept := h_arm_accept h, disarm_accept := h_disarm_accept h,
             cancel_accept := h_cancel_accept h, on_accept := h_on_accept h, dispose_fd := h_dispose_fd h,
             on_accept_obj := h_on_accept_obj h, dispose_obj := h_dispose_obj h, on_close := h_on_close h,
             lstate := KL_LISTENER_STATE_IDLE, inited := True\<rparr>)))"

definition kl_listener_set_accept_window :: "int \<Rightarrow> 'x kl_listener_scheme \<Rightarrow> int \<times> 'x kl_listener_scheme" where
  "kl_listener_set_accept_window w l =
     (if \<not> inited l \<or> lstate l \<noteq> KL_LISTENER_STATE_IDLE then (-1, l)
      else if w < 1 then (-1, l)
      else if \<not> completion_mode l \<and> w \<noteq> 1 then (-1, l)
      else (0, l\<lparr>window := nat w\<rparr>))"

definition kl_listener_start :: "nat \<Rightarrow> lhk \<Rightarrow> lworld \<Rightarrow> (int \<times> lworld) option" where
  "kl_listener_start n hk l =
     (if \<not> inited l then Some (-1, l)
      else if lstate l \<noteq> KL_LISTENER_STATE_IDLE then Some (-1, l)
      else do { l \<leftarrow> l_pump n hk (l\<lparr>lstate := KL_LISTENER_STATE_LISTENING\<rparr>); Some (0, l) })"

definition l_closing :: "'x kl_listener_scheme \<Rightarrow> bool" where
  "l_closing l \<longleftrightarrow> lstate l = KL_LISTENER_STATE_CLOSING \<or> lstate l = KL_LISTENER_STATE_CLOSED"

definition l_on_accepted :: "nat \<Rightarrow> lhk \<Rightarrow> laccepted \<Rightarrow> lworld \<Rightarrow> lworld option" where
  "l_on_accepted n hk a l =
     (if inflight l \<le> 0 then l_dispose hk a l
      else let l = l\<lparr>inflight := inflight l - 1\<rparr> in
        if l_closing l then do { l \<leftarrow> l_release_credit hk l; l_dispose hk a l }
        else do {
          let lease = \<lparr>lease_release = release l, release_ctx = credit_ctx l, alive = liveness l\<rparr>;
          (r, l) \<leftarrow> hk (On_accept a lease) (l\<lparr>in_dispatch := in_dispatch l + 1, leased := leased l + 1\<rparr>);
          l_pump n hk (l\<lparr>in_dispatch := in_dispatch l - 1\<rparr>) })"

definition kl_listener_on_accept_failed :: "nat \<Rightarrow> lhk \<Rightarrow> int \<Rightarrow> lworld \<Rightarrow> lworld option" where
  "kl_listener_on_accept_failed n hk err l =
     (if \<not> inited l then Some l
      else if inflight l \<le> 0 then Some l
      else do {
        l \<leftarrow> l_release_credit hk (l\<lparr>inflight := inflight l - 1, last_error := err\<rparr>);
        if l_closing l then l_finalize hk l else l_pump n hk l })"

definition kl_listener_on_accepted :: "nat \<Rightarrow> lhk \<Rightarrow> int \<Rightarrow> lworld \<Rightarrow> lworld option" where
  "kl_listener_on_accepted n hk fd l =
     (if \<not> inited l then Some l
      else if on_accept_obj l \<noteq> NULL then kl_listener_on_accept_failed n hk (-1) l
      else l_on_accepted n hk (Fd fd) l)"

definition kl_listener_on_accepted_obj :: "nat \<Rightarrow> lhk \<Rightarrow> ptr \<Rightarrow> lworld \<Rightarrow> lworld option" where
  "kl_listener_on_accepted_obj n hk conn l =
     (if \<not> inited l then Some l
      else if on_accept_obj l = NULL then kl_listener_on_accept_failed n hk (-1) l
      else l_on_accepted n hk (Conn conn) l)"

definition kl_listener_notify_slot_free :: "nat \<Rightarrow> lhk \<Rightarrow> lworld \<Rightarrow> lworld option" where
  "kl_listener_notify_slot_free n hk l =
     (if \<not> inited l then Some l
      else let l = (if lstate l = KL_LISTENER_STATE_PAUSED then l\<lparr>lstate := KL_LISTENER_STATE_LISTENING\<rparr> else l) in
        if lstate l \<noteq> KL_LISTENER_STATE_LISTENING then Some l else l_pump n hk l)"

definition kl_listener_close :: "lhk \<Rightarrow> lworld \<Rightarrow> (int \<times> lworld) option" where
  "kl_listener_close hk l =
     (if \<not> inited l then Some (-1, l) else do { l \<leftarrow> l_begin_close hk l; Some (0, l) })"

definition kl_listener_is_detached :: "'x kl_listener_scheme \<Rightarrow> int" where
  "kl_listener_is_detached l = (if detached l then 1 else 0)"

section \<open>The reentrant system\<close>

fun listener_api :: "lhk \<Rightarrow> nat \<Rightarrow> lcall \<Rightarrow> lworld \<Rightarrow> (int \<times> lworld) option" where
  "listener_api hk n (Set_accept_window w) l = Some (kl_listener_set_accept_window w l)"
| "listener_api hk n Start l = kl_listener_start n hk l"
| "listener_api hk n (On_accepted fd) l = map_option (Pair 0) (kl_listener_on_accepted n hk fd l)"
| "listener_api hk n (On_accepted_obj conn) l = map_option (Pair 0) (kl_listener_on_accepted_obj n hk conn l)"
| "listener_api hk n (On_accept_failed err) l = map_option (Pair 0) (kl_listener_on_accept_failed n hk err l)"
| "listener_api hk n Notify_slot_free l = map_option (Pair 0) (kl_listener_notify_slot_free n hk l)"
| "listener_api hk n Close l = kl_listener_close hk l"

definition llog_hook :: "lhook \<Rightarrow> lworld \<Rightarrow> lworld" where
  "llog_hook h l = l\<lparr>active := h # active l, trace := (h, active l, kl_listener.truncate l) # trace l\<rparr>"

definition listener_enter :: "lhook \<Rightarrow> lworld \<Rightarrow> (lcall list \<times> int) \<times> lworld" where
  "listener_enter h l =
     (case script l of [] \<Rightarrow> (([], 0), llog_hook h l)
      | f # fs \<Rightarrow> (f h, (llog_hook h l)\<lparr>script := fs\<rparr>))"

definition listener_leave :: "lhook \<Rightarrow> lworld \<Rightarrow> lworld" where
  "listener_leave h l = l\<lparr>active := tl (active l)\<rparr>"

definition listener_call :: "nat \<Rightarrow> lcall \<Rightarrow> lworld \<Rightarrow> (int \<times> lworld) option" where
  "listener_call = top_call listener_api listener_enter listener_leave"

end
