(* ===== verification/Listener_Props.thy ===== *)
theory Listener_Props
  imports Listener
begin

text \<open>
  The listener under every sequence of calls and every behaviour of its hooks, reentrant calls included:
  calls return, the ledger of pool credits balances, the batch cancel is requested once, and the owner is
  told once that the listener is detached, when nothing is outstanding.

  Two things are asked of a hook, as the header of the listener asks them: a reservation answers 1, 0 or a
  negative number, and an arm that reports failure has posted nothing, so calls nothing back.
\<close>

section \<open>Invariant\<close>

definition polite :: "(lhook \<Rightarrow> lcall list \<times> int) \<Rightarrow> bool" where
  "polite f \<longleftrightarrow> snd (f Reserve) \<le> 1 \<and> (snd (f Arm_accept) < 0 \<longrightarrow> fst (f Arm_accept) = [])"

type_synonym ltrace = "(lhook \<times> lhook list \<times> kl_listener) list"

definition closes :: "ltrace \<Rightarrow> nat" where
  "closes t = length (filter (\<lambda>(h, fs, k). h = On_close) t)"

definition cancels :: "ltrace \<Rightarrow> nat" where
  "cancels t = length (filter (\<lambda>(h, fs, k). h = Cancel_accept) t)"

text \<open>When the owner is told, no accept is posted and no hook of the listener is on the stack that defers it.\<close>

fun close_ok :: "lhook \<times> lhook list \<times> kl_listener \<Rightarrow> bool" where
  "close_ok (h, fs, k) \<longleftrightarrow> (h = On_close \<longrightarrow> inflight k = 0 \<and> in_start k = 0 \<and> in_dispatch k = 0)"

definition linv :: "lworld \<Rightarrow> bool" where
  "linv l \<longleftrightarrow>
     (detached l \<longleftrightarrow> lstate l = KL_LISTENER_STATE_CLOSED) \<and>
     (lstate l \<in> {KL_LISTENER_STATE_IDLE, KL_LISTENER_STATE_CLOSED} \<longrightarrow> inflight l = 0) \<and>
     closes (trace l) = (if detached l \<and> on_close l \<noteq> NULL then 1 else 0) \<and>
     cancels (trace l) \<le> (if accept_cancel_requested l then 1 else 0) \<and>
     list_all close_ok (trace l) \<and>
     acquired l = released l + leased l + inflight l \<and>
     0 < window l \<and> list_all polite (script l)"

definition lkeeps :: "lworld \<Rightarrow> lworld \<Rightarrow> bool" where
  "lkeeps l l' \<longleftrightarrow>
     active l' = active l \<and> in_start l' = in_start l \<and> in_dispatch l' = in_dispatch l \<and>
     on_close l' = on_close l \<and> reserve l' = reserve l \<and>
     (lstate l \<noteq> KL_LISTENER_STATE_IDLE \<longrightarrow> lstate l' \<noteq> KL_LISTENER_STATE_IDLE \<and> window l' = window l) \<and>
     (l_closing l \<longrightarrow> l_closing l' \<and> inflight l' \<le> inflight l) \<and>
     (lstate l = KL_LISTENER_STATE_CLOSED \<longrightarrow> lstate l' = KL_LISTENER_STATE_CLOSED) \<and>
     (0 < in_start l + in_dispatch l \<longrightarrow> lstate l' = KL_LISTENER_STATE_CLOSED \<longrightarrow> lstate l = KL_LISTENER_STATE_CLOSED) \<and>
     length (script l') \<le> length (script l)"

abbreviation lsize :: "lworld \<Rightarrow> nat" where "lsize l \<equiv> length (script l)"

text \<open>A hook that took no reaction from the script has changed nothing the pump looks at.\<close>

definition progress :: "lworld \<Rightarrow> int \<Rightarrow> lworld \<Rightarrow> bool" where
  "progress l r l' \<longleftrightarrow> lsize l' < lsize l \<or>
     r = 0 \<and> inflight l' = inflight l \<and> lstate l' = lstate l \<and> pump_pending l' = pump_pending l"

definition lhook_pre :: "lhook \<Rightarrow> lworld \<Rightarrow> bool" where
  "lhook_pre h l \<longleftrightarrow> linv (llog_hook h l)"

definition lhook_post :: "lhook \<Rightarrow> lworld \<Rightarrow> int \<Rightarrow> lworld \<Rightarrow> bool" where
  "lhook_post h l r l' \<longleftrightarrow> linv l' \<and> lkeeps l l' \<and> progress l r l' \<and>
     (h = Reserve \<longrightarrow> r \<le> 1) \<and>
     (h = Arm_accept \<and> r < 0 \<longrightarrow> inflight l' = inflight l \<and> lstate l' = lstate l)"

abbreviation good_lhooks :: "nat \<Rightarrow> lhk \<Rightarrow> bool" where
  "good_lhooks n hk \<equiv> hooks_ok lhook_pre lhook_post lsize n hk"

lemma lkeepsD:
  assumes "lkeeps l l'"
  shows "active l' = active l" and "in_start l' = in_start l" and "in_dispatch l' = in_dispatch l"
    and "on_close l' = on_close l" and "reserve l' = reserve l"
    and "lstate l \<noteq> KL_LISTENER_STATE_IDLE \<Longrightarrow> lstate l' \<noteq> KL_LISTENER_STATE_IDLE \<and> window l' = window l"
    and "l_closing l \<Longrightarrow> l_closing l' \<and> inflight l' \<le> inflight l"
    and "lstate l = KL_LISTENER_STATE_CLOSED \<Longrightarrow> lstate l' = KL_LISTENER_STATE_CLOSED"
    and "0 < in_start l + in_dispatch l \<Longrightarrow> lstate l' = KL_LISTENER_STATE_CLOSED \<Longrightarrow> lstate l = KL_LISTENER_STATE_CLOSED"
    and "lsize l' \<le> lsize l"
  using assms by (auto simp: lkeeps_def)

lemma lkeeps_refl [simp]: "lkeeps l l"
  by (simp add: lkeeps_def)

lemma lkeeps_trans:
  assumes "lkeeps l l1" and "lkeeps l1 l2"
  shows "lkeeps l l2"
  unfolding lkeeps_def
proof (intro conjI impI)
  note a = lkeepsD [OF assms(1)] and b = lkeepsD [OF assms(2)]
  show "active l2 = active l" "in_start l2 = in_start l" "in_dispatch l2 = in_dispatch l"
    "on_close l2 = on_close l" "reserve l2 = reserve l" "lsize l2 \<le> lsize l"
    using a(1-5,10) b(1-5,10) by simp_all
  show "lstate l2 \<noteq> KL_LISTENER_STATE_IDLE" "window l2 = window l" if "lstate l \<noteq> KL_LISTENER_STATE_IDLE"
    using a(6) [OF that] b(6) by simp_all
  show "l_closing l2" "inflight l2 \<le> inflight l" if "l_closing l" using a(7) [OF that] b(7) by auto
  show "lstate l2 = KL_LISTENER_STATE_CLOSED" if "lstate l = KL_LISTENER_STATE_CLOSED" using a(8) [OF that] b(8) by simp
  show "lstate l = KL_LISTENER_STATE_CLOSED"
    if "0 < in_start l + in_dispatch l" "lstate l2 = KL_LISTENER_STATE_CLOSED"
    using a(2,3) a(9) [OF that(1)] b(9) that by simp
qed

text \<open>The invariant does not look at the guards, the pump flags or the last error.\<close>

lemma linv_updates [simp]:
  "linv (l\<lparr>in_dispatch := x\<rparr>) = linv l" "linv (l\<lparr>in_start := x\<rparr>) = linv l" "linv (l\<lparr>pumping := b\<rparr>) = linv l"
  "linv (l\<lparr>pump_pending := b\<rparr>) = linv l" "linv (l\<lparr>last_error := i\<rparr>) = linv l" "linv (l\<lparr>active := a\<rparr>) = linv l"
  by (simp_all add: linv_def)

lemma l_closing_updates [simp]:
  "l_closing (l\<lparr>in_dispatch := x\<rparr>) = l_closing l" "l_closing (l\<lparr>in_start := x\<rparr>) = l_closing l"
  "l_closing (l\<lparr>pumping := b\<rparr>) = l_closing l" "l_closing (l\<lparr>pump_pending := b\<rparr>) = l_closing l"
  "l_closing (l\<lparr>last_error := i\<rparr>) = l_closing l" "l_closing (l\<lparr>inflight := n\<rparr>) = l_closing l"
  "l_closing (l\<lparr>released := n\<rparr>) = l_closing l" "l_closing (l\<lparr>leased := n\<rparr>) = l_closing l"
  "l_closing (l\<lparr>acquired := n\<rparr>) = l_closing l" "l_closing (l\<lparr>accept_cancel_requested := b\<rparr>) = l_closing l"
  by (simp_all add: l_closing_def)

lemma lkeeps_flags [simp]:
  "lkeeps l (l'\<lparr>pumping := b\<rparr>) = lkeeps l l'" "lkeeps l (l'\<lparr>pump_pending := b\<rparr>) = lkeeps l l'"
  "lkeeps l (l'\<lparr>last_error := i\<rparr>) = lkeeps l l'" "lkeeps (l\<lparr>pumping := b\<rparr>) l' = lkeeps l l'"
  "lkeeps (l\<lparr>pump_pending := b\<rparr>) l' = lkeeps l l'" "lkeeps (l\<lparr>last_error := i\<rparr>) l' = lkeeps l l'"
  "lkeeps l (l'\<lparr>acquired := n\<rparr>) = lkeeps l l'" "lkeeps (l\<lparr>acquired := n\<rparr>) l' = lkeeps l l'"
  "lkeeps l (l'\<lparr>released := n\<rparr>) = lkeeps l l'" "lkeeps (l\<lparr>released := n\<rparr>) l' = lkeeps l l'"
  "lkeeps l (l'\<lparr>leased := n\<rparr>) = lkeeps l l'" "lkeeps (l\<lparr>leased := n\<rparr>) l' = lkeeps l l'"
  "lkeeps l (l'\<lparr>accept_cancel_requested := b\<rparr>) = lkeeps l l'" "lkeeps (l\<lparr>accept_cancel_requested := b\<rparr>) l' = lkeeps l l'"
  by (simp_all add: lkeeps_def l_closing_def)

section \<open>Calling hooks\<close>

lemma llog_inv:
  assumes "linv l" and "h \<noteq> On_close" and "h \<noteq> Cancel_accept"
  shows "linv (llog_hook h l)"
  using assms by (simp add: linv_def llog_hook_def closes_def cancels_def)

lemma lhook_run:
  assumes "good_lhooks n hk" and "linv l" and "lsize l < n" and "h \<noteq> On_close" and "h \<noteq> Cancel_accept"
  obtains r l' where "hk h l = Some (r, l')" and "lhook_post h l r l'"
proof -
  have "lhook_pre h l" using llog_inv assms(2,4,5) by (simp add: lhook_pre_def)
  from hooks_okD [OF assms(1) this assms(3)] that show ?thesis by blast
qed

lemma lkeeps_unguard:
  assumes "lkeeps (l\<lparr>in_dispatch := in_dispatch l + 1\<rparr>) l'"
  shows "lkeeps l (l'\<lparr>in_dispatch := in_dispatch l' - 1\<rparr>)"
    and "lstate l' = KL_LISTENER_STATE_CLOSED \<longleftrightarrow> lstate l = KL_LISTENER_STATE_CLOSED"
  using assms by (auto simp: lkeeps_def)

lemma guarded_run:
  assumes "good_lhooks n hk" and "linv l" and "lsize l < n" and "h \<noteq> On_close" and "h \<noteq> Cancel_accept"
  obtains r l' where "hk h (l\<lparr>in_dispatch := in_dispatch l + 1\<rparr>) = Some (r, l')"
    and "linv l'" and "lkeeps l (l'\<lparr>in_dispatch := in_dispatch l' - 1\<rparr>)"
    and "lstate l' = KL_LISTENER_STATE_CLOSED \<longleftrightarrow> lstate l = KL_LISTENER_STATE_CLOSED"
    and "progress l r l'" and "h = Reserve \<longrightarrow> r \<le> 1"
proof -
  let ?l = "l\<lparr>in_dispatch := in_dispatch l + 1\<rparr>"
  obtain r l' where h: "hk h ?l = Some (r, l')" and p: "lhook_post h ?l r l'"
    by (rule lhook_run [OF assms(1), of ?l h]) (use assms in simp_all)
  have "progress l r l'" using p by (simp add: lhook_post_def progress_def)
  with p lkeeps_unguard [of l l'] show ?thesis by (intro that [OF h]) (simp_all add: lhook_post_def)
qed

section \<open>Operations\<close>

text \<open>What an operation does from a state where the invariant holds.\<close>

definition lruns :: "lworld \<Rightarrow> lworld option \<Rightarrow> bool" where
  "lruns l m \<longleftrightarrow> (\<exists>l'. m = Some l' \<and> linv l' \<and> lkeeps l l')"

lemma lrunsE:
  assumes "lruns l m"
  obtains l' where "m = Some l'" and "linv l'" and "lkeeps l l'"
  using assms by (auto simp: lruns_def)

lemma lruns_Some [simp]: "lruns l (Some l') \<longleftrightarrow> linv l' \<and> lkeeps l l'"
  by (simp add: lruns_def)

lemma lruns_trans: "lkeeps l l1 \<Longrightarrow> lruns l1 m \<Longrightarrow> lruns l m"
  by (auto simp: lruns_def intro: lkeeps_trans)

lemma lruns_bind:
  assumes "lruns l m" and "\<And>l'. m = Some l' \<Longrightarrow> linv l' \<Longrightarrow> lkeeps l l' \<Longrightarrow> lruns l' (f l')"
  shows "lruns l (Option.bind m f)"
proof -
  from assms(1) obtain l1 where "m = Some l1" "linv l1" "lkeeps l l1" by (rule lrunsE)
  with assms(2) [OF this] lruns_trans [of l l1] show ?thesis by simp
qed

lemma l_finalize_runs:
  assumes "good_lhooks n hk" and "linv l" and "lsize l < n"
  shows "lruns l (l_finalize hk l)"
proof (cases "lstate l \<noteq> KL_LISTENER_STATE_CLOSING \<or> in_start l > 0 \<or> in_dispatch l > 0 \<or> inflight l > 0 \<or> detached l")
  case True
  then have "l_finalize hk l = Some l" by (auto simp: l_finalize_def)
  then show ?thesis using assms(2) by simp
next
  case False
  define l1 where "l1 = l\<lparr>lstate := KL_LISTENER_STATE_CLOSED, detached := True\<rparr>"
  have k: "lkeeps l l1" using False by (auto simp: l1_def lkeeps_def l_closing_def)
  have e: "l_finalize hk l = (if on_close l1 \<noteq> NULL then map_option snd (hk On_close l1) else Some l1)"
    using False by (simp add: l_finalize_def l1_def Let_def)
  show ?thesis
  proof (cases "on_close l1 = NULL")
    case True
    then have "linv l1" using assms(2) False by (simp add: linv_def l1_def)
    then show ?thesis using e True k by simp
  next
    case on: False
    have "linv (llog_hook On_close l1)"
      using assms(2) False on by (simp add: linv_def l1_def llog_hook_def closes_def cancels_def kl_listener.truncate_def)
    then obtain r l2 where "hk On_close l1 = Some (r, l2)" "lhook_post On_close l1 r l2"
      using hooks_okD [OF assms(1), of On_close l1] assms(3) by (auto simp: lhook_pre_def l1_def)
    then show ?thesis using e on lkeeps_trans [OF k, of l2] by (simp add: lhook_post_def)
  qed
qed

lemma release_runs:
  assumes "good_lhooks n hk" and "linv (l\<lparr>released := released l + 1\<rparr>)" and "lsize l < n"
  shows "\<exists>l'. l_release_credit hk l = Some l' \<and> linv l' \<and> lkeeps l l' \<and>
    (lstate l' = KL_LISTENER_STATE_CLOSED \<longleftrightarrow> lstate l = KL_LISTENER_STATE_CLOSED) \<and>
    (lsize l' < lsize l \<or> inflight l' = inflight l \<and> lstate l' = lstate l \<and> pump_pending l' = pump_pending l)"
proof -
  define l1 where "l1 = l\<lparr>released := released l + 1\<rparr>"
  have i: "linv l1" "lsize l1 < n" "lkeeps l l1" using assms by (simp_all add: l1_def)
  show ?thesis
  proof (cases "release l1 = NULL")
    case True
    then show ?thesis using i by (auto simp: l_release_credit_def l1_def Let_def)
  next
    case False
    obtain r l2 where h: "hk Release (l1\<lparr>in_dispatch := in_dispatch l1 + 1\<rparr>) = Some (r, l2)" "linv l2"
      "lkeeps l1 (l2\<lparr>in_dispatch := in_dispatch l2 - 1\<rparr>)"
      "lstate l2 = KL_LISTENER_STATE_CLOSED \<longleftrightarrow> lstate l1 = KL_LISTENER_STATE_CLOSED" "progress l1 r l2"
      by (rule guarded_run [OF assms(1) i(1,2), of Release]) simp_all
    have "l_release_credit hk l = Some (l2\<lparr>in_dispatch := in_dispatch l2 - 1\<rparr>)"
      using False h(1) by (simp add: l_release_credit_def l1_def Let_def)
    then show ?thesis using h i(3) lkeeps_trans [OF i(3) h(3)] by (auto simp: progress_def l1_def)
  qed
qed

lemma dispose_runs:
  assumes "good_lhooks n hk" and "linv l" and "lsize l < n"
  shows "lruns l (l_dispose hk a l)"
proof -
  obtain r l1 where h: "hk (Dispose a) (l\<lparr>in_dispatch := in_dispatch l + 1\<rparr>) = Some (r, l1)" "linv l1"
    "lkeeps l (l1\<lparr>in_dispatch := in_dispatch l1 - 1\<rparr>)"
    by (rule guarded_run [OF assms, of "Dispose a"]) simp_all
  have "lsize l1 < n" using lkeepsD(10) [OF h(3)] assms(3) by simp
  then have "lruns (l1\<lparr>in_dispatch := in_dispatch l1 - 1\<rparr>) (l_finalize hk (l1\<lparr>in_dispatch := in_dispatch l1 - 1\<rparr>))"
    using h(2) by (intro l_finalize_runs [OF assms(1)]) simp_all
  then show ?thesis using lruns_trans [OF h(3)] h(1) by (simp add: l_dispose_def)
qed

lemma retire_inv:
  assumes "linv l" and "0 < inflight l"
  shows "linv (l\<lparr>inflight := inflight l - 1, released := released l + 1\<rparr>)"
    and "linv (l\<lparr>inflight := inflight l - 1, leased := leased l + 1\<rparr>)"
  using assms by (auto simp: linv_def)

lemma lkeeps_retire: "lkeeps l (l\<lparr>inflight := inflight l - 1\<rparr>)"
  by (simp add: lkeeps_def l_closing_def)

lemma return_credits_runs:
  assumes "good_lhooks n hk"
  shows "linv l \<Longrightarrow> lsize l < n \<Longrightarrow> l_closing l \<Longrightarrow> inflight l < k \<Longrightarrow> lruns l (l_return_credits k hk l)"
proof (induction k arbitrary: l)
  case (Suc k)
  show ?case
  proof (cases "inflight l > 0")
    case True
    define l1 where "l1 = l\<lparr>inflight := inflight l - 1\<rparr>"
    have "linv (l1\<lparr>released := released l1 + 1\<rparr>)" "lsize l1 < n"
      using retire_inv(1) [OF Suc.prems(1) True] Suc.prems(2) by (simp_all add: l1_def)
    from release_runs [OF assms this] obtain l2 where l2: "l_release_credit hk l1 = Some l2" "linv l2" "lkeeps l1 l2" by blast
    have k: "lkeeps l l2" using lkeeps_trans [OF lkeeps_retire l2(3) [unfolded l1_def]] .
    have "l_closing l2" "inflight l2 < k" "lsize l2 < n"
      using lkeepsD(7,10) [OF l2(3)] Suc.prems True by (auto simp: l1_def)
    with Suc.IH [OF l2(2)] k have "lruns l (l_return_credits k hk l2)" by (intro lruns_trans [OF k]) blast
    then show ?thesis using True l2(1) by (simp add: l1_def)
  qed (use Suc.prems in simp)
qed simp

lemma cancel_runs:
  assumes "good_lhooks n hk" and "linv l" and "lsize l < n" and "\<not> accept_cancel_requested l"
  obtains r l' where "hk Cancel_accept (l\<lparr>accept_cancel_requested := True, in_dispatch := in_dispatch l + 1\<rparr>) = Some (r, l')"
    and "linv l'" and "lkeeps l (l'\<lparr>in_dispatch := in_dispatch l' - 1\<rparr>)"
proof -
  define l0 where "l0 = l\<lparr>accept_cancel_requested := True\<rparr>"
  have "linv (llog_hook Cancel_accept (l0\<lparr>in_dispatch := in_dispatch l0 + 1\<rparr>))"
    using assms(2,4) by (simp add: l0_def linv_def llog_hook_def closes_def cancels_def)
  then obtain r l' where h: "hk Cancel_accept (l0\<lparr>in_dispatch := in_dispatch l0 + 1\<rparr>) = Some (r, l')"
    "lhook_post Cancel_accept (l0\<lparr>in_dispatch := in_dispatch l0 + 1\<rparr>) r l'"
    using hooks_okD [OF assms(1), of Cancel_accept "l0\<lparr>in_dispatch := in_dispatch l0 + 1\<rparr>"] assms(3)
    by (auto simp: lhook_pre_def l0_def)
  have "lkeeps l0 (l'\<lparr>in_dispatch := in_dispatch l' - 1\<rparr>)"
    using h(2) by (intro lkeeps_unguard(1)) (simp add: lhook_post_def)
  then show ?thesis using that [of r l'] h by (simp add: l0_def lhook_post_def)
qed

lemma disarm_runs:
  assumes "good_lhooks n hk" and "linv l" and "lsize l < n"
  shows "\<exists>l'. (if disarm_accept l \<noteq> NULL then map_option snd (hk Disarm_accept l) else Some l) = Some l' \<and>
    linv l' \<and> lkeeps l l' \<and>
    (lsize l' < lsize l \<or> inflight l' = inflight l \<and> lstate l' = lstate l \<and> pump_pending l' = pump_pending l)"
proof (cases "disarm_accept l = NULL")
  case False
  obtain r l' where "hk Disarm_accept l = Some (r, l')" "lhook_post Disarm_accept l r l'"
    by (rule lhook_run [OF assms, of Disarm_accept]) simp_all
  then show ?thesis using False by (auto simp: lhook_post_def progress_def)
qed (use assms in auto)

lemma begin_close_runs:
  assumes hk: "good_lhooks n hk" and i: "linv l" and n: "lsize l < n"
  shows "lruns l (l_begin_close hk l)"
proof -
  define l1 where "l1 = l\<lparr>lstate := KL_LISTENER_STATE_CLOSING\<rparr>"
  consider (closed) "lstate l = KL_LISTENER_STATE_CLOSED" | (closing) "lstate l = KL_LISTENER_STATE_CLOSING"
    | (live) "lstate l \<noteq> KL_LISTENER_STATE_CLOSED" "lstate l \<noteq> KL_LISTENER_STATE_CLOSING" by blast
  then show ?thesis
  proof cases
    case closed
    then show ?thesis using i by (simp add: l_begin_close_def)
  next
    case closing
    then show ?thesis using l_finalize_runs [OF assms] by (simp add: l_begin_close_def)
  next
    case live
    have i1: "linv l1" "lsize l1 < n" "lkeeps l l1" "l_closing l1"
      using i n live by (auto simp: l1_def linv_def lkeeps_def l_closing_def)
    define body where "body =
      (if inflight l1 > 0 then
         if \<not> completion_mode l1 then
           Option.bind (if disarm_accept l1 \<noteq> NULL then map_option snd (hk Disarm_accept l1) else Some l1)
             (\<lambda>l. l_return_credits (Suc (inflight l)) hk l)
         else if cancel_accept l1 \<noteq> NULL \<and> \<not> accept_cancel_requested l1 then
           Option.bind (hk Cancel_accept (l1\<lparr>accept_cancel_requested := True, in_dispatch := in_dispatch l1 + 1\<rparr>))
             (\<lambda>(r, l). Some (l\<lparr>in_dispatch := in_dispatch l - 1\<rparr>))
         else Some l1
       else Some l1)"
    have e: "l_begin_close hk l = Option.bind body (l_finalize hk)"
      using live by (simp add: l_begin_close_def body_def l1_def Let_def)
    have "lruns l1 body"
    proof (cases "inflight l1 > 0 \<and> \<not> completion_mode l1")
      case True
      obtain l2 where l2: "(if disarm_accept l1 \<noteq> NULL then map_option snd (hk Disarm_accept l1) else Some l1) = Some l2"
        "linv l2" "lkeeps l1 l2" using disarm_runs [OF hk i1(1,2)] by blast
      have "lruns l2 (l_return_credits (Suc (inflight l2)) hk l2)"
        using l2 i1 lkeepsD(7,10) [OF l2(3)] by (intro return_credits_runs [OF hk]) auto
      then show ?thesis using True l2(1) lruns_trans [OF l2(3)] unfolding body_def by simp
    next
      case no: False
      show ?thesis
      proof (cases "inflight l1 > 0 \<and> cancel_accept l1 \<noteq> NULL \<and> \<not> accept_cancel_requested l1")
        case True
        obtain r l2 where "hk Cancel_accept (l1\<lparr>accept_cancel_requested := True, in_dispatch := in_dispatch l1 + 1\<rparr>) = Some (r, l2)"
          "linv l2" "lkeeps l1 (l2\<lparr>in_dispatch := in_dispatch l2 - 1\<rparr>)"
          by (rule cancel_runs [OF hk i1(1,2)]) (use True in simp_all)
        then show ?thesis using True no unfolding body_def by simp
      next
        case False
        with no i1(1) show ?thesis unfolding body_def by auto
      qed
    qed
    then have "lruns l1 (l_begin_close hk l)"
      unfolding e by (rule lruns_bind) (use lkeepsD(10) i1(2) in \<open>force intro!: l_finalize_runs [OF hk]\<close>)
    then show ?thesis using lruns_trans [OF i1(3)] by blast
  qed
qed

section \<open>The pump\<close>

text \<open>
  What is left of the pump's work: each round uses a reaction of the script, posts one more accept, or
  answers a pending request.
\<close>

definition pump_measure :: "lworld \<Rightarrow> nat" where
  "pump_measure l = lsize l * (window l + 3) + (window l - inflight l) + (if pump_pending l then 1 else 0)"

lemma pump_measure_less:
  assumes "lsize l' < lsize l" and "window l' = window l"
  shows "pump_measure l' < pump_measure l"
proof -
  have "lsize l' * (window l + 3) + (window l + 3) \<le> lsize l * (window l + 3)"
    using mult_le_mono1 [of "Suc (lsize l')" "lsize l" "window l + 3"] assms(1) by simp
  moreover have "(if pump_pending l' then 1 else 0) \<le> (1 :: nat)" "window l - inflight l' \<le> window l" by simp_all
  ultimately show ?thesis unfolding pump_measure_def assms(2) by linarith
qed

lemma pump_measure_updates [simp]:
  "pump_measure (l\<lparr>last_error := i\<rparr>) = pump_measure l" "pump_measure (l\<lparr>pumping := b\<rparr>) = pump_measure l"
  "pump_measure (l\<lparr>in_start := x\<rparr>) = pump_measure l" "pump_measure (l\<lparr>acquired := x\<rparr>) = pump_measure l"
  by (simp_all add: pump_measure_def)

definition pump_ready :: "nat \<Rightarrow> nat \<Rightarrow> lworld \<Rightarrow> bool" where
  "pump_ready n k l \<longleftrightarrow> linv l \<and> lsize l < n \<and> lstate l \<noteq> KL_LISTENER_STATE_IDLE \<and> pump_measure l < k"

lemma pump_again_runs:
  assumes "\<And>l. pump_ready n k l \<Longrightarrow> lruns l (loop l)"
    and "linv l" and "lsize l < n" and "lstate l \<noteq> KL_LISTENER_STATE_IDLE" and "pump_measure l \<le> k"
  shows "lruns l (l_pump_again loop l)"
proof (cases "pump_pending l")
  case True
  have "pump_ready n k (l\<lparr>pump_pending := False\<rparr>)"
    using assms(2-5) True by (simp add: pump_ready_def pump_measure_def)
  then have "lruns (l\<lparr>pump_pending := False\<rparr>) (loop (l\<lparr>pump_pending := False\<rparr>))" by (rule assms(1))
  then have "lruns l (loop (l\<lparr>pump_pending := False\<rparr>))" by (simp add: lruns_def)
  then show ?thesis using True by (simp add: l_pump_again_def)
qed (use assms in \<open>simp add: l_pump_again_def\<close>)

lemma reserve_runs:
  assumes "good_lhooks n hk" and "linv l" and "lsize l < n"
  obtains r l1 where "l_reserve hk l = Some (r, l1\<lparr>acquired := acquired l1 + (if r = 1 then 1 else 0)\<rparr>)"
    and "linv l1" and "lkeeps l l1" and "r \<le> 1"
    and "lsize l1 < lsize l \<or> 0 \<le> r \<and> inflight l1 = inflight l \<and> lstate l1 = lstate l \<and> pump_pending l1 = pump_pending l"
proof (cases "reserve l = NULL")
  case True
  then show ?thesis by (intro that [of 1 l]) (use assms in \<open>simp_all add: l_reserve_def\<close>)
next
  case False
  obtain r l' where h: "hk Reserve (l\<lparr>in_dispatch := in_dispatch l + 1\<rparr>) = Some (r, l')" "linv l'"
    "lkeeps l (l'\<lparr>in_dispatch := in_dispatch l' - 1\<rparr>)" "progress l r l'" "Reserve = Reserve \<longrightarrow> r \<le> 1"
    by (rule guarded_run [OF assms, of Reserve]) simp_all
  show ?thesis
    by (rule that [of r "l'\<lparr>in_dispatch := in_dispatch l' - 1\<rparr>"])
      (use False h in \<open>auto simp: l_reserve_def progress_def\<close>)
qed

lemma l_pause_runs:
  assumes "good_lhooks n hk" and "linv l" and "lsize l < n" and "lstate l = KL_LISTENER_STATE_LISTENING"
  shows "\<exists>l'. l_pause hk l = Some l' \<and> linv l' \<and> lkeeps l l' \<and>
    (lsize l' < lsize l \<or> inflight l' = inflight l \<and> pump_pending l' = pump_pending l)"
proof -
  define l1 where "l1 = l\<lparr>lstate := KL_LISTENER_STATE_PAUSED\<rparr>"
  have i: "linv l1" "lsize l1 < n" "lkeeps l l1"
    using assms(2-4) by (auto simp: l1_def linv_def lkeeps_def l_closing_def)
  obtain l2 where l2: "(if disarm_accept l1 \<noteq> NULL then map_option snd (hk Disarm_accept l1) else Some l1) = Some l2"
    "linv l2" "lkeeps l1 l2"
    "lsize l2 < lsize l1 \<or> inflight l2 = inflight l1 \<and> lstate l2 = lstate l1 \<and> pump_pending l2 = pump_pending l1"
    using disarm_runs [OF assms(1) i(1,2)] by blast
  show ?thesis
  proof (cases "completion_mode l1")
    case True
    then show ?thesis using i by (auto simp: l_pause_def l1_def Let_def)
  next
    case False
    have "l_pause hk l = (if \<not> completion_mode l1 \<and> disarm_accept l1 \<noteq> NULL then map_option snd (hk Disarm_accept l1) else Some l1)"
      unfolding l_pause_def Let_def l1_def ..
    then have "l_pause hk l = Some l2" using l2(1) False by simp
    then show ?thesis using l2(2,4) lkeeps_trans [OF i(3) l2(3)] by (auto simp: l1_def)
  qed
qed

lemma post_failed_runs:
  assumes hk: "good_lhooks n hk" and i: "linv l" and n: "lsize l < n" and f: "inflight l = before + 1"
    and s: "lstate l = KL_LISTENER_STATE_LISTENING"
  shows "lruns l (l_post_failed hk rc before l)"
proof -
  define l1 where "l1 = l\<lparr>inflight := before, pumping := True\<rparr>"
  have "linv (l1\<lparr>released := released l1 + 1\<rparr>)" "lsize l1 < n" "lkeeps l l1"
    using i n f s by (auto simp: l1_def linv_def lkeeps_def l_closing_def)
  with release_runs [OF hk this(1,2)] obtain l2 where l2: "l_release_credit hk l1 = Some l2" "linv l2" "lkeeps l l2"
    using lkeeps_trans by blast
  define l3 where "l3 = l2\<lparr>pumping := False, pump_pending := False, last_error := rc\<rparr>"
  have l3: "linv l3" "lkeeps l l3" "lsize l3 < n" using l2 n lkeepsD(10) [OF l2(3)] by (simp_all add: l3_def)
  have e: "l_post_failed hk rc before l =
      (if rc = KL_LISTENER_ARM_RETRY then
         if inflight l3 = 0 \<and> lstate l3 = KL_LISTENER_STATE_LISTENING then l_pause hk l3 else Some l3
       else l_begin_close hk l3)"
    using l2(1) by (simp add: l_post_failed_def l1_def l3_def Let_def)
  have "lruns l3 (l_post_failed hk rc before l)"
    unfolding e using l_pause_runs [OF hk l3(1,3)] begin_close_runs [OF hk l3(1,3)] l3(1) by (auto simp: lruns_def)
  then show ?thesis by (rule lruns_trans [OF l3(2)])
qed

text \<open>The arm hook: what is posted before it and what is left after it.\<close>

lemma l_arm_runs:
  assumes hk: "good_lhooks n hk" and i: "linv l" and n: "lsize l < n" and s: "lstate l = KL_LISTENER_STATE_LISTENING"
  obtains rc l' where "hk Arm_accept (l\<lparr>acquired := acquired l + 1, inflight := inflight l + 1, pumping := True, in_start := in_start l + 1\<rparr>) = Some (rc, l')"
    and "linv l'" and "lkeeps l (l'\<lparr>in_start := in_start l' - 1, pumping := False\<rparr>)"
    and "lsize l' < lsize l \<or> rc = 0 \<and> inflight l' = inflight l + 1 \<and> lstate l' = lstate l \<and> pump_pending l' = pump_pending l"
    and "rc < 0 \<Longrightarrow> inflight l' = inflight l + 1 \<and> lstate l' = KL_LISTENER_STATE_LISTENING"
proof -
  define l1 where "l1 = l\<lparr>acquired := acquired l + 1, inflight := inflight l + 1, pumping := True, in_start := in_start l + 1\<rparr>"
  have "linv l1" "lsize l1 < n" using i n s by (auto simp: l1_def linv_def)
  then obtain rc l' where h: "hk Arm_accept l1 = Some (rc, l')" "lhook_post Arm_accept l1 rc l'"
    by (rule lhook_run [OF hk, of l1 Arm_accept]) simp_all
  have "lkeeps l (l'\<lparr>in_start := in_start l' - 1, pumping := False\<rparr>)"
    using h(2) s by (auto simp: lhook_post_def l1_def lkeeps_def l_closing_def)
  then show ?thesis
    using h s by (intro that [of rc l']) (auto simp: lhook_post_def progress_def l1_def)
qed

lemma pump_loop_runs:
  assumes hk: "good_lhooks n hk"
  shows "pump_ready n k l \<Longrightarrow> lruns l (l_pump_loop k hk l)"
proof (induction k arbitrary: l)
  case 0
  then show ?case by (simp add: pump_ready_def)
next
  case (Suc k)
  have again: "lruns l (l_pump_again (l_pump_loop k hk) l)"
    if "linv l" "lsize l < n" "lstate l \<noteq> KL_LISTENER_STATE_IDLE" "pump_measure l \<le> k" for l
    using that by (intro pump_again_runs [where n = n and k = k] Suc.IH)
  from Suc.prems have i: "linv l" and n: "lsize l < n" and ni: "lstate l \<noteq> KL_LISTENER_STATE_IDLE" and m: "pump_measure l \<le> k"
    by (simp_all add: pump_ready_def)
  have shorter: "pump_measure l' < pump_measure l \<and> lsize l' < n \<and> lstate l' \<noteq> KL_LISTENER_STATE_IDLE"
    if "lkeeps l l'" "lsize l' < lsize l" for l'
    using that pump_measure_less [of l' l] lkeepsD(6) [OF that(1) ni] n by simp
  have finish: "lruns l (Option.bind op (l_pump_again (l_pump_loop k hk)))"
    if "lruns l1 op" "lkeeps l l1" "lsize l1 < lsize l" for op l1
  proof (rule lruns_trans [OF that(2) lruns_bind [OF that(1)]])
    fix l'
    assume l': "linv l'" "lkeeps l1 l'"
    have "lkeeps l l'" "lsize l' < lsize l" using lkeeps_trans [OF that(2) l'(2)] lkeepsD(10) [OF l'(2)] that(3) by simp_all
    note sh = shorter [OF this]
    then have "pump_measure l' \<le> k" using m by linarith
    with sh l'(1) show "lruns l' (l_pump_again (l_pump_loop k hk) l')" by (intro again) blast+
  qed
  show ?case
  proof (cases "lstate l = KL_LISTENER_STATE_LISTENING \<and> inflight l < window l")
    case False
    then have "l_pump_loop (Suc k) hk l = l_pump_again (l_pump_loop k hk) l" by auto
    then show ?thesis using again [OF i n ni m] by simp
  next
    case c: True
    obtain r l1 where r: "l_reserve hk l = Some (r, l1\<lparr>acquired := acquired l1 + (if r = 1 then 1 else 0)\<rparr>)"
      and l1: "linv l1" "lkeeps l l1" "r \<le> 1"
      and p: "lsize l1 < lsize l \<or> 0 \<le> r \<and> inflight l1 = inflight l \<and> lstate l1 = lstate l \<and> pump_pending l1 = pump_pending l"
      by (rule reserve_runs [OF hk i n])
    have n1: "lsize l1 < n" using lkeepsD(10) [OF l1(2)] n by simp
    have w1: "window l1 = window l" using lkeepsD(6) [OF l1(2) ni] by simp
    consider (error) "r < 0" | (closed) "0 \<le> r" "lstate l1 \<noteq> KL_LISTENER_STATE_LISTENING"
      | (empty) "r = 0" "lstate l1 = KL_LISTENER_STATE_LISTENING" | (credit) "r = 1" "lstate l1 = KL_LISTENER_STATE_LISTENING"
      using l1(3) by linarith
    then show ?thesis
    proof cases
      case error
      have "lruns l1 (l_begin_close hk (l1\<lparr>last_error := -1\<rparr>))"
        using begin_close_runs [OF hk, of "l1\<lparr>last_error := -1\<rparr>"] l1(1) n1 by (simp add: lruns_def)
      from finish [OF this l1(2)] p error show ?thesis using c r by simp
    next
      case closed
      have s: "lsize l1 < lsize l" using p closed c by auto
      have "lruns l1 (if r = 1 then l_release_credit hk (l1\<lparr>acquired := acquired l1 + 1\<rparr>) else Some l1)"
      proof (cases "r = 1")
        case True
        have "linv (l1\<lparr>acquired := acquired l1 + 1, released := released l1 + 1\<rparr>)" using l1(1) by (simp add: linv_def)
        with release_runs [OF hk, of "l1\<lparr>acquired := acquired l1 + 1\<rparr>"] n1 True show ?thesis by (auto simp: lruns_def)
      qed (use l1 in simp)
      from finish [OF this l1(2) s] closed show ?thesis using c r l1(3) by auto
    next
      case empty
      have "\<exists>l2. (if inflight l1 = 0 then l_pause hk l1 else Some l1) = Some l2 \<and> linv l2 \<and> lkeeps l1 l2 \<and>
          (lsize l2 < lsize l1 \<or> inflight l2 = inflight l1 \<and> pump_pending l2 = pump_pending l1)"
        using l_pause_runs [OF hk l1(1) n1 empty(2)] l1(1) by auto
      then obtain l2 where l2: "(if inflight l1 = 0 then l_pause hk l1 else Some l1) = Some l2" "linv l2" "lkeeps l1 l2"
        "lsize l2 < lsize l1 \<or> inflight l2 = inflight l1 \<and> pump_pending l2 = pump_pending l1" by blast
      have k2: "lkeeps l l2" using lkeeps_trans [OF l1(2) l2(3)] .
      have w2: "window l2 = window l" "lstate l2 \<noteq> KL_LISTENER_STATE_IDLE" "lsize l2 \<le> lsize l" "lsize l2 \<le> lsize l1" "lsize l1 \<le> lsize l"
        using lkeepsD(6,10) [OF k2] ni lkeepsD(10) [OF l2(3)] lkeepsD(10) [OF l1(2)] by auto
      have "pump_measure l2 \<le> pump_measure l"
      proof (cases "lsize l2 < lsize l")
        case True
        then show ?thesis using shorter [OF k2] by simp
      next
        case False
        then have "inflight l2 = inflight l" "pump_pending l2 = pump_pending l" "lsize l2 = lsize l"
          using p l2(4) w2 by auto
        then show ?thesis using w2 by (simp add: pump_measure_def)
      qed
      then have "lruns l2 (l_pump_again (l_pump_loop k hk) l2)" using l2(2) w2 n m by (intro again) auto
      then have "lruns l (l_pump_again (l_pump_loop k hk) l2)" by (rule lruns_trans [OF k2])
      moreover have "l_pump_loop (Suc k) hk l = l_pump_again (l_pump_loop k hk) l2"
        using c r empty l2(1) by simp
      ultimately show ?thesis by simp
    next
      case credit
      obtain rc l3 where a: "hk Arm_accept (l1\<lparr>acquired := acquired l1 + 1, inflight := inflight l1 + 1, pumping := True, in_start := in_start l1 + 1\<rparr>) = Some (rc, l3)"
        and l3: "linv l3" "lkeeps l1 (l3\<lparr>in_start := in_start l3 - 1, pumping := False\<rparr>)"
        and q: "lsize l3 < lsize l1 \<or> rc = 0 \<and> inflight l3 = inflight l1 + 1 \<and> lstate l3 = lstate l1 \<and> pump_pending l3 = pump_pending l1"
        and f: "rc < 0 \<Longrightarrow> inflight l3 = inflight l1 + 1 \<and> lstate l3 = KL_LISTENER_STATE_LISTENING"
        by (rule l_arm_runs [OF hk l1(1) n1 credit(2)]) blast
      define l4 where "l4 = l3\<lparr>in_start := in_start l3 - 1, pumping := False\<rparr>"
      have l4: "linv l4" "lkeeps l1 l4" "lkeeps l l4" using l3 lkeeps_trans [OF l1(2)] by (simp_all add: l4_def)
      have s4: "lsize l4 = lsize l3" "inflight l4 = inflight l3" "lstate l4 = lstate l3" "pump_pending l4 = pump_pending l3"
        by (simp_all add: l4_def)
      have e: "l_pump_loop (Suc k) hk l =
          (if inflight l4 = inflight l1 then l_pump_loop k hk l4
           else if rc < 0 then Option.bind (l_post_failed hk rc (inflight l1) l4) (l_pump_again (l_pump_loop k hk))
           else l_pump_loop k hk l4)"
        using c r credit a by (simp add: l4_def Let_def)
      show ?thesis
      proof (cases "rc < 0 \<and> inflight l4 \<noteq> inflight l1")
        case True
        have "lsize l4 < lsize l1" using q s4 True by auto
        then have s: "lsize l4 < lsize l" using lkeepsD(10) [OF l1(2)] by simp
        have "lruns l4 (l_post_failed hk rc (inflight l1) l4)"
          using f True s4 l4(1) n s by (intro post_failed_runs [OF hk]) auto
        from finish [OF this l4(3) s] show ?thesis using e True by simp
      next
        case False
        have "pump_measure l4 < pump_measure l"
        proof (cases "lsize l4 < lsize l")
          case True
          then show ?thesis using shorter [OF l4(3)] by simp
        next
          case same: False
          then have "inflight l4 = inflight l + 1" "pump_pending l4 = pump_pending l" "lsize l4 = lsize l"
            using p q s4 lkeepsD(10) [OF l1(2)] lkeepsD(10) [OF l4(2)] by auto
          moreover have "window l4 = window l" using lkeepsD(6) [OF l4(3) ni] by simp
          moreover have "window l - (inflight l + 1) < window l - inflight l" using c by linarith
          ultimately show ?thesis unfolding pump_measure_def
            by (simp only: add_less_cancel_left add_less_cancel_right)
        qed
        then have "pump_ready n k l4"
          using l4(1) lkeepsD(6) [OF l4(3) ni] lkeepsD(10) [OF l4(3)] n m by (simp add: pump_ready_def)
        from lruns_trans [OF l4(3) Suc.IH [OF this]] show ?thesis using e False by auto
      qed
    qed
  qed
qed

lemma l_pump_runs:
  assumes hk: "good_lhooks n hk" and i: "linv l" and n: "lsize l < n" and s: "lstate l \<noteq> KL_LISTENER_STATE_IDLE"
  shows "lruns l (l_pump n hk l)"
proof (cases "pumping l")
  case True
  then show ?thesis using i by (simp add: l_pump_def)
next
  case False
  define l1 where "l1 = l\<lparr>pump_pending := False\<rparr>"
  have "(lsize l + 1) * (window l + 3) \<le> n * (4 * window l + 8)" using n by (intro mult_le_mono) simp_all
  then have "pump_measure l1 < pump_fuel n l" by (simp add: pump_measure_def pump_fuel_def l1_def)
  then have "pump_ready n (pump_fuel n l) l1" using i n s by (simp add: pump_ready_def l1_def)
  from pump_loop_runs [OF hk this] have "lruns l (l_pump_loop (pump_fuel n l) hk l1)" by (simp add: lruns_def l1_def)
  then have "lruns l (Option.bind (l_pump_loop (pump_fuel n l) hk l1) (l_finalize hk))"
    by (rule lruns_bind) (use lkeepsD(10) n in \<open>force intro!: l_finalize_runs [OF hk]\<close>)
  then show ?thesis using False by (simp add: l_pump_def l1_def)
qed

section \<open>The public functions\<close>

lemma inflight_not_idle: "linv l \<Longrightarrow> 0 < inflight l \<Longrightarrow> lstate l \<noteq> KL_LISTENER_STATE_IDLE"
  by (auto simp: linv_def)

lemma on_accept_failed_runs:
  assumes hk: "good_lhooks n hk" and i: "linv l" and n: "lsize l < n"
  shows "lruns l (kl_listener_on_accept_failed n hk err l)"
proof (cases "inited l \<and> 0 < inflight l")
  case True
  define l1 where "l1 = l\<lparr>inflight := inflight l - 1, last_error := err\<rparr>"
  have "linv (l1\<lparr>released := released l1 + 1\<rparr>)" using retire_inv(1) [OF i] True by (simp add: l1_def linv_def)
  from release_runs [OF hk this] n obtain l2 where l2: "l_release_credit hk l1 = Some l2" "linv l2" "lkeeps l1 l2"
    by (auto simp: l1_def)
  have k: "lkeeps l l2" using lkeeps_trans [OF lkeeps_retire, of l l2] l2(3) by (simp add: l1_def)
  have "lsize l2 < n" "lstate l2 \<noteq> KL_LISTENER_STATE_IDLE"
    using lkeepsD(6,10) [OF k] inflight_not_idle [OF i] True n by auto
  then have "lruns l2 (if l_closing l2 then l_finalize hk l2 else l_pump n hk l2)"
    using l_finalize_runs [OF hk l2(2)] l_pump_runs [OF hk l2(2)] by simp
  from lruns_trans [OF k this] show ?thesis
    using True l2(1) by (simp add: kl_listener_on_accept_failed_def l1_def)
qed (use i in \<open>auto simp: kl_listener_on_accept_failed_def\<close>)

lemma on_accepted_runs:
  assumes hk: "good_lhooks n hk" and i: "linv l" and n: "lsize l < n"
  shows "lruns l (l_on_accepted n hk a l)"
proof (cases "0 < inflight l")
  case False
  then show ?thesis using dispose_runs [OF assms] by (simp add: l_on_accepted_def)
next
  case True
  define l1 where "l1 = l\<lparr>inflight := inflight l - 1\<rparr>"
  have k1: "lkeeps l l1" unfolding l1_def by (rule lkeeps_retire)
  show ?thesis
  proof (cases "l_closing l1")
    case closing: True
    have "linv (l1\<lparr>released := released l1 + 1\<rparr>)" using retire_inv(1) [OF i True] by (simp add: l1_def)
    from release_runs [OF hk this] n obtain l2 where l2: "l_release_credit hk l1 = Some l2" "linv l2" "lkeeps l1 l2"
      by (auto simp: l1_def)
    have k: "lkeeps l l2" using lkeeps_trans [OF k1 l2(3)] .
    have "lruns l2 (l_dispose hk a l2)" using lkeepsD(10) [OF k] n l2(2) by (intro dispose_runs [OF hk]) auto
    from lruns_trans [OF k this] show ?thesis
      using True closing l2(1) by (simp add: l_on_accepted_def l1_def Let_def)
  next
    case False
    define lease where "lease = \<lparr>lease_release = release l1, release_ctx = credit_ctx l1, alive = liveness l1\<rparr>"
    define l2 where "l2 = l1\<lparr>leased := leased l1 + 1\<rparr>"
    have l2: "linv l2" "lsize l2 < n" "lkeeps l l2"
      using retire_inv(2) [OF i True] n k1 by (simp_all add: l2_def l1_def)
    obtain r l3 where h: "hk (On_accept a lease) (l2\<lparr>in_dispatch := in_dispatch l2 + 1\<rparr>) = Some (r, l3)" "linv l3"
      "lkeeps l2 (l3\<lparr>in_dispatch := in_dispatch l3 - 1\<rparr>)"
      by (rule guarded_run [OF hk l2(1,2), of "On_accept a lease"]) simp_all
    define l4 where "l4 = l3\<lparr>in_dispatch := in_dispatch l3 - 1\<rparr>"
    have k: "lkeeps l l4" "linv l4" using lkeeps_trans [OF l2(3) h(3)] h(2) by (simp_all add: l4_def)
    have "lruns l4 (l_pump n hk l4)"
      using lkeepsD(6,10) [OF k(1)] inflight_not_idle [OF i True] n k(2) by (intro l_pump_runs [OF hk]) auto
    moreover have "l2\<lparr>in_dispatch := in_dispatch l2 + 1\<rparr> = l1\<lparr>in_dispatch := in_dispatch l1 + 1, leased := leased l1 + 1\<rparr>"
      unfolding l2_def by (cases l1) simp
    then have "l_on_accepted n hk a l = l_pump n hk l4"
      using True False h(1) unfolding l_on_accepted_def Let_def l1_def [symmetric] lease_def [symmetric] by (simp add: l4_def)
    ultimately show ?thesis using lruns_trans [OF k(1)] by simp
  qed
qed

lemma l_notify_runs:
  assumes hk: "good_lhooks n hk" and i: "linv l" and n: "lsize l < n"
  shows "lruns l (kl_listener_notify_slot_free n hk l)"
proof -
  define l1 where "l1 = (if lstate l = KL_LISTENER_STATE_PAUSED then l\<lparr>lstate := KL_LISTENER_STATE_LISTENING\<rparr> else l)"
  have l1: "linv l1" "lkeeps l l1" "lsize l1 < n" using i n by (auto simp: l1_def linv_def lkeeps_def l_closing_def)
  have "kl_listener_notify_slot_free n hk l =
      (if \<not> inited l then Some l else if lstate l1 \<noteq> KL_LISTENER_STATE_LISTENING then Some l1 else l_pump n hk l1)"
    by (simp add: kl_listener_notify_slot_free_def l1_def Let_def)
  moreover have "lruns l (l_pump n hk l1)" if "lstate l1 = KL_LISTENER_STATE_LISTENING"
    using lruns_trans [OF l1(2) l_pump_runs [OF hk l1(1,3)]] that by simp
  ultimately show ?thesis using i l1 by simp
qed

definition aruns :: "lworld \<Rightarrow> (int \<times> lworld) option \<Rightarrow> bool" where
  "aruns l m \<longleftrightarrow> (\<exists>r l'. m = Some (r, l') \<and> linv l' \<and> lkeeps l l')"

lemma aruns_void: "lruns l m \<Longrightarrow> aruns l (map_option (Pair r) m)"
  by (auto simp: lruns_def aruns_def)

lemma start_runs:
  assumes hk: "good_lhooks n hk" and i: "linv l" and n: "lsize l < n"
  shows "aruns l (kl_listener_start n hk l)"
proof (cases "inited l \<and> lstate l = KL_LISTENER_STATE_IDLE")
  case True
  define l1 where "l1 = l\<lparr>lstate := KL_LISTENER_STATE_LISTENING\<rparr>"
  have l1: "linv l1" "lkeeps l l1" "lsize l1 < n" using i n True by (auto simp: l1_def linv_def lkeeps_def l_closing_def)
  then have "lruns l (l_pump n hk l1)"
    using lruns_trans [OF l1(2) l_pump_runs [OF hk l1(1,3)]] by (simp add: l1_def)
  then show ?thesis using True by (auto simp: kl_listener_start_def aruns_def lruns_def l1_def)
qed (use i in \<open>auto simp: kl_listener_start_def aruns_def\<close>)

lemma set_window_runs: "linv l \<Longrightarrow> aruns l (Some (kl_listener_set_accept_window w l))"
  by (auto simp: kl_listener_set_accept_window_def aruns_def linv_def lkeeps_def l_closing_def)

lemma listener_api_runs:
  assumes hk: "good_lhooks n hk" and i: "linv l" and n: "lsize l < n"
  shows "aruns l (listener_api hk n c l)"
proof (cases c)
  case (Set_accept_window w)
  then show ?thesis using set_window_runs [OF i] by simp
next
  case Start
  then show ?thesis using start_runs [OF assms] by simp
next
  case (On_accepted fd)
  have "lruns l (kl_listener_on_accepted n hk fd l)"
    using on_accepted_runs [OF assms] on_accept_failed_runs [OF assms] i by (simp add: kl_listener_on_accepted_def)
  then show ?thesis using On_accepted by (simp add: aruns_void)
next
  case (On_accepted_obj conn)
  have "lruns l (kl_listener_on_accepted_obj n hk conn l)"
    using on_accepted_runs [OF assms] on_accept_failed_runs [OF assms] i by (simp add: kl_listener_on_accepted_obj_def)
  then show ?thesis using On_accepted_obj by (simp add: aruns_void)
next
  case (On_accept_failed err)
  then show ?thesis using on_accept_failed_runs [OF assms] by (simp add: aruns_void)
next
  case Notify_slot_free
  then show ?thesis using l_notify_runs [OF assms] by (simp add: aruns_void)
next
  case Close
  then show ?thesis using begin_close_runs [OF assms] i by (auto simp: kl_listener_close_def aruns_def lruns_def)
qed

section \<open>The reentrant system\<close>

lemma listener_enter_ok:
  assumes "lhook_pre h l" and "listener_enter h l = ((cs, r), l1)"
  shows "linv l1 \<and> (cs = [] \<or> lsize l1 < lsize l)"
proof (cases "script l")
  case Nil
  then show ?thesis using assms by (auto simp: listener_enter_def lhook_pre_def)
next
  case (Cons f fs)
  then have "l1 = (llog_hook h l)\<lparr>script := fs\<rparr>" using assms(2) by (simp add: listener_enter_def)
  then show ?thesis using assms(1) Cons by (simp add: lhook_pre_def linv_def llog_hook_def)
qed

lemma listener_leave_ok:
  assumes "lhook_pre h l" and "listener_enter h l = ((cs, r), l1)" and "linv l2" and "lkeeps l1 l2" and "cs = [] \<Longrightarrow> l2 = l1"
  shows "lhook_post h l r (listener_leave h l2)"
proof -
  define l' where "l' = listener_leave h l2"
  have i: "linv l'" using assms(3) by (simp add: l'_def listener_leave_def)
  show ?thesis
  proof (cases "script l")
    case Nil
    then have e: "l1 = llog_hook h l" "cs = []" "r = 0" using assms(2) by (simp_all add: listener_enter_def)
    then have "l2 = llog_hook h l" using assms(5) by simp
    then show ?thesis using i e(3)
      by (simp add: lhook_post_def progress_def l'_def listener_leave_def llog_hook_def lkeeps_def l_closing_def)
  next
    case (Cons f fs)
    then have e: "l1 = (llog_hook h l)\<lparr>script := fs\<rparr>" "cs = fst (f h)" "r = snd (f h)"
      using assms(2) by (cases "f h"; simp add: listener_enter_def)+
    have p: "polite f" using assms(1) Cons by (simp add: lhook_pre_def linv_def llog_hook_def)
    have "lkeeps l l'" using assms(4) Cons by (auto simp: e(1) l'_def listener_leave_def llog_hook_def lkeeps_def l_closing_def)
    moreover have "lsize l' < lsize l" using lkeepsD(10) [OF assms(4)] Cons by (simp add: e(1) l'_def listener_leave_def)
    moreover have "h = Reserve \<longrightarrow> r \<le> 1" using p e(3) by (auto simp: polite_def)
    moreover have "inflight l' = inflight l \<and> lstate l' = lstate l" if "h = Arm_accept" "r < 0"
    proof -
      have "l2 = l1" using p that e assms(5) by (simp add: polite_def)
      then show ?thesis by (simp add: e(1) l'_def listener_leave_def llog_hook_def)
    qed
    ultimately show ?thesis using i by (auto simp: lhook_post_def progress_def l'_def)
  qed
qed

interpretation lr: reentrant listener_api listener_enter listener_leave linv lkeeps lhook_pre lhook_post "\<lambda>c l. True" lsize
proof
  show "hooks_ok lhook_pre lhook_post lsize n hk \<Longrightarrow> linv w \<Longrightarrow> lsize w < n \<Longrightarrow> True \<Longrightarrow>
      \<exists>r w'. listener_api hk n c w = Some (r, w') \<and> linv w' \<and> lkeeps w w'" for n hk w c
    using listener_api_runs [of n hk w c] by (simp add: aruns_def)
  show "lhook_pre h w \<Longrightarrow> listener_enter h w = ((cs, r), w1) \<Longrightarrow> linv w1 \<and> (cs = [] \<or> lsize w1 < lsize w) \<and> (\<forall>c \<in> set cs. True)"
    for h w cs r w1 using listener_enter_ok by blast
  show "lhook_pre h w \<Longrightarrow> listener_enter h w = ((cs, r), w1) \<Longrightarrow> linv w2 \<Longrightarrow> lkeeps w1 w2 \<Longrightarrow>
      (cs = [] \<Longrightarrow> w2 = w1) \<Longrightarrow> lhook_post h w r (listener_leave h w2)" for h w cs r w1 w2
    by (rule listener_leave_ok)
  show "lkeeps w w1 \<Longrightarrow> lkeeps w1 w2 \<Longrightarrow> lkeeps w w2" for w w1 w2 by (rule lkeeps_trans)
qed (simp_all add: lkeeps_def)

section \<open>Properties\<close>

text \<open>A listener as its initialiser leaves it, with the script of its hooks.\<close>

definition listener_open :: "kl_listener \<Rightarrow> (lhook \<Rightarrow> lcall list \<times> int) list \<Rightarrow> lworld" where
  "listener_open k sc = kl_listener.extend k (lworld.fields sc [] [] 0 0 0)"

lemma listener_open_inv:
  assumes "kl_listener_init completion h = (0, Some k)" and "list_all polite sc"
  shows "linv (listener_open k sc) \<and> lsize (listener_open k sc) = length sc \<and> on_close (listener_open k sc) = h_on_close h"
  using assms
  by (auto simp: kl_listener_init_def listener_open_def linv_def closes_def cancels_def zero_listener_def
      lworld.defs kl_listener.defs Let_def split: if_splits)


definition demo_lhooks :: listener_hooks where
  "demo_lhooks = \<lparr>h_reserve = 1, h_release = 2, h_credit_ctx = 0, h_liveness = 0, h_arm_accept = 3, h_disarm_accept = 4,
     h_cancel_accept = 0, h_on_accept = 5, h_dispose_fd = 6, h_on_close = 7, h_on_accept_obj = 0, h_dispose_obj = 0\<rparr>"

definition demo_listener :: kl_listener where
  "demo_listener = the (snd (kl_listener_init False demo_lhooks))"

text \<open>The pool grants a credit, the accept is posted, a second credit is granted, and the owner closes meanwhile.\<close>

definition demo_script :: "(lhook \<Rightarrow> lcall list \<times> int) list" where
  "demo_script = [(\<lambda>h. ([], 1)), (\<lambda>h. ([], 0)), (\<lambda>h. ([Close], 0)), (\<lambda>h. ([], 0))]"


text \<open>
  A completion listener with a window of three whose third arm finds the transport going down: it closes the
  listener, whose cancel completes the two posted accepts inline, and reports that it posted nothing.
\<close>

definition failing_lhooks :: listener_hooks where
  "failing_lhooks = \<lparr>h_reserve = 0, h_release = 0, h_credit_ctx = 0, h_liveness = 0, h_arm_accept = 1, h_disarm_accept = 0,
     h_cancel_accept = 2, h_on_accept = 3, h_dispose_fd = 4, h_on_close = 5, h_on_accept_obj = 0, h_dispose_obj = 0\<rparr>"

definition failing_script :: "(lhook \<Rightarrow> lcall list \<times> int) list" where
  "failing_script = [(\<lambda>h. ([], 0)), (\<lambda>h. ([], 0)), (\<lambda>h. ([Close], -1)),
     (\<lambda>h. ([On_accept_failed (-1), On_accept_failed (-1)], 0))]"


end
