(* ===== verification/Cstr.thy ===== *)
theory Cstr
  imports Keel_Prelude "HOL-Library.Sublist"
begin

text \<open>
  The string primitives of \<open>src/kl_cstr.c\<close>, which stand in for the C library's \<open>strcasecmp\<close>, \<open>strtol\<close>,
  \<open>snprintf\<close>, \<open>strchr\<close> and \<open>strstr\<close>.

  A pointer into a C string is the rest of the string from there, so that \<open>*s\<close> is \<open>peek s\<close> (NUL at the
  end) and \<open>s++\<close> is \<open>tl s\<close>; a pointer returned into an argument is its offset. A character buffer of
  capacity \<open>cap\<close> is the list of its \<open>cap\<close> characters.
\<close>

unbundle bit_operations_syntax

section \<open>Bits\<close>

lemma nat_or_push_bit:
  assumes "d < 2 ^ k"
  shows "push_bit k (a :: nat) OR d = a * 2 ^ k + d"
proof -
  have "take_bit k d = d" using assms by (simp add: take_bit_eq_mod)
  then have "\<not> bit d n" if "k \<le> n" for n using that by (metis bit_take_bit_iff not_le)
  then have "push_bit k a AND d = 0" by (auto simp: bit_eq_iff bit_and_iff bit_push_bit_iff)
  then have "push_bit k a + d = push_bit k a OR d" by (rule disjunctive_add_eq_or)
  then show ?thesis by (simp add: push_bit_eq_mult)
qed

lemma unat_drop_bit: "unat (drop_bit k (w :: 'a::len word)) = unat w div 2 ^ k"
proof -
  have "take_bit LENGTH('a) (unat w) = unat w" using unsigned_less [of w, where ?'a = nat] by (simp add: take_bit_nat_eq_self)
  then show ?thesis by (simp add: unsigned_drop_bit_eq drop_bit_eq_div [of k "unat w"])
qed

section \<open>Characters\<close>

abbreviation (input) NUL :: char where "NUL \<equiv> CHR 0x00"

abbreviation uchar :: "char \<Rightarrow> nat" where "uchar c \<equiv> of_char c"

fun peek :: "string \<Rightarrow> char" where
  "peek [] = NUL"
| "peek (c # s) = c"

definition cstring :: "string \<Rightarrow> bool" where
  "cstring s \<longleftrightarrow> NUL \<notin> set s"

lemma uchar_eq_0 [simp]: "uchar c = 0 \<longleftrightarrow> c = NUL"
  using of_char_eq_iff [of c NUL, where ?'a = nat] by simp

lemma uchar_char_of [simp]: "n < 256 \<Longrightarrow> uchar (char_of n) = n"
  by simp

lemma cstring_simps [simp]:
  "cstring []" "cstring (c # s) \<longleftrightarrow> c \<noteq> NUL \<and> cstring s" "cstring (s @ t) \<longleftrightarrow> cstring s \<and> cstring t"
  by (auto simp: cstring_def)

lemma cstring_tl: "cstring s \<Longrightarrow> cstring (tl s)"
  by (cases s) simp_all

lemma peek_NUL: "cstring s \<Longrightarrow> peek s = NUL \<longleftrightarrow> s = []"
  by (cases s) simp_all

lemma peek_NUL_ne: "peek s \<noteq> NUL \<Longrightarrow> s \<noteq> []"
  by auto

section \<open>Case-insensitive comparison\<close>

definition ascii_lower :: "nat \<Rightarrow> nat" where
  "ascii_lower c = (if uchar CHR ''A'' \<le> c \<and> c \<le> uchar CHR ''Z'' then c - uchar CHR ''A'' + uchar CHR ''a'' else c)"

function kl_ascii_strcasecmp :: "string \<Rightarrow> string \<Rightarrow> int" where
  "kl_ascii_strcasecmp a b =
     (let ca = ascii_lower (uchar (peek a)); cb = ascii_lower (uchar (peek b))
      in if ca \<noteq> cb then int ca - int cb
         else if ca = 0 then 0
         else kl_ascii_strcasecmp (tl a) (tl b))"
  by pat_completeness auto
termination
proof (relation "measure (\<lambda>(a, b). length a)", simp)
  fix a b :: string and x y
  assume "x = ascii_lower (uchar (peek a))" and "y = ascii_lower (uchar (peek b))" and "\<not> x \<noteq> y" and "x \<noteq> 0"
  then have "a \<noteq> []" by (auto simp: ascii_lower_def)
  then show "((tl a, tl b), a, b) \<in> measure (\<lambda>(a, b). length a)" by simp
qed

declare kl_ascii_strcasecmp.simps [simp del]

fun kl_ascii_strncasecmp :: "string \<Rightarrow> string \<Rightarrow> nat \<Rightarrow> int" where
  "kl_ascii_strncasecmp a b 0 = 0"
| "kl_ascii_strncasecmp a b (Suc n) =
     (let ca = ascii_lower (uchar (peek a)); cb = ascii_lower (uchar (peek b))
      in if ca \<noteq> cb then int ca - int cb
         else if ca = 0 then 0
         else kl_ascii_strncasecmp (tl a) (tl b) n)"

section \<open>Numbers\<close>

text \<open>The loop of \<open>kl_parse_u16_decimal\<close>; \<open>v\<close> is the \<open>uint32_t\<close> accumulator.\<close>

fun u16_loop :: "string \<Rightarrow> nat \<Rightarrow> nat option" where
  "u16_loop [] v = Some v"
| "u16_loop (c # s) v =
     (if uchar c < uchar CHR ''0'' \<or> uchar c > uchar CHR ''9'' then None
      else let v' = (v * 10 + (uchar c - uchar CHR ''0'')) mod 2 ^ 32
           in if v' > 65535 then None else u16_loop s v')"

definition kl_parse_u16_decimal :: "string \<Rightarrow> nat option" where
  "kl_parse_u16_decimal s = (if s = [] then None else u16_loop s 0)"

lemma unat_u64_div10: "unat ((v :: u64) div 10) = unat v div 10"
  by (simp add: unat_div)

lemma unat_u64_shr4: "unat (drop_bit 4 (v :: u64)) = unat v div 16"
  by (simp add: drop_bit_eq_div unat_div)

text \<open>The digits of the two formatting routines, least significant first, as their \<open>tmp\<close> array holds them.\<close>

function dec_tmp :: "u64 \<Rightarrow> string" where
  "dec_tmp v = char_of (uchar CHR ''0'' + unat (v mod 10)) # (if v div 10 \<noteq> 0 then dec_tmp (v div 10) else [])"
  by pat_completeness auto
termination
proof (relation "measure unat", simp)
  fix v :: u64
  assume "v div 10 \<noteq> 0"
  then have "unat (v div 10) \<noteq> 0" by (simp only: unat_eq_zero not_False_eq_True)
  then show "(v div 10, v) \<in> measure unat" by (simp add: unat_u64_div10)
qed

definition kl_u64_to_dec :: "nat \<Rightarrow> u64 \<Rightarrow> string" where
  "kl_u64_to_dec cap v = (let tmp = dec_tmp v in if length tmp > cap then [] else rev tmp)"

definition hexd :: string where "hexd = ''0123456789abcdef''"

function hex_tmp :: "u64 \<Rightarrow> string" where
  "hex_tmp v = hexd ! unat (v AND 15) # (if drop_bit 4 v \<noteq> 0 then hex_tmp (drop_bit 4 v) else [])"
  by pat_completeness auto
termination
proof (relation "measure unat", simp)
  fix v :: u64
  assume "drop_bit 4 v \<noteq> 0"
  then have "unat (drop_bit 4 v) \<noteq> 0" by (simp only: unat_eq_zero not_False_eq_True)
  then show "(drop_bit 4 v, v) \<in> measure unat" by (simp add: unat_u64_shr4)
qed

definition kl_u64_to_hex :: "nat \<Rightarrow> u64 \<Rightarrow> string" where
  "kl_u64_to_hex cap v = (let tmp = hex_tmp v in if length tmp > cap then [] else rev tmp)"

declare dec_tmp.simps [simp del] hex_tmp.simps [simp del]

section \<open>Bounded append\<close>

text \<open>The result is the return value, the buffer and \<open>*off\<close>.\<close>

definition kl_buf_append_n :: "string \<Rightarrow> nat \<Rightarrow> nat \<Rightarrow> string \<Rightarrow> int \<times> string \<times> nat" where
  "kl_buf_append_n buf cap off s =
     (let len = length s
      in if off > cap \<or> len > cap - off then (-1, buf, off)
         else if len = cap - off then (-1, buf, off)
         else let buf1 = take off buf @ s @ drop (off + len) buf
              in (0, buf1[off + len := NUL], off + len))"

definition kl_buf_append :: "string \<Rightarrow> nat \<Rightarrow> nat \<Rightarrow> string \<Rightarrow> int \<times> string \<times> nat" where
  "kl_buf_append buf cap off s = kl_buf_append_n buf cap off s"

definition kl_buf_append_u64 :: "string \<Rightarrow> nat \<Rightarrow> nat \<Rightarrow> u64 \<Rightarrow> int \<times> string \<times> nat" where
  "kl_buf_append_u64 buf cap off v = kl_buf_append_n buf cap off (kl_u64_to_dec 20 v)"

definition kl_buf_append_hex :: "string \<Rightarrow> nat \<Rightarrow> nat \<Rightarrow> u64 \<Rightarrow> int \<times> string \<times> nat" where
  "kl_buf_append_hex buf cap off v = kl_buf_append_n buf cap off (kl_u64_to_hex 16 v)"

section \<open>Searching\<close>

fun strchr_from :: "string \<Rightarrow> char \<Rightarrow> nat \<Rightarrow> nat option" where
  "strchr_from [] c i = (if c = NUL then Some i else None)"
| "strchr_from (d # s) c i = (if d = c then Some i else if d = NUL then None else strchr_from s c (i + 1))"

definition kl_strchr :: "string \<Rightarrow> char \<Rightarrow> nat option" where
  "kl_strchr s c = strchr_from s c 0"

function kl_streq :: "string \<Rightarrow> string \<Rightarrow> bool" where
  "kl_streq a b =
     (if peek a \<noteq> peek b then False else if peek a = NUL then True else kl_streq (tl a) (tl b))"
  by pat_completeness auto
termination by (relation "measure (\<lambda>(a, b). length a)") (simp, case_tac a, auto)

function kl_str_startswith :: "string \<Rightarrow> string \<Rightarrow> bool" where
  "kl_str_startswith s p =
     (if peek p = NUL then True else if peek s \<noteq> peek p then False else kl_str_startswith (tl s) (tl p))"
  by pat_completeness auto
termination by (relation "measure (\<lambda>(s, p). length p)") (auto dest: peek_NUL_ne)

text \<open>The inner loop of \<open>kl_strstr\<close> runs down both strings and reports whether the needle ended.\<close>

function strstr_match :: "string \<Rightarrow> string \<Rightarrow> bool" where
  "strstr_match h n = (if peek n \<noteq> NUL \<and> peek h = peek n then strstr_match (tl h) (tl n) else peek n = NUL)"
  by pat_completeness auto
termination by (relation "measure (\<lambda>(h, n). length n)") (auto dest: peek_NUL_ne)

declare kl_streq.simps [simp del] kl_str_startswith.simps [simp del] strstr_match.simps [simp del]

fun strstr_from :: "string \<Rightarrow> string \<Rightarrow> nat \<Rightarrow> nat option" where
  "strstr_from [] needle i = None"
| "strstr_from (c # hay) needle i =
     (if c = NUL then None
      else if strstr_match (c # hay) needle then Some i
      else strstr_from hay needle (i + 1))"

definition kl_strstr :: "string \<Rightarrow> string \<Rightarrow> nat option" where
  "kl_strstr hay needle = (if peek needle = NUL then Some 0 else strstr_from hay needle 0)"


section \<open>Lemmas: comparison and search\<close>

abbreviation lower :: "string \<Rightarrow> nat list" where "lower s \<equiv> map (\<lambda>c. ascii_lower (uchar c)) s"

lemma ascii_lower_eq_0 [simp]: "ascii_lower c = 0 \<longleftrightarrow> c = 0"
  by (simp add: ascii_lower_def)

lemma ascii_lower_NUL [simp]: "ascii_lower 0 = 0"
  by simp

lemma strcasecmp_eq_0:
  "cstring a \<Longrightarrow> cstring b \<Longrightarrow> kl_ascii_strcasecmp a b = 0 \<longleftrightarrow> lower a = lower b"
proof (induction a b rule: kl_ascii_strcasecmp.induct)
  case (1 a b)
  then show ?case by (subst kl_ascii_strcasecmp.simps) (cases a; cases b; auto simp: Let_def)
qed

lemma strncasecmp_eq_0:
  "cstring a \<Longrightarrow> cstring b \<Longrightarrow> kl_ascii_strncasecmp a b n = 0 \<longleftrightarrow> take n (lower a) = take n (lower b)"
proof (induction a b n rule: kl_ascii_strncasecmp.induct)
  case (2 a b n)
  then show ?case by (cases a; cases b) (auto simp: Let_def)
qed simp

lemma strncasecmp_full:
  assumes "cstring a" and "cstring b"
  shows "length a = length b \<and> kl_ascii_strncasecmp a b (length b) = 0 \<longleftrightarrow> lower a = lower b"
proof
  assume l: "length a = length b \<and> kl_ascii_strncasecmp a b (length b) = 0"
  then have "take (length b) (lower a) = lower a" by simp
  with l show "lower a = lower b" using strncasecmp_eq_0 [OF assms, of "length b"] by simp
next
  assume l: "lower a = lower b"
  then have "length a = length b" by (rule map_eq_imp_length_eq)
  with l show "length a = length b \<and> kl_ascii_strncasecmp a b (length b) = 0" using strncasecmp_eq_0 [OF assms] by simp
qed

lemma streq_eq: "cstring a \<Longrightarrow> cstring b \<Longrightarrow> kl_streq a b \<longleftrightarrow> a = b"
proof (induction a b rule: kl_streq.induct)
  case (1 a b)
  then show ?case by (subst kl_streq.simps) (cases a; cases b; auto simp: Let_def)
qed

lemma startswith_prefix: "cstring s \<Longrightarrow> cstring p \<Longrightarrow> kl_str_startswith s p \<longleftrightarrow> prefix p s"
proof (induction s p rule: kl_str_startswith.induct)
  case (1 s p)
  then show ?case by (subst kl_str_startswith.simps) (cases s; cases p; auto simp: Let_def)
qed

lemma match_prefix: "cstring h \<Longrightarrow> cstring n \<Longrightarrow> strstr_match h n \<longleftrightarrow> prefix n h"
proof (induction h n rule: strstr_match.induct)
  case (1 h n)
  then show ?case by (subst strstr_match.simps) (cases h; cases n; auto simp: Let_def)
qed

lemma strchr_takeWhile:
  "cstring s \<Longrightarrow> c \<noteq> NUL \<Longrightarrow>
     strchr_from s c i = (if c \<in> set s then Some (i + length (takeWhile (\<lambda>d. d \<noteq> c) s)) else None)"
  by (induction s c i rule: strchr_from.induct) auto

lemma strstr_from_find:
  assumes "cstring hay" and "cstring n" and "n \<noteq> []"
  shows "strstr_from hay n i = map_option ((+) i) (find (\<lambda>j. prefix n (drop j hay)) [0..<Suc (length hay)])"
  using assms
proof (induction hay n i rule: strstr_from.induct)
  case (2 c hay n i)
  have "[0..<Suc (length (c # hay))] = 0 # map Suc [0..<Suc (length hay)]"
    by (simp add: upt_conv_Cons map_Suc_upt del: upt_Suc)
  moreover have "find (\<lambda>j. prefix n (drop j (c # hay))) (map Suc xs) = map_option Suc (find (\<lambda>j. prefix n (drop j hay)) xs)" for xs
    by (induction xs) simp_all
  ultimately show ?case using 2 match_prefix [of "c # hay" n]
    by (auto simp: option.map_comp comp_def simp del: upt_Suc)
qed simp

section \<open>Lemmas: digits\<close>

text \<open>Digits of a natural number in base \<open>b\<close>, least significant first: the reference for the two
  formatting routines.\<close>

function digits :: "nat \<Rightarrow> nat \<Rightarrow> nat list" where
  "digits b n = n mod b # (if n div b = 0 \<or> b < 2 then [] else digits b (n div b))"
  by pat_completeness auto
termination by (relation "measure snd") (auto intro!: div_less_dividend, metis div_0 less_irrefl neq0_conv)

declare digits.simps [simp del]

definition value_of :: "nat \<Rightarrow> nat list \<Rightarrow> nat" where
  "value_of b ds = foldl (\<lambda>a d. a * b + d) 0 ds"

lemma value_of_snoc [simp]: "value_of b (ds @ [d]) = value_of b ds * b + d"
  by (simp add: value_of_def)

lemma value_of_digits: "2 \<le> b \<Longrightarrow> value_of b (rev (digits b n)) = n"
proof (induction b n rule: digits.induct)
  case (1 b n)
  then show ?case
    by (cases "n div b = 0") (simp_all add: digits.simps [of b n], simp add: value_of_def div_eq_0_iff)
qed

lemma digits_less: "2 \<le> b \<Longrightarrow> d \<in> set (digits b n) \<Longrightarrow> d < b"
proof (induction b n rule: digits.induct)
  case (1 b n)
  then show ?case by (cases "n div b = 0") (auto simp: digits.simps [of b n])
qed

lemma length_digits: "2 \<le> b \<Longrightarrow> n < b ^ k \<Longrightarrow> 0 < k \<Longrightarrow> length (digits b n) \<le> k"
proof (induction k arbitrary: n)
  case (Suc k)
  show ?case
  proof (cases "n div b = 0")
    case False
    then have "b \<le> n" using Suc.prems(1) by (simp add: div_eq_0_iff)
    then have "0 < k" using Suc.prems(2) by (cases k) simp_all
    moreover have "n div b < b ^ k" using Suc.prems by (simp add: less_mult_imp_div_less mult.commute)
    ultimately show ?thesis using Suc.IH [of "n div b"] Suc.prems(1) by (simp add: digits.simps [of b n])
  qed (simp add: digits.simps [of b n])
qed simp

lemma digits_ne [simp]: "digits b n \<noteq> []"
  by (simp add: digits.simps [of b n])

lemma dec_tmp_digits: "dec_tmp v = map (\<lambda>d. char_of (48 + d)) (digits 10 (unat v))"
proof (induction v rule: dec_tmp.induct)
  case (1 v)
  have "v div 10 = 0 \<longleftrightarrow> unat v div 10 = 0" by (metis unat_u64_div10 unat_eq_zero)
  with 1 show ?case
    by (subst dec_tmp.simps, subst digits.simps) (simp add: unat_u64_div10 unat_mod)
qed

lemma hex_tmp_digits: "hex_tmp v = map (\<lambda>d. hexd ! d) (digits 16 (unat v))"
proof (induction v rule: hex_tmp.induct)
  case (1 v)
  have a: "unat (v AND 15) = unat v mod 16"
    using take_bit_eq_mask [of 4 v] unat_mod [of v 16] by (simp add: mask_eq_exp_minus_1 take_bit_eq_mod)
  have "drop_bit 4 v = 0 \<longleftrightarrow> unat v div 16 = 0" by (metis unat_u64_shr4 unat_eq_zero)
  with 1 a show ?case
    by (subst hex_tmp.simps, subst digits.simps) (simp add: unat_u64_shr4)
qed

lemma dec_tmp_length: "length (dec_tmp v) \<le> 20"
proof -
  have "unat v < 10 ^ 20" using unat_u64_less [of v] by (rule less_trans) simp
  then have "length (digits 10 (unat v)) \<le> 20" by (intro length_digits) simp_all
  then show ?thesis unfolding dec_tmp_digits by (simp only: length_map)
qed

lemma hex_tmp_length: "length (hex_tmp v) \<le> 16"
proof -
  have "unat v < 16 ^ 16" using unat_u64_less [of v] by simp
  then have "length (digits 16 (unat v)) \<le> 16" by (intro length_digits) simp_all
  then show ?thesis unfolding hex_tmp_digits by (simp only: length_map)
qed

section \<open>Lemmas: parsing and printing decimals\<close>

abbreviation digit_char :: "char \<Rightarrow> bool" where
  "digit_char c \<equiv> 48 \<le> uchar c \<and> uchar c \<le> 57"

abbreviation dec_from :: "nat \<Rightarrow> string \<Rightarrow> nat" where
  "dec_from v s \<equiv> foldl (\<lambda>a c. a * 10 + (uchar c - 48)) v s"

lemma dec_from_ge: "v \<le> dec_from v s"
proof (induction s arbitrary: v)
  case (Cons c s)
  have "v \<le> v * 10 + (uchar c - 48)" by simp
  also have "\<dots> \<le> dec_from (v * 10 + (uchar c - 48)) s" by (rule Cons)
  finally show ?case by simp
qed simp

lemma u16_loop_eq:
  "v \<le> 65535 \<Longrightarrow>
     u16_loop s v = (if list_all digit_char s \<and> dec_from v s \<le> 65535 then Some (dec_from v s) else None)"
proof (induction s arbitrary: v)
  case (Cons c s)
  let ?v = "v * 10 + (uchar c - 48)"
  show ?case
  proof (cases "digit_char c")
    case True
    then have "?v \<le> 65535 * 10 + 9" using Cons.prems by linarith
    then have "?v < 2 ^ 32" by (rule le_less_trans) simp
    then have m: "?v mod 2 ^ 32 = ?v" by (rule mod_less)
    show ?thesis
    proof (cases "?v \<le> 65535")
      case True
      with Cons.IH [OF True] \<open>digit_char c\<close> m show ?thesis by (simp add: not_less [symmetric])
    next
      case False
      then have "\<not> dec_from ?v s \<le> 65535" using dec_from_ge [of ?v s] by linarith
      with False \<open>digit_char c\<close> m show ?thesis by simp
    qed
  qed auto
qed simp

lemma kl_u64_to_dec_eq: "20 \<le> cap \<Longrightarrow> kl_u64_to_dec cap v = rev (dec_tmp v)"
  using dec_tmp_length [of v] by (simp add: kl_u64_to_dec_def Let_def)

lemma kl_u64_to_hex_eq: "16 \<le> cap \<Longrightarrow> kl_u64_to_hex cap v = rev (hex_tmp v)"
  using hex_tmp_length [of v] by (simp add: kl_u64_to_hex_def Let_def)

lemma dec_tmp_digit_char: "c \<in> set (dec_tmp v) \<Longrightarrow> digit_char c"
  using digits_less [of 10 _ "unat v"] by (fastforce simp: dec_tmp_digits)

lemma dec_from_map:
  "(\<And>d. d \<in> set ds \<Longrightarrow> d < 10) \<Longrightarrow> dec_from v (map (\<lambda>d. char_of (48 + d)) ds) = foldl (\<lambda>a d. a * 10 + d) v ds"
proof (induction ds arbitrary: v)
  case (Cons d ds)
  have "uchar (char_of (48 + d)) = 48 + d" using Cons.prems [of d] by simp
  with Cons show ?case by (simp del: of_char_of)
qed simp

lemma dec_from_dec_tmp: "dec_from 0 (rev (dec_tmp v)) = unat v"
proof -
  have "dec_from 0 (rev (dec_tmp v)) = foldl (\<lambda>a d. a * 10 + d) 0 (rev (digits 10 (unat v)))"
    unfolding dec_tmp_digits rev_map by (rule dec_from_map) (use digits_less in auto)
  also have "\<dots> = unat v" using value_of_digits [of 10 "unat v"] by (simp add: value_of_def)
  finally show ?thesis .
qed

lemma kl_u64_to_dec_ne: "kl_u64_to_dec 20 v \<noteq> []"
  by (simp add: kl_u64_to_dec_eq dec_tmp_digits)

lemma kl_u64_to_dec_digits: "list_all digit_char (kl_u64_to_dec 20 v)"
  by (auto simp: kl_u64_to_dec_eq list_all_iff dest: dec_tmp_digit_char)

section \<open>Lemmas: buffers\<close>

lemma kl_buf_append_n_eq:
  assumes "length buf = cap" and "off \<le> cap"
  shows "kl_buf_append_n buf cap off s =
     (if off + length s < cap then (0, take off buf @ s @ NUL # drop (off + length s + 1) buf, off + length s)
      else (-1, buf, off))"
proof (cases "off + length s < cap")
  case True
  with assms have "(take off buf @ s @ drop (off + length s) buf)[off + length s := NUL]
    = take off buf @ s @ (drop (off + length s) buf)[0 := NUL]"
    by (simp add: list_update_append)
  also have "(drop (off + length s) buf)[0 := NUL] = NUL # drop (off + length s + 1) buf"
    using True assms by (cases "drop (off + length s) buf") (auto simp: drop_Suc tl_drop dest: arg_cong [of _ _ tl])
  finally show ?thesis using True assms by (auto simp: kl_buf_append_n_def Let_def)
qed (use assms in \<open>auto simp: kl_buf_append_n_def Let_def\<close>)

text \<open>Chained appends build the concatenation: the first \<open>off\<close> characters are what was appended so far.\<close>

lemma kl_buf_append_n_cases:
  assumes "length buf = cap" and "off \<le> cap"
  obtains (fits) buf' where "off + length s < cap" and "kl_buf_append_n buf cap off s = (0, buf', off + length s)"
      and "length buf' = cap" and "take (off + length s) buf' = take off buf @ s" and "buf' ! (off + length s) = NUL"
    | (full) "cap \<le> off + length s" and "kl_buf_append_n buf cap off s = (-1, buf, off)"
proof (cases "off + length s < cap")
  case True
  with assms show ?thesis
    by (intro fits [of "take off buf @ s @ NUL # drop (off + length s + 1) buf"]) (auto simp: kl_buf_append_n_eq nth_append)
next
  case False
  with assms show ?thesis by (intro full) (simp_all add: kl_buf_append_n_eq)
qed

section \<open>Properties\<close>

text \<open>
  C31. Printing a 64-bit number in decimal and reading it back as a port gives the number when it fits a
  \<open>uint16_t\<close>, and the reader refuses it otherwise: no wrap of the accumulator lets a larger number in.
\<close>

theorem u16_decimal_roundtrip:
  "kl_parse_u16_decimal (kl_u64_to_dec 20 v) = (if v \<le> 65535 then Some (unat v) else None)"
proof -
  have "unat v \<le> 65535 \<longleftrightarrow> v \<le> 65535" by (simp add: word_le_nat_alt)
  moreover have "list_all digit_char (rev (dec_tmp v))" using kl_u64_to_dec_digits [of v] by (simp add: kl_u64_to_dec_eq)
  ultimately show ?thesis using kl_u64_to_dec_ne [of v]
    by (simp add: kl_parse_u16_decimal_def u16_loop_eq kl_u64_to_dec_eq dec_from_dec_tmp)
qed

text \<open>
  \<open>kl_strstr\<close> is the first position at which the needle is a prefix of the rest of the string, with an
  empty needle found at the start, as for \<open>strstr\<close>.
\<close>

lemma kl_strstr_spec:
  assumes "cstring hay" and "cstring needle"
  shows "kl_strstr hay needle = find (\<lambda>i. prefix needle (drop i hay)) [0..<Suc (length hay)]"
proof (cases "needle = []")
  case True
  then show ?thesis by (simp add: kl_strstr_def upt_conv_Cons del: upt_Suc)
next
  case False
  have "map_option ((+) 0) x = x" for x :: "nat option" by (cases x) simp_all
  with False assms show ?thesis by (simp add: kl_strstr_def peek_NUL strstr_from_find del: upt_Suc)
qed

end
