(* ===== verification/Url.thy ===== *)
theory Url
  imports Cstr
begin

text \<open>
  The URL parser of \<open>src/url.c\<close>: \<open>kl_url_parse\<close>, \<open>kl_url_resolve\<close> and \<open>kl_url_authority\<close>.

  The fields of \<open>KlUrl\<close> that point into the URL with a length (\<open>host\<close>, \<open>path\<close>) are the spans they denote,
  a null \<open>host\<close> is \<open>None\<close>, and \<open>unix_path\<close> is the C string in that array. A call that returns -1 is
  \<open>None\<close>; what it left in \<open>*out\<close> is not modelled. The parser is written in the stages of the C
  function: the scheme, the socket path, the host, the port and the path.
\<close>

section \<open>Data\<close>

definition KL_URL_UNIX_PATH_MAX :: nat where "KL_URL_UNIX_PATH_MAX = 108"

record KlUrl =
  is_https :: bool
  is_ws :: bool
  is_unix :: bool
  host :: "string option"
  port :: int
  path :: string
  unix_path :: string

section \<open>Helpers of the parser\<close>

definition has_crlf :: "string \<Rightarrow> bool" where
  "has_crlf s \<longleftrightarrow> list_ex (\<lambda>c. c = CHR 0x0D \<or> c = CHR 0x0A) s"

definition has_space_or_ctl :: "string \<Rightarrow> bool" where
  "has_space_or_ctl s \<longleftrightarrow> list_ex (\<lambda>c. uchar c \<le> 32 \<or> uchar c = 127) s"

fun without_fragment :: "string \<Rightarrow> nat" where
  "without_fragment [] = 0"
| "without_fragment (c # s) = (if c \<noteq> NUL \<and> c \<noteq> CHR ''#'' then Suc (without_fragment s) else 0)"

definition scheme_is :: "string \<Rightarrow> string \<Rightarrow> bool" where
  "scheme_is url p \<longleftrightarrow> kl_ascii_strncasecmp url p (length p) = 0"

definition hex_val :: "char \<Rightarrow> int" where
  "hex_val c =
     (if uchar CHR ''0'' \<le> uchar c \<and> uchar c \<le> uchar CHR ''9'' then int (uchar c) - int (uchar CHR ''0'')
      else if uchar CHR ''a'' \<le> uchar c \<and> uchar c \<le> uchar CHR ''f'' then int (uchar c) - int (uchar CHR ''a'') + 10
      else if uchar CHR ''A'' \<le> uchar c \<and> uchar c \<le> uchar CHR ''F'' then int (uchar c) - int (uchar CHR ''A'') + 10
      else -1)"

text \<open>One output byte of \<open>pct_decode\<close>: refused when it is a NUL or when it leaves no room for the terminator.\<close>

definition pct_put :: "nat \<Rightarrow> string \<Rightarrow> char \<Rightarrow> string option" where
  "pct_put dstsz dst c = (if c = NUL then None else if length dst + 1 \<ge> dstsz then None else Some (dst @ [c]))"

fun pct_decode :: "string \<Rightarrow> nat \<Rightarrow> string \<Rightarrow> string option" where
  "pct_decode [] dstsz dst = Some dst"
| "pct_decode (c # s) dstsz dst =
     (if c = CHR ''%''
      then case s of
          h # l # rest \<Rightarrow>
            (if hex_val h < 0 \<or> hex_val l < 0 then None
             else case pct_put dstsz dst (char_of (nat (push_bit 4 (hex_val h) OR hex_val l))) of
                 None \<Rightarrow> None | Some dst' \<Rightarrow> pct_decode rest dstsz dst')
        | _ \<Rightarrow> None
      else case pct_put dstsz dst c of None \<Rightarrow> None | Some dst' \<Rightarrow> pct_decode s dstsz dst')"

section \<open>The parser\<close>

definition url_path :: "string \<Rightarrow> KlUrl \<Rightarrow> KlUrl option" where
  "url_path url out =
     (if has_space_or_ctl url then None
      else if peek url = CHR ''/'' then Some (out\<lparr>path := take (without_fragment url) url\<rparr>)
      else if peek url = NUL \<or> peek url = CHR ''#'' then Some (out\<lparr>path := ''/''\<rparr>)
      else None)"

text \<open>The scheme: \<open>is_https\<close>, \<open>is_ws\<close>, \<open>is_unix\<close> and the length of the prefix to skip.\<close>

definition url_scheme :: "string \<Rightarrow> (bool \<times> bool \<times> bool \<times> nat) option" where
  "url_scheme url =
     (if scheme_is url ''https+unix://'' then Some (True, False, True, 13)
      else if scheme_is url ''http+unix://'' then Some (False, False, True, 12)
      else if scheme_is url ''https://'' then Some (True, False, False, 8)
      else if scheme_is url ''http://'' then Some (False, False, False, 7)
      else if scheme_is url ''wss+unix://'' then Some (True, True, True, 11)
      else if scheme_is url ''ws+unix://'' then Some (False, True, True, 10)
      else if scheme_is url ''wss://'' then Some (True, True, False, 6)
      else if scheme_is url ''ws://'' then Some (False, True, False, 5)
      else None)"

definition auth_char :: "char \<Rightarrow> bool" where
  "auth_char c \<longleftrightarrow> c \<noteq> NUL \<and> c \<noteq> CHR ''/'' \<and> c \<noteq> CHR ''?'' \<and> c \<noteq> CHR ''#''"

definition url_unix :: "string \<Rightarrow> KlUrl \<Rightarrow> KlUrl option" where
  "url_unix url out =
     (let auth = takeWhile auth_char url; url1 = dropWhile auth_char url
      in if auth = [] then None
         else case pct_decode auth KL_URL_UNIX_PATH_MAX [] of
             None \<Rightarrow> None
           | Some p \<Rightarrow>
               if has_crlf p then None
               else url_path url1 (out\<lparr>unix_path := p, host := None, port := 0\<rparr>))"

text \<open>The scan of a bracketed address: the offset of the closing bracket, if it is inside the authority
  (the argument ends where the authority ends) and only address characters precede it.\<close>

definition v6_char :: "bool \<Rightarrow> char \<Rightarrow> bool" where
  "v6_char zone c \<longleftrightarrow>
     hex_val c \<ge> 0 \<or> c = CHR '':'' \<or> c = CHR ''.'' \<or>
     zone \<and> (uchar CHR ''a'' \<le> uchar c \<and> uchar c \<le> uchar CHR ''z'' \<or>
             uchar CHR ''A'' \<le> uchar c \<and> uchar c \<le> uchar CHR ''Z'' \<or>
             c = CHR ''-'' \<or> c = CHR ''_'' \<or> c = CHR ''~'')"

fun v6_scan :: "string \<Rightarrow> bool \<Rightarrow> nat option" where
  "v6_scan [] zone = None"
| "v6_scan (c # s) zone =
     (if c = CHR '']'' then Some 0
      else if c = CHR ''%'' then map_option Suc (v6_scan s True)
      else if \<not> v6_char zone c then None
      else map_option Suc (v6_scan s zone))"

definition host_char :: "char \<Rightarrow> bool" where
  "host_char c \<longleftrightarrow> auth_char c \<and> c \<noteq> CHR '':''"

text \<open>The host and the rest of the URL after it.\<close>

definition url_host :: "string \<Rightarrow> (string \<times> string) option" where
  "url_host url =
     (let auth = takeWhile auth_char url
      in if CHR ''@'' \<in> set auth then None
         else if peek url = CHR ''['' then
           (case v6_scan (tl auth) False of
              None \<Rightarrow> None
            | Some n \<Rightarrow> Some (take n (tl url), drop (n + 2) url))
         else Some (takeWhile host_char url, dropWhile host_char url))"

definition url_port :: "bool \<Rightarrow> string \<Rightarrow> (int \<times> string) option" where
  "url_port https url =
     (if peek url = CHR '':'' then
        (let ds = takeWhile digit_char (tl url)
         in case kl_parse_u16_decimal ds of
              None \<Rightarrow> None
            | Some p \<Rightarrow> if p = 0 then None else Some (int p, drop (length ds) (tl url)))
      else Some (if https then 443 else 80, url))"

definition url_tcp :: "string \<Rightarrow> KlUrl \<Rightarrow> KlUrl option" where
  "url_tcp url out =
     (case url_host url of
        None \<Rightarrow> None
      | Some (h, url1) \<Rightarrow>
          if h = [] then None
          else if has_space_or_ctl h then None
          else case url_port (is_https out) url1 of
              None \<Rightarrow> None
            | Some (p, url2) \<Rightarrow> url_path url2 (out\<lparr>host := Some h, port := p\<rparr>))"

definition zero_url :: KlUrl where
  "zero_url = \<lparr>is_https = False, is_ws = False, is_unix = False, host = None, port = 0, path = [], unix_path = []\<rparr>"

definition kl_url_parse :: "string \<Rightarrow> KlUrl option" where
  "kl_url_parse url =
     (case url_scheme url of
        None \<Rightarrow> None
      | Some (https, ws, unix, n) \<Rightarrow>
          let out = zero_url\<lparr>is_https := https, is_ws := ws, is_unix := unix\<rparr>
          in if unix then url_unix (drop n url) out else url_tcp (drop n url) out)"

section \<open>Resolution and authority\<close>

fun strip_fragment :: "string \<Rightarrow> nat" where
  "strip_fragment [] = 0"
| "strip_fragment (c # s) = (if c = CHR ''#'' then 0 else Suc (strip_fragment s))"

text \<open>\<open>kl_url_resolve\<close>: the C string written to \<open>out\<close>, or \<open>None\<close> for -1.\<close>

definition kl_url_resolve :: "string \<Rightarrow> string \<Rightarrow> nat \<Rightarrow> string option" where
  "kl_url_resolve base_url loc out_size =
     (if out_size = 0 then None
      else if length loc = 0 then None
      else if scheme_is loc ''http://'' \<or> scheme_is loc ''https://'' then
        (let n = strip_fragment loc
         in if n \<ge> out_size then None else Some (take n loc))
      else if peek loc = CHR ''/'' \<and> peek (tl loc) = CHR ''/'' then
        (case kl_strchr base_url CHR '':'' of
           None \<Rightarrow> None
         | Some scheme_len \<Rightarrow>
             if scheme_len \<ge> 5 \<and> scheme_is (drop (scheme_len - 5) base_url) ''+unix'' then None
             else let n = strip_fragment loc
                  in if scheme_len + 1 + n \<ge> out_size then None
                     else Some (take (scheme_len + 1) base_url @ take n loc))
      else if peek loc = CHR ''/'' then
        (case kl_strstr base_url ''://'' of
           None \<Rightarrow> None
         | Some i \<Rightarrow>
             let auth = drop (i + 3) base_url;
                 origin_len = i + 3 + length (takeWhile auth_char auth);
                 n = strip_fragment loc
             in if origin_len + n \<ge> out_size then None
                else Some (take origin_len base_url @ take n loc))
      else None)"

text \<open>A chain of appends that stops at the first one that does not fit.\<close>

definition append_chain :: "nat \<Rightarrow> string list \<Rightarrow> string \<times> nat \<Rightarrow> (string \<times> nat) option" where
  "append_chain cap ss = fold (\<lambda>s r. case r of None \<Rightarrow> None
      | Some (buf, off) \<Rightarrow> (case kl_buf_append_n buf cap off s of (e, buf', off') \<Rightarrow> if e \<noteq> 0 then None else Some (buf', off'))) ss \<circ> Some"

definition kl_url_authority :: "KlUrl \<Rightarrow> string \<Rightarrow> nat \<Rightarrow> (string \<times> nat) option" where
  "kl_url_authority url out cap =
     (if cap = 0 then None
      else let h = (case host url of None \<Rightarrow> [] | Some h \<Rightarrow> h);
               v6 = (CHR '':'' \<in> set h);
               deflt = (if is_https url then 443 else 80)
           in append_chain cap
                ((if v6 then [''['', h, '']''] else [h]) @
                 (if \<not> is_unix url \<and> port url \<noteq> deflt
                  then ['':'', kl_u64_to_dec 20 (word_of_int (port url))] else []))
                (out, 0))"

section \<open>Lemmas: schemes\<close>

fun scheme_of :: "bool \<times> bool \<times> bool \<Rightarrow> string" where
  "scheme_of (https, ws, unix) =
     (if ws then ''ws'' else ''http'') @ (if https then ''s'' else []) @ (if unix then ''+unix'' else []) @ ''://''"

lemma scheme_is_Nil [simp]: "scheme_is s []"
  by (simp add: scheme_is_def)

lemma scheme_is_Cons:
  "scheme_is s (d # p) \<longleftrightarrow>
     ascii_lower (uchar (peek s)) = ascii_lower (uchar d) \<and> (d = NUL \<or> scheme_is (tl s) p)"
  by (auto simp: scheme_is_def Let_def)

lemma scheme_is_lower: "lower s = lower s' \<Longrightarrow> scheme_is s p \<longleftrightarrow> scheme_is s' p"
proof (induction p arbitrary: s s')
  case (Cons d p)
  have "lower (tl s) = lower (tl s')" using Cons.prems by (metis map_tl)
  moreover have "ascii_lower (uchar (peek s)) = ascii_lower (uchar (peek s'))"
    using Cons.prems by (cases s; cases s') simp_all
  ultimately show ?case using Cons.IH [of "tl s" "tl s'"] by (simp add: scheme_is_Cons)
qed simp

lemma url_scheme_lower: "lower s = lower s' \<Longrightarrow> url_scheme s = url_scheme s'"
  unfolding url_scheme_def by (simp only: scheme_is_lower [of s s'])

lemma scheme_is_length: "scheme_is s p \<Longrightarrow> NUL \<notin> set p \<Longrightarrow> length p \<le> length s \<and> lower (take (length p) s) = lower p"
proof (induction p arbitrary: s)
  case (Cons d p)
  then show ?case by (cases s) (auto simp: scheme_is_Cons)
qed simp

lemma url_scheme_lit:
  "url_scheme (scheme_of (https, ws, unix) @ s) = Some (https, ws, unix, length (scheme_of (https, ws, unix)))"
  by (cases https; cases ws; cases unix) (simp_all add: url_scheme_def ascii_lower_def scheme_is_Cons)

lemma url_scheme_Some:
  assumes "url_scheme url = Some (https, ws, unix, n)"
  shows "n = length (scheme_of (https, ws, unix)) \<and> n \<le> length url \<and>
         lower (take n url) = lower (scheme_of (https, ws, unix))"
proof -
  have "n = length (scheme_of (https, ws, unix))"
    using assms unfolding url_scheme_def by (auto split: if_splits)
  moreover have "scheme_is url (scheme_of (https, ws, unix))"
    using assms unfolding url_scheme_def by (auto split: if_splits)
  moreover have "NUL \<notin> set (scheme_of (https, ws, unix))" by simp
  ultimately show ?thesis using scheme_is_length [of url "scheme_of (https, ws, unix)"] by blast
qed

text \<open>Replacing what follows the scheme keeps the scheme.\<close>

lemma url_scheme_replace:
  assumes "url_scheme url = Some (https, ws, unix, n)"
  shows "url_scheme (take n url @ s) = Some (https, ws, unix, n)"
proof -
  note c = url_scheme_Some [OF assms]
  then have "lower (take n url @ s) = lower (scheme_of (https, ws, unix) @ s)" unfolding map_append by argo
  with c show ?thesis using url_scheme_lower url_scheme_lit by metis
qed

section \<open>Lemmas: pieces of the parser\<close>

lemma cstring_drop: "cstring s \<Longrightarrow> cstring (drop n s)"
  by (auto simp: cstring_def dest: in_set_dropD)

lemma cstring_take: "cstring s \<Longrightarrow> cstring (take n s)"
  by (auto simp: cstring_def dest: in_set_takeD)

lemma has_space_or_ctl_append [simp]: "has_space_or_ctl (s @ t) \<longleftrightarrow> has_space_or_ctl s \<or> has_space_or_ctl t"
  by (simp add: has_space_or_ctl_def)

lemma without_fragment_takeWhile: "cstring s \<Longrightarrow> take (without_fragment s) s = takeWhile (\<lambda>c. c \<noteq> CHR ''#'') s"
  by (induction s) auto

lemma strip_fragment_takeWhile: "take (strip_fragment s) s = takeWhile (\<lambda>c. c \<noteq> CHR ''#'') s"
  by (induction s) auto

lemma strip_fragment_length: "strip_fragment s = length (takeWhile (\<lambda>c. c \<noteq> CHR ''#'') s)"
  by (induction s) auto

lemma has_space_or_ctl_takeWhile: "\<not> has_space_or_ctl s \<Longrightarrow> \<not> has_space_or_ctl (takeWhile P s)"
  by (auto simp: has_space_or_ctl_def list_ex_iff dest: set_takeWhileD)

text \<open>A path as the parser produces it: it is its own path when it is parsed again.\<close>

definition path_ok :: "string \<Rightarrow> bool" where
  "path_ok p \<longleftrightarrow> peek p = CHR ''/'' \<and> \<not> has_space_or_ctl p \<and> CHR ''#'' \<notin> set p"

lemma cstring_no_ctl: "\<not> has_space_or_ctl s \<Longrightarrow> cstring s"
  by (auto simp: has_space_or_ctl_def list_ex_iff cstring_def)

lemma url_path_Some:
  assumes "url_path s out = Some u" and "cstring s"
  shows "path_ok (path u) \<and> u = out\<lparr>path := path u\<rparr>"
proof (cases "peek s = CHR ''/''")
  case True
  then have "s \<noteq> []" by auto
  with True have "peek (takeWhile (\<lambda>c. c \<noteq> CHR ''#'') s) = CHR ''/''" by (cases s) auto
  with assms True show ?thesis
    by (auto simp: url_path_def path_ok_def without_fragment_takeWhile has_space_or_ctl_takeWhile split: if_splits
        dest: set_takeWhileD)
next
  case False
  with assms show ?thesis by (auto simp: url_path_def path_ok_def has_space_or_ctl_def split: if_splits)
qed

lemma url_path_fields:
  "url_path s out = Some u \<Longrightarrow> host u = host out \<and> port u = port out \<and> is_https u = is_https out \<and> is_ws u = is_ws out \<and>
     is_unix u = is_unix out \<and> unix_path u = unix_path out"
  by (auto simp: url_path_def split: if_splits)

lemma url_path_ok:
  assumes "path_ok p"
  shows "url_path p out = Some (out\<lparr>path := p\<rparr>)"
proof -
  have "takeWhile (\<lambda>c. c \<noteq> CHR ''#'') p = p" using assms by (auto simp: path_ok_def)
  with assms cstring_no_ctl [of p] show ?thesis by (simp add: url_path_def path_ok_def without_fragment_takeWhile)
qed

lemma pct_put_Some: "pct_put n dst c = Some dst' \<longleftrightarrow> c \<noteq> NUL \<and> length dst + 1 < n \<and> dst' = dst @ [c]"
  by (auto simp: pct_put_def)

lemma pct_decode_Some:
  "pct_decode s n dst = Some p \<Longrightarrow> cstring dst \<Longrightarrow> length dst < n \<Longrightarrow> cstring p \<and> length p < n \<and> length dst \<le> length p \<and> (s \<noteq> [] \<longrightarrow> p \<noteq> [])"
proof (induction s n dst rule: pct_decode.induct)
  case (2 c s n dst)
  show ?case
  proof (cases "c = CHR ''%''")
    case False
    with 2 show ?thesis by (auto simp: pct_put_Some split: option.splits)
  next
    case True
    with "2.prems" obtain h l rest where s: "s = h # l # rest" by (auto split: list.splits)
    with True 2 show ?thesis by (fastforce simp: pct_put_Some split: option.splits if_splits)
  qed
qed simp

lemma v6_scan_Some:
  "v6_scan s z = Some n \<Longrightarrow> \<exists>pre post. s = pre @ CHR '']'' # post \<and> n = length pre \<and> (\<forall>t. v6_scan (pre @ CHR '']'' # t) z = Some n) \<and>
     (\<forall>c \<in> set pre. c = CHR ''%'' \<or> v6_char True c)"
proof (induction s z arbitrary: n rule: v6_scan.induct)
  case (2 c s z)
  show ?case
  proof (cases "c = CHR '']''")
    case True
    with "2.prems" show ?thesis by (intro exI [of _ "[]"] exI [of _ s]) auto
  next
    case False
    let ?z = "if c = CHR ''%'' then True else z"
    from False "2.prems" obtain m where m: "v6_scan s ?z = Some m" "n = Suc m" and ok: "c = CHR ''%'' \<or> v6_char z c"
      by (auto split: if_splits)
    have "\<exists>pre post. s = pre @ CHR '']'' # post \<and> m = length pre \<and> (\<forall>t. v6_scan (pre @ CHR '']'' # t) ?z = Some m) \<and>
        (\<forall>c \<in> set pre. c = CHR ''%'' \<or> v6_char True c)"
      using "2.IH" False ok m(1) by (cases "c = CHR ''%''") auto
    then obtain pre post where p: "s = pre @ CHR '']'' # post" "m = length pre"
      "\<And>t. v6_scan (pre @ CHR '']'' # t) ?z = Some m" "\<forall>c \<in> set pre. c = CHR ''%'' \<or> v6_char True c" by blast
    have "v6_scan ((c # pre) @ CHR '']'' # t) z = Some n" for t
      using False ok p(3) [of t] m(2) by (cases "c = CHR ''%''") simp_all
    moreover have "c = CHR ''%'' \<or> v6_char True c" using ok by (auto simp: v6_char_def)
    moreover have "c # s = (c # pre) @ CHR '']'' # post" "n = length (c # pre)" using p(1,2) m(2) by simp_all
    ultimately show ?thesis using p(4) by (metis set_ConsD)
  qed
qed simp

lemma v6_char_not: "v6_char z c \<Longrightarrow> c \<noteq> CHR ''['' \<and> c \<noteq> CHR ''@'' \<and> auth_char c \<and> \<not> (uchar c \<le> 32 \<or> uchar c = 127)"
  by (auto simp: v6_char_def hex_val_def auth_char_def split: if_splits)

lemma in_takeWhile_mono: "(\<And>x. P x \<Longrightarrow> Q x) \<Longrightarrow> x \<in> set (takeWhile P s) \<Longrightarrow> x \<in> set (takeWhile Q s)"
  by (induction s) (auto split: if_splits)

text \<open>The host as it is written back into an authority.\<close>

definition authority_host :: "string \<Rightarrow> string" where
  "authority_host h = (if CHR '':'' \<in> set h then CHR ''['' # h @ '']'' else h)"

definition after_host :: "string \<Rightarrow> bool" where
  "after_host t \<longleftrightarrow> (peek t = CHR '':'' \<or> peek t = CHR ''/'') \<and> CHR ''@'' \<notin> set (takeWhile auth_char t)"

text \<open>What the parser accepts as a host, bracketed or not.\<close>

definition host_ok :: "string \<Rightarrow> bool" where
  "host_ok h \<longleftrightarrow> (\<forall>c \<in> set h. auth_char c \<and> c \<noteq> CHR ''@'') \<and> (h \<noteq> [] \<longrightarrow> peek h \<noteq> CHR ''['') \<and>
     (CHR '':'' \<in> set h \<longrightarrow> (\<forall>t. v6_scan (h @ CHR '']'' # t) False = Some (length h)))"

lemma url_host_Some:
  assumes "url_host s = Some (h, r)" and "cstring s"
  shows "host_ok h \<and> cstring r"
proof (cases "peek s = CHR ''[''")
  case True
  then obtain s' where s: "s = CHR ''['' # s'" by (cases s) auto
  have "auth_char CHR ''[''" by (simp add: auth_char_def)
  with assms(1) s obtain n where n: "v6_scan (takeWhile auth_char s') False = Some n"
    and h: "h = take n s'" and r: "r = drop (n + 1) s'"
    by (auto simp: url_host_def Let_def split: if_splits option.splits)
  from v6_scan_Some [OF n] obtain pre post where p: "takeWhile auth_char s' = pre @ CHR '']'' # post" "n = length pre"
    "\<forall>t. v6_scan (pre @ CHR '']'' # t) False = Some n" "\<forall>c \<in> set pre. c = CHR ''%'' \<or> v6_char True c"
    by (elim exE conjE) simp
  have "s' = pre @ CHR '']'' # post @ dropWhile auth_char s'"
    using takeWhile_dropWhile_id [of auth_char s'] unfolding p(1) by (simp only: append.assoc append_Cons)
  then have "h = pre" unfolding h p(2) by (metis append_eq_conv_conj)
  moreover have "auth_char c \<and> c \<noteq> CHR ''@'' \<and> c \<noteq> CHR ''[''" if "c \<in> set pre" for c
    using bspec [OF p(4) that] v6_char_not [of True c] by (auto simp: auth_char_def)
  moreover from this have "pre \<noteq> [] \<longrightarrow> peek pre \<noteq> CHR ''[''" by (cases pre) auto
  moreover have "cstring r" using assms(2) by (simp add: r s cstring_drop)
  ultimately show ?thesis using p(2,3) by (simp add: host_ok_def)
next
  case False
  with assms have h: "h = takeWhile host_char s" and r: "r = dropWhile host_char s"
    and a: "CHR ''@'' \<notin> set (takeWhile auth_char s)"
    by (auto simp: url_host_def Let_def split: if_splits)
  have "host_char c" if "c \<in> set h" for c using that by (auto simp: h dest: set_takeWhileD)
  moreover have "CHR ''@'' \<notin> set h"
    using a in_takeWhile_mono [of host_char auth_char] by (auto simp: h host_char_def)
  moreover have "h \<noteq> [] \<longrightarrow> peek h \<noteq> CHR ''[''" using False by (cases s) (auto simp: h)
  moreover have "cstring r" using assms(2) by (simp add: r dropWhile_eq_drop cstring_drop)
  ultimately show ?thesis by (auto simp: host_ok_def host_char_def)
qed

lemma takeWhile_stop: "\<forall>c \<in> set h. P c \<Longrightarrow> \<not> P (peek t) \<Longrightarrow> takeWhile P (h @ t) = h \<and> dropWhile P (h @ t) = t"
  if "\<not> P NUL" for P
  using that by (cases t) auto

lemma url_host_reparse:
  assumes "host_ok h" and "h \<noteq> []" and "after_host t"
  shows "url_host (authority_host h @ t) = Some (h, t)"
proof -
  from assms have c: "\<forall>c \<in> set h. auth_char c \<and> c \<noteq> CHR ''@''" and b: "peek h \<noteq> CHR ''[''"
    and v: "CHR '':'' \<in> set h \<Longrightarrow> v6_scan (h @ CHR '']'' # takeWhile auth_char t) False = Some (length h)"
    and t: "peek t = CHR '':'' \<or> peek t = CHR ''/''" "CHR ''@'' \<notin> set (takeWhile auth_char t)"
    by (auto simp: host_ok_def after_host_def)
  have a: "takeWhile auth_char (h @ u) = h @ takeWhile auth_char u" for u using c by (induction h) auto
  show ?thesis
  proof (cases "CHR '':'' \<in> set h")
    case True
    then show ?thesis using v t c a [of "CHR '']'' # t"]
      by (simp add: url_host_def Let_def authority_host_def auth_char_def) fastforce
  next
    case False
    have "takeWhile host_char (h @ t) = h \<and> dropWhile host_char (h @ t) = t"
      by (rule takeWhile_stop) (use c False t in \<open>auto simp: host_char_def auth_char_def\<close>)
    moreover have "peek (h @ t) \<noteq> CHR ''[''" using b assms(2) by (cases h) auto
    ultimately show ?thesis using False c t a [of t]
      by (simp add: url_host_def Let_def authority_host_def) fastforce
  qed
qed

lemma kl_parse_u16_decimal_le: "kl_parse_u16_decimal s = Some v \<Longrightarrow> v \<le> 65535"
  by (auto simp: kl_parse_u16_decimal_def u16_loop_eq split: if_splits)

lemma url_port_Some:
  assumes "url_port https s = Some (p, r)" and "cstring s"
  shows "1 \<le> p \<and> p \<le> 65535 \<and> cstring r"
  using assms
  by (auto simp: url_port_def Let_def cstring_drop cstring_tl split: if_splits option.splits
      dest: kl_parse_u16_decimal_le)

definition default_port :: "bool \<Rightarrow> int" where "default_port https = (if https then 443 else 80)"

definition authority_port :: "bool \<Rightarrow> int \<Rightarrow> string" where
  "authority_port https p = (if p = default_port https then [] else CHR '':'' # kl_u64_to_dec 20 (word_of_int p))"

lemma unat_word_of_port: "1 \<le> p \<Longrightarrow> p \<le> 65535 \<Longrightarrow> unat (word_of_int p :: u64) = nat p"
  by (simp add: unat_eq_nat_uint uint_word_of_int)

lemma parse_port: "1 \<le> p \<Longrightarrow> p \<le> 65535 \<Longrightarrow> kl_parse_u16_decimal (kl_u64_to_dec 20 (word_of_int p)) = Some (nat p)"
  using dec_from_dec_tmp [of "word_of_int p"] kl_u64_to_dec_digits [of "word_of_int p"] kl_u64_to_dec_ne [of "word_of_int p"]
    unat_word_of_port [of p]
  by (simp add: kl_parse_u16_decimal_def u16_loop_eq kl_u64_to_dec_eq)

lemma length_port:
  assumes "1 \<le> p" and "p \<le> 65535"
  shows "length (kl_u64_to_dec 20 (word_of_int p)) \<le> 5"
proof -
  have "nat p < 10 ^ 5" using assms by simp
  then have "length (digits 10 (nat p)) \<le> 5" by (intro length_digits) simp_all
  with assms show ?thesis by (simp add: kl_u64_to_dec_eq dec_tmp_digits unat_word_of_port)
qed

lemma url_port_reparse:
  assumes "1 \<le> p" and "p \<le> 65535" and "peek t = CHR ''/''"
  shows "url_port https (authority_port https p @ t) = Some (p, t)"
proof (cases "p = default_port https")
  case True
  with assms show ?thesis by (simp add: url_port_def authority_port_def default_port_def)
next
  case False
  let ?d = "kl_u64_to_dec 20 (word_of_int p)"
  have "takeWhile digit_char (?d @ t) = ?d \<and> dropWhile digit_char (?d @ t) = t"
    by (rule takeWhile_stop) (use assms kl_u64_to_dec_digits [of "word_of_int p"] in \<open>auto simp: list_all_iff\<close>)
  with False assms parse_port [of p] show ?thesis by (simp add: url_port_def authority_port_def)
qed

lemma after_host_port:
  assumes "path_ok t"
  shows "after_host (authority_port https p @ t)"
proof (cases "p = default_port https")
  case True
  with assms show ?thesis by (cases t) (auto simp: after_host_def authority_port_def path_ok_def auth_char_def)
next
  case False
  let ?d = "kl_u64_to_dec 20 (word_of_int p)"
  have "\<forall>c \<in> set ?d. auth_char c \<and> c \<noteq> CHR ''@''"
    using kl_u64_to_dec_digits [of "word_of_int p"] by (auto simp: list_all_iff auth_char_def)
  moreover have "takeWhile auth_char t = []" using assms by (cases t) (auto simp: path_ok_def auth_char_def)
  ultimately have "takeWhile auth_char (?d @ t) = ?d" and "CHR ''@'' \<notin> set ?d" by (auto simp: takeWhile_append2)
  with False show ?thesis by (simp add: after_host_def authority_port_def auth_char_def)
qed

section \<open>Lemmas: what a successful parse returns\<close>

definition url_ok :: "KlUrl \<Rightarrow> bool" where
  "url_ok u \<longleftrightarrow> path_ok (path u) \<and>
     (if is_unix u
      then host u = None \<and> port u = 0 \<and> unix_path u \<noteq> [] \<and> length (unix_path u) < KL_URL_UNIX_PATH_MAX \<and>
        cstring (unix_path u) \<and> \<not> has_crlf (unix_path u)
      else unix_path u = [] \<and> 1 \<le> port u \<and> port u \<le> 65535 \<and>
        (\<exists>h. host u = Some h \<and> h \<noteq> [] \<and> \<not> has_space_or_ctl h \<and> host_ok h))"

lemma url_unix_ok:
  assumes "url_unix s out = Some u" and "cstring s" and "is_unix out"
  shows "url_ok u"
proof -
  from assms obtain p where ne: "takeWhile auth_char s \<noteq> []"
    and p: "pct_decode (takeWhile auth_char s) KL_URL_UNIX_PATH_MAX [] = Some p" and c: "\<not> has_crlf p"
    and u: "url_path (dropWhile auth_char s) (out\<lparr>unix_path := p, host := None, port := 0\<rparr>) = Some u"
    by (auto simp: url_unix_def Let_def split: if_splits option.splits)
  have "path_ok (path u)" using url_path_Some [OF u] assms(2) by (simp add: dropWhile_eq_drop cstring_drop)
  moreover have "cstring p \<and> length p < KL_URL_UNIX_PATH_MAX \<and> p \<noteq> []"
    using pct_decode_Some [OF p] ne by (simp add: KL_URL_UNIX_PATH_MAX_def)
  ultimately show ?thesis using c assms(3) url_path_fields [OF u] by (simp add: url_ok_def)
qed

lemma url_tcp_Some:
  assumes "url_tcp s out = Some u" and "cstring s"
  obtains h p where "h \<noteq> []" and "\<not> has_space_or_ctl h" and "host_ok h" and "1 \<le> p" and "p \<le> 65535"
    and "path_ok (path u)" and "u = out\<lparr>host := Some h, port := p, path := path u\<rparr>"
    and "host u = Some h" and "port u = p" and "is_unix u = is_unix out" and "unix_path u = unix_path out"
    and "is_https u = is_https out" and "is_ws u = is_ws out"
proof -
  from assms(1) obtain h r p r' where h: "url_host s = Some (h, r)" and ne: "h \<noteq> []" "\<not> has_space_or_ctl h"
    and p: "url_port (is_https out) r = Some (p, r')" and u: "url_path r' (out\<lparr>host := Some h, port := p\<rparr>) = Some u"
    by (auto simp: url_tcp_def split: option.splits if_splits prod.splits)
  note a = url_host_Some [OF h assms(2)]
  note b = url_port_Some [OF p conjunct2 [OF a]]
  show ?thesis using that [OF ne] a b url_path_Some [OF u] url_path_fields [OF u] by simp
qed

lemma url_tcp_ok:
  assumes "url_tcp s out = Some u" and "cstring s" and "\<not> is_unix out" and "unix_path out = []"
  shows "url_ok u"
proof -
  from assms(1,2) obtain h p where "h \<noteq> []" "\<not> has_space_or_ctl h" "host_ok h" "1 \<le> p" "p \<le> 65535" "path_ok (path u)"
    "host u = Some h" "port u = p" "is_unix u = is_unix out" "unix_path u = unix_path out" by (rule url_tcp_Some)
  then show ?thesis using assms(3,4) by (simp add: url_ok_def)
qed

lemma kl_url_parse_cases:
  assumes "kl_url_parse url = Some u"
  obtains https ws unix n where "url_scheme url = Some (https, ws, unix, n)"
    and "(if unix then url_unix else url_tcp) (drop n url) (zero_url\<lparr>is_https := https, is_ws := ws, is_unix := unix\<rparr>) = Some u"
  using assms unfolding kl_url_parse_def by (auto simp: Let_def split: option.splits if_splits)

lemma kl_url_parse_ok:
  assumes "kl_url_parse url = Some u" and "cstring url"
  shows "url_ok u"
proof -
  from assms(1) obtain https ws unix n where "(if unix then url_unix else url_tcp) (drop n url)
      (zero_url\<lparr>is_https := https, is_ws := ws, is_unix := unix\<rparr>) = Some u"
    by (rule kl_url_parse_cases)
  then show ?thesis using url_unix_ok url_tcp_ok cstring_drop [OF assms(2)]
    by (cases unix) (fastforce simp: zero_url_def)+
qed

section \<open>Lemmas: the authority\<close>

lemma append_chain_Nil [simp]: "append_chain cap [] st = Some st"
  by (simp add: append_chain_def)

lemma append_chain_Cons:
  "append_chain cap (s # ss) (buf, off) =
     (case kl_buf_append_n buf cap off s of (e, buf', off') \<Rightarrow> if e \<noteq> 0 then None else append_chain cap ss (buf', off'))"
proof -
  have "fold (\<lambda>s r. case r of None \<Rightarrow> None
      | Some (buf, off) \<Rightarrow> (case kl_buf_append_n buf cap off s of (e, buf', off') \<Rightarrow> if e \<noteq> 0 then None else Some (buf', off'))) ss None
      = (None :: (string \<times> nat) option)" by (induction ss) simp_all
  then show ?thesis by (simp add: append_chain_def split: prod.split)
qed

lemma append_chain_fits:
  "length buf = cap \<Longrightarrow> off + length (concat ss) < cap \<Longrightarrow>
     \<exists>buf'. append_chain cap ss (buf, off) = Some (buf', off + length (concat ss)) \<and> length buf' = cap \<and>
       take (off + length (concat ss)) buf' = take off buf @ concat ss"
proof (induction ss arbitrary: buf off)
  case (Cons s ss)
  from Cons.prems have "length buf = cap" "off \<le> cap" "off + length s < cap" by simp_all
  then obtain buf1 where b: "kl_buf_append_n buf cap off s = (0, buf1, off + length s)" "length buf1 = cap"
    "take (off + length s) buf1 = take off buf @ s"
    by (cases rule: kl_buf_append_n_cases [of buf cap off s]) auto
  with Cons.IH [of buf1 "off + length s"] Cons.prems show ?case by (simp add: append_chain_Cons add.assoc)
qed simp

definition authority_of :: "KlUrl \<Rightarrow> string" where
  "authority_of u = (case host u of None \<Rightarrow> [] | Some h \<Rightarrow> authority_host h) @
     (if is_unix u then [] else authority_port (is_https u) (port u))"

lemma kl_url_authority_fits:
  assumes "length out = cap" and "length (authority_of u) < cap"
  shows "\<exists>buf. kl_url_authority u out cap = Some (buf, length (authority_of u)) \<and>
     take (length (authority_of u)) buf = authority_of u"
proof -
  let ?h = "case host u of None \<Rightarrow> [] | Some h \<Rightarrow> h"
  define ss where "ss = (if CHR '':'' \<in> set ?h then [''['', ?h, '']''] else [?h]) @
    (if \<not> is_unix u \<and> port u \<noteq> default_port (is_https u) then ['':'', kl_u64_to_dec 20 (word_of_int (port u))] else [])"
  have e: "concat ss = authority_of u"
    by (simp add: ss_def authority_of_def authority_host_def authority_port_def split: option.split)
  have "kl_url_authority u out cap = append_chain cap ss (out, 0)"
    using assms by (auto simp: kl_url_authority_def ss_def Let_def default_port_def)
  with append_chain_fits [of out cap 0 ss] assms e show ?thesis by auto
qed

section \<open>Lemmas: replacing the path\<close>

abbreviation app_rest :: "string \<Rightarrow> ('a \<times> string) option \<Rightarrow> ('a \<times> string) option" where
  "app_rest x \<equiv> map_option (\<lambda>(a, q). (a, q @ x))"

lemma takeWhile_split:
  assumes "\<And>c. P c \<Longrightarrow> Q c" and "\<not> Q (peek x)" and "\<not> Q NUL"
  shows "takeWhile P (a @ x) = takeWhile P a \<and> dropWhile P (a @ x) = dropWhile P a @ x"
  using assms by (induction a) (cases x, auto)

lemma url_host_append:
  assumes "\<forall>c \<in> set a. auth_char c" and x: "\<not> auth_char (peek x)"
  shows "url_host (a @ x) = app_rest x (url_host a)"
proof -
  have nn: "\<not> auth_char NUL" by (simp add: auth_char_def)
  have t: "takeWhile auth_char (a @ x) = a" "takeWhile auth_char a = a"
    using takeWhile_stop [of auth_char a x] nn assms by (auto simp: takeWhile_eq_all_conv)
  have h: "takeWhile host_char (a @ x) = takeWhile host_char a" "dropWhile host_char (a @ x) = dropWhile host_char a @ x"
    using takeWhile_split [of host_char auth_char x a] x nn by (simp_all add: host_char_def)
  show ?thesis
  proof (cases a)
    case Nil
    have "auth_char CHR ''[''" by (simp add: auth_char_def)
    then have "peek x \<noteq> CHR ''[''" using x by metis
    moreover have "takeWhile auth_char x = []" "takeWhile host_char x = []" "dropWhile host_char x = x"
      using t(1) h Nil by (simp_all only: append_Nil takeWhile.simps dropWhile.simps)
    ultimately show ?thesis unfolding Nil url_host_def Let_def by simp
  next
    case (Cons c a')
    show ?thesis
    proof (cases "c = CHR ''[''")
      case True
      show ?thesis
      proof (cases "v6_scan a' False")
        case (Some n)
        from v6_scan_Some [OF this] have "n < length a'" by (elim exE conjE) simp
        with Some True Cons t show ?thesis by (simp add: url_host_def Let_def)
      qed (use True Cons t in \<open>simp add: url_host_def Let_def\<close>)
    qed (use Cons t h in \<open>simp add: url_host_def Let_def\<close>)
  qed
qed

lemma url_host_suffix:
  assumes "url_host a = Some (h, q)" and "\<forall>c \<in> set a. auth_char c"
  shows "\<forall>c \<in> set q. auth_char c"
  using assms by (auto simp: url_host_def Let_def split: if_splits option.splits dest: in_set_dropD set_dropWhileD)

lemma url_port_append:
  assumes "\<not> auth_char (peek x)"
  shows "url_port https (q @ x) = app_rest x (url_port https q)"
proof (cases q)
  case Nil
  with assms show ?thesis by (auto simp: url_port_def auth_char_def)
next
  case (Cons c q')
  have "\<not> digit_char (peek x)" using assms by (auto simp: auth_char_def)
  then have "takeWhile digit_char (q' @ x) = takeWhile digit_char q'"
    using takeWhile_split [of digit_char digit_char x q'] by simp
  moreover have "drop (length (takeWhile digit_char q')) (q' @ x) = drop (length (takeWhile digit_char q')) q' @ x"
    using length_takeWhile_le [of digit_char q'] by simp
  ultimately show ?thesis using Cons by (auto simp: url_port_def Let_def split: option.split)
qed

lemma url_port_suffix:
  assumes "url_port https a = Some (p, q)" and "\<forall>c \<in> set a. auth_char c"
  shows "\<forall>c \<in> set q. auth_char c"
  using assms by (cases a) (auto simp: url_port_def Let_def split: if_splits option.splits dest: in_set_dropD)

text \<open>A URL accepted with authority \<open>a\<close> and anything after it is accepted with any other path.\<close>

lemma url_tcp_replace:
  assumes "url_tcp (a @ x) out = Some u" and a: "\<forall>c \<in> set a. auth_char c" and x: "\<not> auth_char (peek x)"
    and y: "peek y = CHR ''/''"
  shows "url_tcp (a @ y) out = url_path y u"
proof -
  have ny: "\<not> auth_char (peek y)" using y by (simp add: auth_char_def)
  from assms(1) obtain h q p r where h: "url_host a = Some (h, q)" and ne: "h \<noteq> []" "\<not> has_space_or_ctl h"
    and p: "url_port (is_https out) q = Some (p, r)" and u: "url_path (r @ x) (out\<lparr>host := Some h, port := p\<rparr>) = Some u"
    by (auto simp: url_tcp_def url_host_append [OF a x] url_port_append [OF x] split: option.splits if_splits prod.splits)
  have "\<forall>c \<in> set r. auth_char c" using url_port_suffix [OF p] url_host_suffix [OF h a] by blast
  with u have r: "r = []" by (cases r) (auto simp: url_path_def auth_char_def split: if_splits)
  have "url_tcp (a @ y) out = url_path y (out\<lparr>host := Some h, port := p\<rparr>)"
    using h ne p r by (simp add: url_tcp_def url_host_append [OF a ny] url_port_append [OF ny])
  also have "\<dots> = url_path y u" using u r y by (auto simp: url_path_def split: if_splits)
  finally show ?thesis .
qed

lemma url_unix_replace:
  assumes "url_unix (a @ x) out = Some u" and a: "\<forall>c \<in> set a. auth_char c" and x: "\<not> auth_char (peek x)"
    and y: "peek y = CHR ''/''"
  shows "url_unix (a @ y) out = url_path y u"
proof -
  have nn: "\<not> auth_char NUL" and ny: "\<not> auth_char (peek y)" using y by (simp_all add: auth_char_def)
  from assms(1) takeWhile_stop [OF nn a x] obtain p where ne: "a \<noteq> []" and p: "pct_decode a KL_URL_UNIX_PATH_MAX [] = Some p"
    and c: "\<not> has_crlf p" and u: "url_path x (out\<lparr>unix_path := p, host := None, port := 0\<rparr>) = Some u"
    by (auto simp: url_unix_def Let_def split: if_splits option.splits)
  then have "url_unix (a @ y) out = url_path y (out\<lparr>unix_path := p, host := None, port := 0\<rparr>)"
    using takeWhile_stop [OF nn a ny] by (simp add: url_unix_def Let_def)
  also have "\<dots> = url_path y u" using u y by (auto simp: url_path_def split: if_splits)
  finally show ?thesis .
qed

lemma strstr_from_skip:
  "NUL \<notin> set l \<Longrightarrow> CHR '':'' \<notin> set l \<Longrightarrow> strstr_from (l @ ''://'' @ s) ''://'' i = Some (i + length l)"
  by (induction l arbitrary: i) (auto simp: strstr_match.simps)

lemma lower_colon: "lower s = lower ''://'' \<Longrightarrow> s = ''://''"
proof -
  have e: "ascii_lower (uchar c) = uchar d \<Longrightarrow> uchar d < 97 \<Longrightarrow> c = d" for c d
    by (auto simp: ascii_lower_def split: if_splits)
  assume "lower s = lower ''://''"
  then obtain a b c where s: "s = [a, b, c]" and l: "ascii_lower (uchar a) = uchar CHR '':''"
    "ascii_lower (uchar b) = uchar CHR ''/''" "ascii_lower (uchar c) = uchar CHR ''/''"
    by (auto simp: map_eq_Cons_conv ascii_lower_def [of 58] ascii_lower_def [of 47])
  show ?thesis unfolding s using e [OF l(1)] e [OF l(2)] e [OF l(3)] by simp
qed

lemma kl_strstr_scheme:
  assumes "url_scheme url = Some (https, ws, unix, n)"
  shows "3 \<le> n \<and> kl_strstr url ''://'' = Some (n - 3)"
proof -
  define l where "l = (if ws then ''ws'' else ''http'') @ (if https then ''s'' else []) @ (if unix then ''+unix'' else [])"
  have "scheme_of (https, ws, unix) = l @ ''://''" by (simp add: l_def)
  with url_scheme_Some [OF assms] have n: "n = length l + 3" "n \<le> length url"
    and w: "lower (take n url) = lower l @ lower ''://''" by (simp_all only: length_append map_append) auto
  have "take (length l) (lower (take n url)) = lower l" "drop (length l) (lower (take n url)) = lower ''://''"
    unfolding w by simp_all
  then have "lower (take (length l) (take n url)) = lower l" "lower (drop (length l) (take n url)) = lower ''://''"
    by (simp_all only: take_map drop_map)
  then have a: "lower (take (length l) url) = lower l" and b: "drop (length l) (take n url) = ''://''"
    using lower_colon n(1) by (simp add: min_def, blast)
  have "ascii_lower 58 \<notin> set (lower l)" and "ascii_lower 0 \<notin> set (lower l)"
    by (auto simp: l_def ascii_lower_def)
  then have "CHR '':'' \<notin> set (take (length l) url)" "NUL \<notin> set (take (length l) url)"
    unfolding a [symmetric] by force+
  then have "kl_strstr (take (length l) url @ ''://'' @ drop n url) ''://'' = Some (length (take (length l) url))"
    using strstr_from_skip [of "take (length l) url" "drop n url" 0] by (simp add: kl_strstr_def)
  moreover have "take n url = take (length l) url @ ''://''"
    using append_take_drop_id [of "length l" "take n url"] b n(1) by (simp add: min_def)
  then have "take (length l) url @ ''://'' @ drop n url = url"
    using append_take_drop_id [of n url] by (metis append.assoc)
  moreover have "length (take (length l) url) = n - 3" using n by simp
  ultimately show ?thesis using n(1) by (simp only:) simp
qed

lemma peek_dropWhile: "\<not> P NUL \<Longrightarrow> \<not> P (peek (dropWhile P s))"
  by (induction s) auto

lemma kl_url_resolve_origin:
  assumes "kl_url_parse base_url = Some u" and "cstring loc" and l: "peek loc = CHR ''/''" "peek (tl loc) \<noteq> CHR ''/''"
    and r: "kl_url_resolve base_url loc cap = Some s"
  shows "kl_url_parse s = url_path (takeWhile (\<lambda>c. c \<noteq> CHR ''#'') loc) u"
proof -
  let ?y = "takeWhile (\<lambda>c. c \<noteq> CHR ''#'') loc"
  from assms(1) obtain https ws unix n where sc: "url_scheme base_url = Some (https, ws, unix, n)"
    and u: "(if unix then url_unix else url_tcp) (drop n base_url) (zero_url\<lparr>is_https := https, is_ws := ws, is_unix := unix\<rparr>) = Some u"
    by (rule kl_url_parse_cases)
  let ?a = "takeWhile auth_char (drop n base_url)" and ?x = "dropWhile auth_char (drop n base_url)"
  note k = kl_strstr_scheme [OF sc]
  have nl: "n \<le> length base_url" using url_scheme_Some [OF sc] by blast
  have ne: "\<not> scheme_is loc ''http://''" "\<not> scheme_is loc ''https://''" using l by (simp_all add: scheme_is_Cons ascii_lower_def)
  have "s = take (n + length ?a) base_url @ ?y"
    using r l ne k by (auto simp: kl_url_resolve_def Let_def strip_fragment_takeWhile split: if_splits)
  also have "take (n + length ?a) base_url = take n base_url @ ?a"
    unfolding take_add using takeWhile_eq_take [of auth_char "drop n base_url"] by argo
  finally have s: "s = take n base_url @ ?a @ ?y" by simp
  have y: "peek ?y = CHR ''/''" using l by (cases loc) auto
  have x: "\<not> auth_char (peek ?x)"
    by (rule peek_dropWhile) (simp add: auth_char_def)
  have a: "\<forall>c \<in> set ?a. auth_char c" by (auto dest: set_takeWhileD)
  have "drop n s = ?a @ ?y" using nl by (simp add: s)
  then have "kl_url_parse s = (if unix then url_unix else url_tcp) (?a @ ?y) (zero_url\<lparr>is_https := https, is_ws := ws, is_unix := unix\<rparr>)"
    using url_scheme_replace [OF sc, of "?a @ ?y"] by (simp add: kl_url_parse_def s)
  also have "\<dots> = url_path ?y u"
    using u url_unix_replace [OF _ a x y] url_tcp_replace [OF _ a x y] by (cases unix) simp_all
  finally show ?thesis .
qed

lemma kl_url_reparse:
  assumes "kl_url_parse url = Some u" and "cstring url" and "\<not> is_unix u"
  shows "kl_url_parse (scheme_of (is_https u, is_ws u, False) @ authority_of u @ path u) = Some u"
proof -
  from assms(1) obtain https ws unix n where sc: "url_scheme url = Some (https, ws, unix, n)"
    and u: "(if unix then url_unix else url_tcp) (drop n url) (zero_url\<lparr>is_https := https, is_ws := ws, is_unix := unix\<rparr>) = Some u"
    by (rule kl_url_parse_cases)
  have "is_unix u = unix" using u
    by (cases unix) (auto simp: url_unix_def url_tcp_def Let_def split: if_splits option.splits dest!: url_path_fields)
  with assms(3) u have t: "url_tcp (drop n url) (zero_url\<lparr>is_https := https, is_ws := ws, is_unix := False\<rparr>) = Some u" by simp
  let ?o = "zero_url\<lparr>is_https := https, is_ws := ws, is_unix := False\<rparr>"
  from t cstring_drop [OF assms(2)] obtain h p where h: "h \<noteq> []" "\<not> has_space_or_ctl h" "host_ok h"
    and p: "1 \<le> p" "p \<le> 65535" and pa: "path_ok (path u)" and ue: "u = ?o\<lparr>host := Some h, port := p, path := path u\<rparr>"
    and f: "host u = Some h" "port u = p" "is_https u = https" "is_ws u = ws"
    by (rule url_tcp_Some) (simp add: zero_url_def)
  have au: "authority_of u = authority_host h @ authority_port https p"
    using f assms(3) by (simp add: authority_of_def)
  have "url_tcp (authority_host h @ authority_port https p @ path u) ?o = url_path (path u) (?o\<lparr>host := Some h, port := p\<rparr>)"
    using url_host_reparse [OF h(3,1) after_host_port [OF pa]] url_port_reparse [OF p, of "path u" https] pa h
    by (simp add: url_tcp_def path_ok_def)
  also have "\<dots> = Some u" using url_path_ok [OF pa] ue by simp
  finally show ?thesis using url_scheme_lit [of https ws False "authority_of u @ path u"] f
    by (simp add: kl_url_parse_def au del: scheme_of.simps)
qed

section \<open>Properties\<close>

lemmas url_eval = kl_url_parse_def url_scheme_def scheme_is_Cons ascii_lower_def url_tcp_def url_host_def url_port_def
  url_path_def zero_url_def auth_char_def host_char_def has_space_or_ctl_def kl_parse_u16_decimal_def Let_def

text \<open>
  C18. What a parsed URL can carry into a request. The path starts with a slash and has no fragment, space
  or control byte; the host is non-empty and has no space, control byte, slash, question mark, hash or at
  sign; the port is between 1 and 65535; the socket path of a \<open>+unix\<close> URL is a non-empty C string that
  fits its array and has no CR or LF. So neither the request line nor the \<open>Host\<close> header can be split.
\<close>

theorem kl_url_parse_safe:
  assumes "kl_url_parse url = Some u" and "cstring url"
  shows "peek (path u) = CHR ''/'' \<and> \<not> has_space_or_ctl (path u) \<and> CHR ''#'' \<notin> set (path u) \<and>
    (if is_unix u
     then host u = None \<and> port u = 0 \<and> 0 < length (unix_path u) \<and> length (unix_path u) < KL_URL_UNIX_PATH_MAX \<and>
       cstring (unix_path u) \<and> \<not> has_crlf (unix_path u)
     else 1 \<le> port u \<and> port u \<le> 65535 \<and>
       (\<exists>h. host u = Some h \<and> h \<noteq> [] \<and> \<not> has_space_or_ctl h \<and> set h \<inter> {CHR ''/'', CHR ''?'', CHR ''#'', CHR ''@''} = {}))"
proof -
  have "host_ok h \<Longrightarrow> set h \<inter> {CHR ''/'', CHR ''?'', CHR ''#'', CHR ''@''} = {}" for h
    by (auto simp: host_ok_def auth_char_def)
  then show ?thesis using kl_url_parse_ok [OF assms] unfolding url_ok_def path_ok_def by (cases "is_unix u") auto
qed

theorem kl_url_parse_safe_witness:
  "\<exists>u. kl_url_parse ''http://a:81/x#f'' = Some u \<and> path u = ''/x'' \<and> host u = Some ''a'' \<and> port u = 81 \<and> CHR ''#'' \<notin> set (path u)"
proof -
  have p: "kl_url_parse ''http://a:81/x#f'' = Some (zero_url\<lparr>host := Some ''a'', port := 81, path := ''/x''\<rparr>)"
    by (simp add: url_eval)
  have c: "cstring ''http://a:81/x#f''" by (simp add: cstring_def)
  from kl_url_parse_safe [OF p c] p show ?thesis by simp
qed

text \<open>
  C32. The authority written by \<open>kl_url_authority\<close> (the \<open>Host\<close> header) names what was parsed: given room for
  it, the call succeeds, and the scheme, this authority and the path parse back to the same URL. An IPv6
  literal gets its brackets back and a default port is left out.
\<close>

theorem kl_url_roundtrip:
  assumes "kl_url_parse url = Some u" and "cstring url" and "\<not> is_unix u"
    and "length out = cap" and "length (the (host u)) + 9 \<le> cap"
  shows "\<exists>buf n. kl_url_authority u out cap = Some (buf, n) \<and>
    kl_url_parse (scheme_of (is_https u, is_ws u, False) @ take n buf @ path u) = Some u"
proof -
  from kl_url_parse_ok [OF assms(1,2)] assms(3) obtain h where h: "host u = Some h" and p: "1 \<le> port u" "port u \<le> 65535"
    by (auto simp: url_ok_def)
  have "length (authority_of u) < cap"
    using assms(3,5) h length_port [OF p] by (auto simp: authority_of_def authority_host_def authority_port_def)
  from kl_url_authority_fits [OF assms(4) this] kl_url_reparse [OF assms(1-3)] show ?thesis by auto
qed

theorem kl_url_roundtrip_witness:
  "\<exists>u. kl_url_parse ''http://[::1]:81'' = Some u \<and> host u = Some ''::1'' \<and>
    (\<exists>buf n. kl_url_authority u (replicate 32 NUL) 32 = Some (buf, n) \<and>
      kl_url_parse (scheme_of (False, False, False) @ take n buf @ ''/'') = Some u)"
proof -
  let ?u = "zero_url\<lparr>host := Some ''::1'', port := 81, path := ''/''\<rparr>"
  have p: "kl_url_parse ''http://[::1]:81'' = Some ?u"
    by (simp add: url_eval v6_char_def hex_val_def)
  have c: "cstring ''http://[::1]:81''" by (simp add: cstring_def)
  from kl_url_roundtrip [OF p c, of "replicate 32 NUL" 32] p show ?thesis by (simp add: zero_url_def del: scheme_of.simps)
qed

text \<open>
  C19. A redirect to an absolute path stays on its origin: resolving a \<open>Location\<close> that starts with one
  slash against a URL and parsing the result gives that URL with the path of the \<open>Location\<close>, its fragment
  removed. The scheme, host, port and socket path cannot change; a \<open>Location\<close> with a space or control
  byte is refused by the parser.
\<close>

theorem kl_url_resolve_same_origin:
  assumes "kl_url_parse base_url = Some u" and "cstring loc" and "peek loc = CHR ''/''" and "peek (tl loc) \<noteq> CHR ''/''"
    and "kl_url_resolve base_url loc out_size = Some s"
  shows "kl_url_parse s = (if has_space_or_ctl (take (strip_fragment loc) loc) then None
     else Some (u\<lparr>path := take (strip_fragment loc) loc\<rparr>))"
proof -
  let ?y = "takeWhile (\<lambda>c. c \<noteq> CHR ''#'') loc"
  have y: "peek ?y = CHR ''/''" using assms(3) by (cases loc) auto
  have "CHR ''#'' \<notin> set ?y" by (auto dest: set_takeWhileD)
  then have "\<not> has_space_or_ctl ?y \<Longrightarrow> path_ok ?y" using y by (simp add: path_ok_def)
  then have "url_path ?y u = (if has_space_or_ctl ?y then None else Some (u\<lparr>path := ?y\<rparr>))"
    using url_path_ok [of ?y u] by (cases "has_space_or_ctl ?y") (simp_all add: url_path_def [of ?y u])
  with kl_url_resolve_origin [OF assms] show ?thesis by (simp add: strip_fragment_takeWhile)
qed

theorem kl_url_resolve_same_origin_witness:
  "\<exists>u s. kl_url_parse ''http://a/x'' = Some u \<and> kl_url_resolve ''http://a/x'' ''/y#z'' 64 = Some s \<and> s = ''http://a/y'' \<and>
     kl_url_parse s = Some (u\<lparr>path := ''/y''\<rparr>)"
proof -
  have p: "kl_url_parse ''http://a/x'' = Some (zero_url\<lparr>host := Some ''a'', port := 80, path := ''/x''\<rparr>)"
    by (simp add: url_eval)
  have c: "cstring ''/y#z''" by (simp add: cstring_def)
  have r: "kl_url_resolve ''http://a/x'' ''/y#z'' 64 = Some ''http://a/y''"
    by (simp add: kl_url_resolve_def scheme_is_Cons ascii_lower_def kl_strstr_def strstr_match.simps auth_char_def)
  from kl_url_resolve_same_origin [OF p c _ _ r] p r show ?thesis by (simp add: has_space_or_ctl_def)
qed

end
