(* ===== verification/Sockaddr.thy ===== *)
theory Sockaddr
  imports Cstr
begin

unbundle bit_operations_syntax

text \<open>
  Platform-neutral socket addresses (\<open>src/sockaddr.c\<close>): construction from wire bytes, comparison, the
  parser of numeric literals and the formatter with the zero compression of RFC 5952.

  The two members of the union \<open>u\<close> are two fields, of which the family says which one is in use. A
  formatter returns the text it leaves in a buffer of \<open>n\<close> bytes, or \<open>None\<close> for -1.
\<close>

section \<open>Addresses\<close>

datatype KlAddrFamily = KL_AF_UNSPEC | KL_AF_INET | KL_AF_INET6 | KL_AF_UNIX

definition KL_UNIX_PATH_MAX :: nat where "KL_UNIX_PATH_MAX = 108"

definition KL_SOCKADDR_STRLEN :: nat where "KL_SOCKADDR_STRLEN = 128"

record KlSockAddr =
  family :: KlAddrFamily
  port :: u16
  scope_id :: u32
  addr_len :: nat
  u_ip :: "byte list"
  u_path :: string

definition zero_sockaddr :: KlSockAddr where
  "zero_sockaddr = \<lparr>family = KL_AF_UNSPEC, port = 0, scope_id = 0, addr_len = 0, u_ip = replicate 16 0, u_path = []\<rparr>"

definition kl_sockaddr_from_ipv4 :: "byte list \<Rightarrow> u16 \<Rightarrow> KlSockAddr" where
  "kl_sockaddr_from_ipv4 ip4 p =
     zero_sockaddr\<lparr>family := KL_AF_INET, port := p, addr_len := 4, u_ip := take 4 ip4 @ replicate 12 0\<rparr>"

definition kl_sockaddr_from_ipv6 :: "byte list \<Rightarrow> u16 \<Rightarrow> u32 \<Rightarrow> KlSockAddr" where
  "kl_sockaddr_from_ipv6 ip6 p scope =
     zero_sockaddr\<lparr>family := KL_AF_INET6, port := p, scope_id := scope, addr_len := 16, u_ip := take 16 ip6\<rparr>"

definition kl_sockaddr_from_unix :: "string \<Rightarrow> KlSockAddr option" where
  "kl_sockaddr_from_unix path =
     (if length path = 0 \<or> length path \<ge> KL_UNIX_PATH_MAX then None
      else Some (zero_sockaddr\<lparr>family := KL_AF_UNIX, addr_len := length path, u_path := path\<rparr>))"

section \<open>Numeric literals\<close>

definition is_dec :: "char \<Rightarrow> bool" where
  "is_dec c \<longleftrightarrow> uchar CHR ''0'' \<le> uchar c \<and> uchar c \<le> uchar CHR ''9''"

text \<open>The digits of one part of a dotted quad: its value and what follows.\<close>

fun octet_loop :: "string \<Rightarrow> nat \<Rightarrow> nat \<Rightarrow> (nat \<times> string) option" where
  "octet_loop [] v nd = Some (v, [])"
| "octet_loop (c # s) v nd =
     (if is_dec c then
        let v = v * 10 + (uchar c - uchar CHR ''0'') in
        if nd + 1 > 3 \<or> v > 255 then None else octet_loop s v (nd + 1)
      else Some (v, c # s))"

text \<open>The parts that are left to read, the last of which must end the string.\<close>

fun octets :: "nat \<Rightarrow> string \<Rightarrow> byte list option" where
  "octets 0 s = (if peek s = NUL then Some [] else None)"
| "octets (Suc k) s =
     (if \<not> is_dec (peek s) then None
      else case octet_loop s 0 0 of
        None \<Rightarrow> None
      | Some (v, s) \<Rightarrow>
          if k > 0 then
            if peek s \<noteq> CHR ''.'' then None else map_option ((#) (of_nat v)) (octets k (tl s))
          else map_option ((#) (of_nat v)) (octets k s))"

definition parse_ipv4 :: "string \<Rightarrow> byte list option" where
  "parse_ipv4 s = octets 4 s"

definition hex_digit :: "char \<Rightarrow> nat option" where
  "hex_digit c =
     (if is_dec c then Some (uchar c - uchar CHR ''0'')
      else if uchar CHR ''a'' \<le> uchar c \<and> uchar c \<le> uchar CHR ''f'' then Some (uchar c - uchar CHR ''a'' + 10)
      else if uchar CHR ''A'' \<le> uchar c \<and> uchar c \<le> uchar CHR ''F'' then Some (uchar c - uchar CHR ''A'' + 10)
      else None)"

fun hextet_loop :: "string \<Rightarrow> nat \<Rightarrow> nat \<Rightarrow> (nat \<times> nat \<times> string) option" where
  "hextet_loop [] v nd = Some (v, nd, [])"
| "hextet_loop (c # s) v nd =
     (case hex_digit c of
        None \<Rightarrow> Some (v, nd, c # s)
      | Some d \<Rightarrow> if nd + 1 > 4 then None else hextet_loop s (push_bit 4 v OR d) (nd + 1))"

lemma hextet_loop_length: "hextet_loop s v n = Some (v', n', s') \<Longrightarrow> length s' + n' = length s + n"
  by (induction s v n rule: hextet_loop.induct) (auto split: option.splits if_splits)

text \<open>
  The loop of \<open>parse_ipv6\<close>: \<open>buf\<close> holds the bytes read so far and \<open>gap\<close> the place of the \<open>::\<close>. The result is
  both, when the string has ended where it may.
\<close>

definition dotted :: "string \<Rightarrow> bool" where
  "dotted s \<longleftrightarrow> peek (dropWhile (\<lambda>c. c \<noteq> CHR '':'' \<and> c \<noteq> CHR ''.'') s) = CHR ''.''"

function ipv6_loop :: "string \<Rightarrow> byte list \<Rightarrow> nat option \<Rightarrow> (byte list \<times> nat option) option" where
  "ipv6_loop s buf gap =
     (if dotted s then
        if length buf > 12 then None
        else case parse_ipv4 s of None \<Rightarrow> None | Some q \<Rightarrow> Some (buf @ q, gap)
      else case hextet_loop s 0 0 of
        None \<Rightarrow> None
      | Some (v, nd, s') \<Rightarrow>
          if nd = 0 then None
          else if length buf > 14 then None
          else let buf = buf @ [of_nat (drop_bit 8 v), of_nat (v AND 0xFF)] in
            if peek s' = NUL then Some (buf, gap)
            else if peek s' \<noteq> CHR '':'' then None
            else let s' = tl s' in
              if peek s' = CHR '':'' then
                if gap \<noteq> None then None
                else let gap = Some (length buf); s' = tl s' in
                  if peek s' = NUL then Some (buf, gap) else ipv6_loop s' buf gap
              else ipv6_loop s' buf gap)"
  by pat_completeness auto
termination
  by (relation "measure (\<lambda>(s, buf, gap). length s)") (auto dest: hextet_loop_length)

declare ipv6_loop.simps [simp del]

definition expand_gap :: "byte list \<Rightarrow> nat option \<Rightarrow> byte list option" where
  "expand_gap buf gap =
     (case gap of
        Some g \<Rightarrow> if length buf \<ge> 16 then None else Some (take g buf @ replicate (16 - length buf) 0 @ drop g buf)
      | None \<Rightarrow> if length buf \<noteq> 16 then None else Some buf)"

definition parse_ipv6 :: "string \<Rightarrow> byte list option" where
  "parse_ipv6 s =
     (if peek s = CHR '':'' then
        if peek (tl s) \<noteq> CHR '':'' then None
        else let s = tl (tl s) in
          if peek s = NUL then Some (replicate 16 0)
          else case ipv6_loop s [] (Some 0) of None \<Rightarrow> None | Some (buf, gap) \<Rightarrow> expand_gap buf gap
      else case ipv6_loop s [] None of None \<Rightarrow> None | Some (buf, gap) \<Rightarrow> expand_gap buf gap)"

definition kl_sockaddr_parse :: "string \<Rightarrow> u16 \<Rightarrow> KlSockAddr option" where
  "kl_sockaddr_parse host p =
     (case parse_ipv4 host of
        Some v4 \<Rightarrow> Some (kl_sockaddr_from_ipv4 v4 p)
      | None \<Rightarrow>
          case parse_ipv6 host of Some v6 \<Rightarrow> Some (kl_sockaddr_from_ipv6 v6 p 0) | None \<Rightarrow> None)"

section \<open>Accessors and comparison\<close>

definition kl_sockaddr_family :: "KlSockAddr \<Rightarrow> KlAddrFamily" where
  "kl_sockaddr_family a = family a"

definition kl_sockaddr_port :: "KlSockAddr \<Rightarrow> u16" where
  "kl_sockaddr_port a = port a"

definition kl_sockaddr_set_port :: "KlSockAddr \<Rightarrow> u16 \<Rightarrow> KlSockAddr" where
  "kl_sockaddr_set_port a p = a\<lparr>port := p\<rparr>"

definition kl_sockaddr_equal_addr :: "KlSockAddr \<Rightarrow> KlSockAddr \<Rightarrow> bool" where
  "kl_sockaddr_equal_addr a b =
     (if family a \<noteq> family b then False
      else case family a of
        KL_AF_INET \<Rightarrow> take 4 (u_ip a) = take 4 (u_ip b)
      | KL_AF_INET6 \<Rightarrow> scope_id a = scope_id b \<and> take 16 (u_ip a) = take 16 (u_ip b)
      | KL_AF_UNIX \<Rightarrow> addr_len a = addr_len b \<and> take (addr_len a) (u_path a) = take (addr_len a) (u_path b)
      | KL_AF_UNSPEC \<Rightarrow> False)"

definition kl_sockaddr_equal :: "KlSockAddr \<Rightarrow> KlSockAddr \<Rightarrow> bool" where
  "kl_sockaddr_equal a b = (if \<not> kl_sockaddr_equal_addr a b then False else port a = port b)"

definition kl_sockaddr_is_loopback :: "KlSockAddr \<Rightarrow> bool" where
  "kl_sockaddr_is_loopback a =
     (case family a of
        KL_AF_INET \<Rightarrow> u_ip a ! 0 = 127
      | KL_AF_INET6 \<Rightarrow> take 16 (u_ip a) = replicate 15 0 @ [1]
      | _ \<Rightarrow> False)"

definition kl_sockaddr_is_multicast :: "KlSockAddr \<Rightarrow> bool" where
  "kl_sockaddr_is_multicast a =
     (case family a of
        KL_AF_INET \<Rightarrow> (u_ip a ! 0) AND 0xF0 = 0xE0
      | KL_AF_INET6 \<Rightarrow> u_ip a ! 0 = 0xFF
      | _ \<Rightarrow> False)"

section \<open>Presentation\<close>

text \<open>The groups of an address, and the longest run of zero groups among them.\<close>

definition ipv6_group :: "byte list \<Rightarrow> nat \<Rightarrow> u16" where
  "ipv6_group ip i = push_bit 8 (ucast (ip ! (2 * i))) OR ucast (ip ! (2 * i + 1))"

definition ipv6_groups :: "byte list \<Rightarrow> u16 list" where
  "ipv6_groups ip = map (ipv6_group ip) [0..<8]"

type_synonym zero_run = "int \<times> int \<times> int \<times> int"

definition run_step :: "u16 list \<Rightarrow> nat \<Rightarrow> zero_run \<Rightarrow> zero_run" where
  "run_step g i r =
     (case r of (best, best_len, cur, cur_len) \<Rightarrow>
        if g ! i = 0 then
          let (cur, cur_len) = (if cur < 0 then (int i, 1) else (cur, cur_len + 1)) in
          if cur_len > best_len then (cur, cur_len, cur, cur_len) else (best, best_len, cur, cur_len)
        else (best, best_len, -1, 0))"

definition longest_run :: "u16 list \<Rightarrow> int \<times> int" where
  "longest_run g =
     (case fold (run_step g) [0..<8] (-1, 0, -1, 0) of
        (best, best_len, cur, cur_len) \<Rightarrow> (if best_len < 2 then -1 else best, best_len))"

definition put_colon :: "nat \<Rightarrow> string \<Rightarrow> string option" where
  "put_colon n buf = (if length buf \<ge> n then None else Some (buf @ '':''))"

definition fmt_group :: "nat \<Rightarrow> u16 list \<Rightarrow> int \<Rightarrow> int \<Rightarrow> nat \<Rightarrow> string \<Rightarrow> string option" where
  "fmt_group n g best best_len i buf =
     (if best \<noteq> -1 \<and> int i \<ge> best \<and> int i < best + best_len then
        if int i = best then put_colon n buf else Some buf
      else do {
        buf \<leftarrow> (if i \<noteq> 0 then put_colon n buf else Some buf);
        let hx = kl_u64_to_hex 4 (ucast (g ! i));
        if length hx = 0 \<or> length hx \<ge> n - length buf then None else Some (buf @ hx) })"

fun fmt_groups :: "nat \<Rightarrow> u16 list \<Rightarrow> int \<Rightarrow> int \<Rightarrow> nat list \<Rightarrow> string \<Rightarrow> string option" where
  "fmt_groups n g best best_len [] buf = Some buf"
| "fmt_groups n g best best_len (i # is) buf =
     do { buf \<leftarrow> fmt_group n g best best_len i buf; fmt_groups n g best best_len is buf }"

definition fmt_ipv6 :: "byte list \<Rightarrow> nat \<Rightarrow> string option" where
  "fmt_ipv6 ip n =
     (let g = ipv6_groups ip; (best, best_len) = longest_run g in
      do {
        buf \<leftarrow> fmt_groups n g best best_len [0..<8] [];
        buf \<leftarrow> (if best \<noteq> -1 \<and> best + best_len = 8 then put_colon n buf else Some buf);
        if length buf \<ge> n then None else Some buf })"

text \<open>
  A chain of bounded appends (\<open>kl_buf_append_n\<close>) as the text it builds: an append that does not fit, its NUL
  included, fails.
\<close>

definition put_text :: "nat \<Rightarrow> string \<Rightarrow> string \<Rightarrow> string option" where
  "put_text n buf s = (if length buf + length s < n then Some (buf @ s) else None)"

lemma put_text_append_n:
  assumes "length b = n" and "off \<le> n"
  shows "put_text n (take off b) s =
    (case kl_buf_append_n b n off s of (rc, b', off') \<Rightarrow> if rc = 0 then Some (take off' b') else None)"
  using assms by (auto simp: put_text_def kl_buf_append_n_eq)

definition dec_text :: "byte \<Rightarrow> string" where "dec_text w = kl_u64_to_dec 20 (ucast w)"

definition kl_sockaddr_format_ip :: "KlSockAddr \<Rightarrow> nat \<Rightarrow> string option" where
  "kl_sockaddr_format_ip a n =
     (if n = 0 then None
      else case family a of
        KL_AF_INET \<Rightarrow> do {
          buf \<leftarrow> put_text n [] (dec_text (u_ip a ! 0));
          buf \<leftarrow> put_text n buf ''.''; buf \<leftarrow> put_text n buf (dec_text (u_ip a ! 1));
          buf \<leftarrow> put_text n buf ''.''; buf \<leftarrow> put_text n buf (dec_text (u_ip a ! 2));
          buf \<leftarrow> put_text n buf ''.''; put_text n buf (dec_text (u_ip a ! 3)) }
      | KL_AF_INET6 \<Rightarrow> fmt_ipv6 (u_ip a) n
      | KL_AF_UNIX \<Rightarrow> put_text n [] (take (addr_len a) (u_path a))
      | KL_AF_UNSPEC \<Rightarrow> None)"

definition kl_sockaddr_format :: "KlSockAddr \<Rightarrow> nat \<Rightarrow> string option" where
  "kl_sockaddr_format a n =
     (if n = 0 then None
      else case family a of
        KL_AF_INET \<Rightarrow> do {
          ip \<leftarrow> kl_sockaddr_format_ip a 16;
          buf \<leftarrow> put_text n [] ip; buf \<leftarrow> put_text n buf '':''; put_text n buf (kl_u64_to_dec 20 (ucast (port a))) }
      | KL_AF_INET6 \<Rightarrow> do {
          ip \<leftarrow> kl_sockaddr_format_ip a 46;
          buf \<leftarrow> put_text n [] ''[''; buf \<leftarrow> put_text n buf ip; buf \<leftarrow> put_text n buf '']:'';
          put_text n buf (kl_u64_to_dec 20 (ucast (port a))) }
      | KL_AF_UNIX \<Rightarrow> kl_sockaddr_format_ip a n
      | KL_AF_UNSPEC \<Rightarrow> None)"

end
