(* ===== verification/Sockaddr_Text.thy ===== *)
theory Sockaddr_Text
  imports Sockaddr
begin

unbundle bit_operations_syntax

text \<open>
  Formatting an address and parsing the text back gives the address: the parser undoes the dotted quad, the
  groups of lowercase hexadecimal and the compression of the longest run of zero groups.
\<close>

section \<open>Dotted quads\<close>

lemma is_dec_digit: "is_dec c \<longleftrightarrow> digit_char c"
  by (simp add: is_dec_def)

lemma octet_loop_digits:
  assumes "list_all digit_char ds" and "nd + length ds \<le> 3" and "dec_from v ds \<le> 255"
    and "rest = [] \<or> \<not> is_dec (hd rest)"
  shows "octet_loop (ds @ rest) v nd = Some (dec_from v ds, rest)"
  using assms(1-3)
proof (induction ds arbitrary: v nd)
  case Nil
  then show ?case using assms(4) by (cases rest) auto
next
  case (Cons c ds)
  have "v * 10 + (uchar c - 48) \<le> 255" using Cons.prems(3) dec_from_ge [of "v * 10 + (uchar c - 48)" ds] by simp
  then show ?case using Cons by (simp add: is_dec_digit)
qed

lemma dec_text_facts:
  "list_all digit_char (dec_text w)" "dec_text w \<noteq> []" "length (dec_text w) \<le> 3" "dec_from 0 (dec_text w) = unat w"
proof -
  have u: "unat (ucast w :: u64) = unat w" 
    using unsigned_less [of w, where ?'a = nat] by (simp add: unsigned_ucast_eq take_bit_nat_eq_self)
  show "list_all digit_char (dec_text w)" unfolding dec_text_def by (rule kl_u64_to_dec_digits)
  show "dec_text w \<noteq> []" unfolding dec_text_def by (rule kl_u64_to_dec_ne)
  show "dec_from 0 (dec_text w) = unat w" by (simp add: dec_text_def kl_u64_to_dec_eq dec_from_dec_tmp u)
  have "unat w < 10 ^ 3" using unsigned_less [of w, where ?'a = nat] by simp
  then have "length (Cstr.digits 10 (unat w)) \<le> 3" by (intro length_digits) simp_all
  then show "length (dec_text w) \<le> 3"
    unfolding dec_text_def by (simp add: kl_u64_to_dec_eq dec_tmp_digits u del: unsigned_ucast_eq)
qed

lemma octet_loop_dec_text:
  assumes "rest = [] \<or> \<not> is_dec (hd rest)"
  shows "octet_loop (dec_text w @ rest) 0 0 = Some (unat w, rest)"
proof -
  have "unat w \<le> 255" using unsigned_less [of w, where ?'a = nat] by simp
  then show ?thesis
    using octet_loop_digits [of "dec_text w" 0 0 rest] dec_text_facts [of w] assms by simp
qed

lemma peek_dec_text: "is_dec (peek (dec_text w @ s))"
  using dec_text_facts(1,2) [of w] by (cases "dec_text w") (auto simp: is_dec_digit)

lemma octets_last: "octets (Suc 0) (dec_text w) = Some [w]"
  using octet_loop_dec_text [of "[]" w] peek_dec_text [of w "[]"] by simp

lemma octets_more: "k > 0 \<Longrightarrow> octets (Suc k) (dec_text w @ CHR ''.'' # s) = map_option ((#) w) (octets k s)"
  using octet_loop_dec_text [of "CHR ''.'' # s" w] peek_dec_text [of w "CHR ''.'' # s"] by (simp add: is_dec_def)

lemma parse_ipv4_text:
  "parse_ipv4 (dec_text a @ ''.'' @ dec_text b @ ''.'' @ dec_text c @ ''.'' @ dec_text d) = Some [a, b, c, d]"
  by (simp add: parse_ipv4_def numeral_eq_Suc octets_more octets_last del: octets.simps)

text \<open>A text the dotted-quad parser accepts has no colon.\<close>

lemma octet_loop_split: "octet_loop s v nd = Some (v', s') \<Longrightarrow> \<exists>ds. s = ds @ s' \<and> CHR '':'' \<notin> set ds"
proof (induction s v nd rule: octet_loop.induct)
  case (2 c s v nd)
  show ?case
  proof (cases "is_dec c")
    case True
    with 2 obtain ds where "s = ds @ s'" "CHR '':'' \<notin> set ds" by (auto simp: Let_def split: if_splits)
    moreover have "c \<noteq> CHR '':''" using True by (auto simp: is_dec_def)
    ultimately show ?thesis by (intro exI [of _ "c # ds"]) simp
  qed (use 2 in auto)
qed simp

lemma octets_no_colon: "cstring s \<Longrightarrow> octets k s = Some q \<Longrightarrow> CHR '':'' \<notin> set s"
proof (induction k arbitrary: s q)
  case 0
  then show ?case by (auto simp: peek_NUL split: if_splits)
next
  case (Suc k)
  from Suc.prems obtain v s1 where o: "octet_loop s 0 0 = Some (v, s1)" by (auto split: if_splits option.splits)
  then obtain ds where s: "s = ds @ s1" "CHR '':'' \<notin> set ds" using octet_loop_split by blast
  then have c: "cstring s1" using Suc.prems(1) by (simp add: cstring_def)
  show ?case
  proof (cases "k > 0")
    case True
    with Suc.prems o have p: "peek s1 = CHR ''.''" and t: "octets k (tl s1) \<noteq> None"
      by (auto split: if_splits)
    then obtain q' where "octets k (tl s1) = Some q'" by blast
    from Suc.IH [OF cstring_tl [OF c] this] p s show ?thesis by (cases s1) auto
  next
    case False
    with Suc.prems o obtain q' where "octets k s1 = Some q'" by (auto split: if_splits)
    from Suc.IH [OF c this] s show ?thesis by simp
  qed
qed

section \<open>Groups\<close>

definition hex_text :: "u16 \<Rightarrow> string" where "hex_text g = kl_u64_to_hex 4 (ucast g)"

abbreviation hex_char :: "char \<Rightarrow> bool" where "hex_char c \<equiv> c \<in> set hexd"

lemma hexd_set: "set hexd = set ''0123456789abcdef''"
  by (simp add: hexd_def)

lemma hex_digit_hexd: "d < 16 \<Longrightarrow> hex_digit (hexd ! d) = Some d"
proof -
  have "list_all (\<lambda>d. hex_digit (hexd ! d) = Some d) [0..<16]" by code_simp
  then show "d < 16 \<Longrightarrow> ?thesis" by (simp add: list_all_iff)
qed

lemma hex_char_facts: "hex_char c \<Longrightarrow> c \<noteq> CHR '':'' \<and> c \<noteq> CHR ''.'' \<and> c \<noteq> NUL"
  by (auto simp: hexd_set)

lemma hextet_loop_digits:
  assumes "\<forall>d \<in> set ds. d < 16" and "nd + length ds \<le> 4" and "rest = [] \<or> hd rest = CHR '':''"
  shows "hextet_loop (map (\<lambda>d. hexd ! d) ds @ rest) v nd = Some (foldl (\<lambda>a d. a * 16 + d) v ds, nd + length ds, rest)"
  using assms(1,2)
proof (induction ds arbitrary: v nd)
  case Nil
  have "hex_digit CHR '':'' = None" by code_simp
  then show ?case using assms(3) by (cases rest) auto
next
  case (Cons d ds)
  have "push_bit 4 v OR d = v * 16 + d"
    using nat_or_push_bit [of d 4 v] Cons.prems by (simp add: push_bit_eq_mult or.commute)
  then show ?case using Cons by (simp add: hex_digit_hexd)
qed

lemma hex_text_digits: "hex_text g = map (\<lambda>d. hexd ! d) (rev (Cstr.digits 16 (unat g)))"
  and hex_text_length: "length (Cstr.digits 16 (unat g)) \<le> 4"
proof -
  have u: "unat (ucast g :: u64) = unat g"
    using unsigned_less [of g, where ?'a = nat] by (simp add: unsigned_ucast_eq take_bit_nat_eq_self)
  have "unat g < 16 ^ 4" using unsigned_less [of g, where ?'a = nat] by simp
  then show l: "length (Cstr.digits 16 (unat g)) \<le> 4" by (intro length_digits) simp_all
  then show "hex_text g = map (\<lambda>d. hexd ! d) (rev (Cstr.digits 16 (unat g)))"
    by (simp add: hex_text_def kl_u64_to_hex_def hex_tmp_digits u rev_map Let_def del: unsigned_ucast_eq)
qed

lemma hextet_loop_text:
  assumes "rest = [] \<or> hd rest = CHR '':''"
  shows "hextet_loop (hex_text g @ rest) 0 0 = Some (unat g, length (hex_text g), rest)"
proof -
  have "\<forall>d \<in> set (rev (Cstr.digits 16 (unat g))). d < 16" using digits_less [of 16] by auto
  from hextet_loop_digits [OF this _ assms, of 0 0] hex_text_length [of g] show ?thesis
    using value_of_digits [of 16 "unat g"] by (simp add: hex_text_digits value_of_def)
qed

lemma hex_text_chars: "c \<in> set (hex_text g) \<Longrightarrow> hex_char c"
proof -
  assume "c \<in> set (hex_text g)"
  then obtain d where "d \<in> set (Cstr.digits 16 (unat g))" and c: "c = hexd ! d" by (auto simp: hex_text_digits)
  then have "d < length hexd" using digits_less [of 16 d "unat g"] by (simp add: hexd_def)
  then show ?thesis unfolding c by (rule nth_mem)
qed

lemma hex_text_ne: "hex_text g \<noteq> []" and hex_text_le: "length (hex_text g) \<le> 4"
  using hex_text_length by (simp_all add: hex_text_digits)

definition group_bytes :: "u16 \<Rightarrow> byte list" where
  "group_bytes g = [of_nat (drop_bit 8 (unat g)), of_nat (unat g AND 0xFF)]"

lemma dotted_hex_text:
  assumes "rest = [] \<or> hd rest = CHR '':''"
  shows "\<not> dotted (hex_text g @ rest)"
proof -
  have e: "dropWhile (\<lambda>c. c \<noteq> CHR '':'' \<and> c \<noteq> CHR ''.'') (hex_text g @ rest) = dropWhile (\<lambda>c. c \<noteq> CHR '':'' \<and> c \<noteq> CHR ''.'') rest"
    by (rule dropWhile_append2) (simp add: hex_char_facts [OF hex_text_chars])
  show ?thesis unfolding dotted_def e using assms by (cases rest) simp_all
qed

lemma ipv6_loop_group:
  assumes "rest = [] \<or> hd rest = CHR '':''" and "length buf \<le> 14"
  shows "ipv6_loop (hex_text g @ rest) buf gap =
    (let buf = buf @ group_bytes g in
     if peek rest = NUL then Some (buf, gap)
     else let s' = tl rest in
       if peek s' = CHR '':'' then
         if gap \<noteq> None then None
         else let gap = Some (length buf); s' = tl s' in
           if peek s' = NUL then Some (buf, gap) else ipv6_loop s' buf gap
       else ipv6_loop s' buf gap)"
proof -
  have l: "length (hex_text g) \<noteq> 0" "\<not> 14 < length buf" using hex_text_ne [of g] assms(2) by simp_all
  have p: "\<not> (peek rest \<noteq> CHR '':'')" if "peek rest \<noteq> NUL" using assms(1) that by (cases rest) auto
  show ?thesis
    unfolding ipv6_loop.simps [of "hex_text g @ rest"] if_not_P [OF dotted_hex_text [OF assms(1)]]
      hextet_loop_text [OF assms(1)] option.case prod.case if_not_P [OF l(1)] if_not_P [OF l(2)] group_bytes_def Let_def
    using p by (cases "peek rest = NUL") (simp_all only: if_True if_False simp_thms)
qed

fun colon_join :: "string list \<Rightarrow> string" where
  "colon_join [] = []"
| "colon_join [w] = w"
| "colon_join (w # ws) = w @ CHR '':'' # colon_join ws"

abbreviation groups_text :: "u16 list \<Rightarrow> string" where
  "groups_text gs \<equiv> colon_join (map hex_text gs)"

abbreviation groups_bytes :: "u16 list \<Rightarrow> byte list" where
  "groups_bytes gs \<equiv> concat (map group_bytes gs)"

lemma length_group_bytes [simp]: "length (group_bytes g) = 2"
  by (simp add: group_bytes_def)

lemma length_groups_bytes [simp]: "length (groups_bytes gs) = 2 * length gs"
  by (induction gs) simp_all

lemma groups_text_hd: "gs \<noteq> [] \<Longrightarrow> peek (groups_text gs @ s) \<noteq> CHR '':'' \<and> peek (groups_text gs @ s) \<noteq> NUL"
proof -
  assume "gs \<noteq> []"
  then obtain g gs' where gs: "gs = g # gs'" by (cases gs) auto
  obtain c t where c: "hex_text g = c # t" using hex_text_ne [of g] by (cases "hex_text g") auto
  then have "hex_char c" using hex_text_chars [of c g] by simp
  moreover have "\<exists>t'. groups_text gs @ s = c # t'" by (cases gs') (auto simp: gs c)
  ultimately show ?thesis using hex_char_facts by auto
qed

lemma ipv6_loop_groups:
  assumes "gs \<noteq> []" and "length buf + 2 * length gs \<le> 16"
  shows "ipv6_loop (groups_text gs) buf gap = Some (buf @ groups_bytes gs, gap)"
  using assms
proof (induction gs arbitrary: buf rule: list_nonempty_induct)
  case (single g)
  then show ?case using ipv6_loop_group [of "[]" buf g gap] by simp
next
  case (cons g gs)
  have "groups_text (g # gs) = hex_text g @ CHR '':'' # groups_text gs" using cons.hyps by (cases gs) auto
  moreover have "peek (groups_text gs) \<noteq> CHR '':''" using groups_text_hd [OF cons.hyps(1), of "[]"] by simp
  ultimately show ?case
    using cons ipv6_loop_group [of "CHR '':'' # groups_text gs" buf g gap] by simp
qed

lemma ipv6_loop_gap:
  assumes "gs \<noteq> []" and "length buf + 2 * length gs \<le> 16"
  shows "ipv6_loop (groups_text gs @ ''::'' @ tail) buf None =
    (if peek tail = NUL then Some (buf @ groups_bytes gs, Some (length buf + 2 * length gs))
     else ipv6_loop tail (buf @ groups_bytes gs) (Some (length buf + 2 * length gs)))"
  using assms
proof (induction gs arbitrary: buf rule: list_nonempty_induct)
  case (single g)
  then show ?case using ipv6_loop_group [of "''::'' @ tail" buf g None] by (simp add: Let_def)
next
  case (cons g gs)
  have "groups_text (g # gs) @ ''::'' @ tail = hex_text g @ CHR '':'' # groups_text gs @ ''::'' @ tail"
    using cons.hyps by (cases gs) auto
  moreover have "peek (groups_text gs @ ''::'' @ tail) \<noteq> CHR '':''" using groups_text_hd [OF cons.hyps(1)] by blast
  ultimately show ?case
    using cons ipv6_loop_group [of "CHR '':'' # groups_text gs @ ''::'' @ tail" buf g None] by (simp add: add.assoc)
qed

text \<open>What the parser makes of plain groups, and of groups before and after a \<open>::\<close>.\<close>

lemma parse_ipv6_plain:
  assumes "length gs = 8"
  shows "parse_ipv6 (groups_text gs) = Some (groups_bytes gs)"
proof -
  have "gs \<noteq> []" using assms by auto
  with groups_text_hd [OF this, of "[]"] ipv6_loop_groups [of gs "[]" None] assms show ?thesis
    by (simp add: parse_ipv6_def expand_gap_def)
qed

lemma parse_ipv6_gap:
  assumes "length pre + length post < 8"
  shows "parse_ipv6 (groups_text pre @ ''::'' @ groups_text post) =
    Some (groups_bytes pre @ replicate (16 - 2 * (length pre + length post)) 0 @ groups_bytes post)"
proof (cases "pre = []")
  case True
  show ?thesis
  proof (cases "post = []")
    case False
    with True groups_text_hd [OF False, of "[]"] ipv6_loop_groups [of post "[]" "Some 0"] assms show ?thesis
      by (simp add: parse_ipv6_def expand_gap_def)
  qed (simp add: True parse_ipv6_def)
next
  case False
  have l: "ipv6_loop (groups_text pre @ ''::'' @ groups_text post) [] None =
      Some (groups_bytes pre @ groups_bytes post, Some (2 * length pre))"
  proof (cases "post = []")
    case True
    then show ?thesis using ipv6_loop_gap [OF False, of "[]" "[]"] assms by simp
  next
    case f: False
    then show ?thesis
      using ipv6_loop_gap [OF False, of "[]" "groups_text post"] assms groups_text_hd [OF f, of "[]"]
        ipv6_loop_groups [OF f, of "groups_bytes pre" "Some (2 * length pre)"] by simp
  qed
  have "peek (groups_text pre @ ''::'' @ groups_text post) \<noteq> CHR '':''" using groups_text_hd [OF False] by blast
  then show ?thesis using l assms by (simp add: parse_ipv6_def expand_gap_def)
qed

section \<open>The formatter\<close>

lemma fmt_groups_append:
  "fmt_groups n g best best_len (is @ js) buf =
     Option.bind (fmt_groups n g best best_len is buf) (fmt_groups n g best best_len js)"
proof (induction "is" arbitrary: buf)
  case (Cons i "is")
  then show ?case by (cases "fmt_group n g best best_len i buf") simp_all
qed simp

definition group_text :: "u16 list \<Rightarrow> nat \<Rightarrow> string" where
  "group_text g i = (if i \<noteq> 0 then '':'' else []) @ hex_text (g ! i)"

lemma length_group_text: "length (group_text g i) \<le> 5"
  using hex_text_le [of "g ! i"] by (auto simp: group_text_def)

abbreviation in_run :: "int \<Rightarrow> int \<Rightarrow> nat \<Rightarrow> bool" where
  "in_run best best_len i \<equiv> best \<noteq> -1 \<and> int i \<ge> best \<and> int i < best + best_len"

lemma fmt_group_plain:
  assumes "\<not> in_run best best_len i" and "length buf + 5 < n"
  shows "fmt_group n g best best_len i buf = Some (buf @ group_text g i)"
proof -
  have l: "length (hex_text (g ! i)) \<noteq> 0" "length (hex_text (g ! i)) \<le> 4" using hex_text_ne hex_text_le by auto
  show ?thesis
    unfolding fmt_group_def if_not_P [OF assms(1)] hex_text_def [symmetric]
    using assms(2) l by (cases "i = 0") (auto simp: put_colon_def group_text_def Let_def)
qed

lemma length_group_texts: "length (concat (map (group_text g) is)) \<le> 5 * length is"
  by (induction "is") (use length_group_text [of g] in \<open>auto intro: add_mono\<close>)

lemma fmt_groups_plain:
  assumes "\<forall>i \<in> set is. \<not> in_run best best_len i" and "length buf + 5 * length is < n"
  shows "fmt_groups n g best best_len is buf = Some (buf @ concat (map (group_text g) is))"
  using assms
proof (induction "is" arbitrary: buf)
  case (Cons i "is")
  have a: "fmt_group n g best best_len i buf = Some (buf @ group_text g i)"
    using Cons.prems by (intro fmt_group_plain) simp_all
  have "length (buf @ group_text g i) + 5 * length is < n"
    using Cons.prems(2) length_group_text [of g i] by simp
  with Cons.IH [of "buf @ group_text g i"] Cons.prems(1) a show ?case by simp
qed simp

lemma fmt_groups_skip:
  assumes "\<forall>i \<in> set is. in_run best best_len i \<and> int i \<noteq> best"
  shows "fmt_groups n g best best_len is buf = Some buf"
  using assms by (induction "is") (simp_all add: fmt_group_def)

lemma fmt_groups_run:
  assumes "best = int b" and "best_len = int k" and "0 < k" and "length buf < n"
  shows "fmt_groups n g best best_len [b..<b + k] buf = Some (buf @ '':'')"
proof -
  have u: "[b..<b + k] = b # [Suc b..<b + k]" using assms(3) by (simp add: upt_conv_Cons)
  have f: "fmt_group n g best best_len b buf = Some (buf @ '':'')"
    using assms by (simp add: fmt_group_def put_colon_def)
  have "fmt_groups n g best best_len [Suc b..<b + k] (buf @ '':'') = Some (buf @ '':'')"
    by (rule fmt_groups_skip) (use assms in auto)
  then show ?thesis unfolding u fmt_groups.simps f by simp
qed

lemma colon_join_snoc: "colon_join (ws @ [w]) = (if ws = [] then w else colon_join ws @ CHR '':'' # w)"
  by (induction ws rule: colon_join.induct) auto

lemma groups_text_take:
  "b \<le> length g \<Longrightarrow> concat (map (group_text g) [0..<b]) = groups_text (take b g)"
proof (induction b)
  case (Suc b)
  then have t: "take (Suc b) g = take b g @ [g ! b]" by (simp add: take_Suc_conv_app_nth)
  have "take b g = [] \<longleftrightarrow> b = 0" using Suc.prems by auto
  then show ?case using Suc unfolding t by (simp add: colon_join_snoc group_text_def)
qed simp

lemma colon_concat: "ws \<noteq> [] \<Longrightarrow> concat (map (\<lambda>w. CHR '':'' # w) ws) = CHR '':'' # colon_join ws"
  by (induction ws rule: colon_join.induct) auto

lemma groups_text_drop:
  assumes "0 < e" and "e \<le> length g"
  shows "concat (map (group_text g) [e..<length g]) = (if e = length g then [] else CHR '':'' # groups_text (drop e g))"
proof -
  have "map (group_text g) [e..<length g] = map (\<lambda>i. CHR '':'' # hex_text (g ! i)) [e..<length g]"
    using assms(1) by (simp add: group_text_def)
  also have "\<dots> = map (\<lambda>w. CHR '':'' # w) (map hex_text (drop e g))"
    using assms(2) by (simp add: drop_map map_nth [symmetric] list_eq_iff_nth_eq)
  finally show ?thesis using colon_concat [of "map hex_text (drop e g)"] assms(2) by (cases "e = length g") auto
qed

section \<open>The longest run of zero groups\<close>

definition zero_between :: "u16 list \<Rightarrow> int \<Rightarrow> int \<Rightarrow> bool" where
  "zero_between g a b \<longleftrightarrow> (\<forall>k. a \<le> int k \<longrightarrow> int k < b \<longrightarrow> g ! k = 0)"

fun run_ok :: "u16 list \<Rightarrow> nat \<Rightarrow> zero_run \<Rightarrow> bool" where
  "run_ok g i (best, best_len, cur, cur_len) \<longleftrightarrow>
     (if cur < 0 then cur_len = 0 else cur + cur_len = int i \<and> 0 < cur_len \<and> zero_between g cur (int i)) \<and>
     (best_len = 0 \<or> 0 < best_len \<and> 0 \<le> best \<and> best + best_len \<le> int i \<and> zero_between g best (best + best_len))"

lemma zero_between_Suc: "zero_between g a (int i) \<Longrightarrow> g ! i = 0 \<Longrightarrow> zero_between g a (1 + int i)"
  unfolding zero_between_def by (metis add.commute zle_add1_eq_le less_le of_nat_eq_iff)

lemma run_step_ok: "run_ok g i r \<Longrightarrow> run_ok g (Suc i) (run_step g i r)"
proof -
  assume a: "run_ok g i r"
  obtain best best_len cur cur_len where r: "r = (best, best_len, cur, cur_len)" by (cases r) auto
  have z: "g ! i = 0 \<Longrightarrow> zero_between g (int i) (1 + int i)"
    unfolding zero_between_def by (metis add.commute zle_add1_eq_le nle_le of_nat_eq_iff)
  show ?thesis
  proof (cases "g ! i = 0")
    case True
    show ?thesis
    proof (cases "cur < 0")
      case neg: True
      then show ?thesis using a True z by (auto simp: r run_step_def add.commute)
    next
      case False
      then have e: "cur + (cur_len + 1) = 1 + int i" and "zero_between g cur (1 + int i)"
        using a True zero_between_Suc by (auto simp: r)
      then have q: "zero_between g cur (cur + (cur_len + 1))" by (simp only: e)
      then show ?thesis using a True False e \<open>zero_between g cur (1 + int i)\<close> by (auto simp: r run_step_def intro!: q)
    qed
  qed (use a in \<open>auto simp: r run_step_def\<close>)
qed

lemma run_fold_ok: "run_ok g m (fold (run_step g) [0..<m] (-1, 0, -1, 0))"
  by (induction m) (simp_all add: run_step_ok)

lemma longest_run_ok:
  assumes "longest_run g = (best, best_len)"
  shows "best = -1 \<or> 0 \<le> best \<and> 2 \<le> best_len \<and> best + best_len \<le> 8 \<and> zero_between g best (best + best_len)"
proof -
  obtain b l c d where f: "fold (run_step g) [0..<8] (-1, 0, -1, 0) = (b, l, c, d)" by (metis prod.exhaust)
  show ?thesis using run_fold_ok [of g 8] assms unfolding longest_run_def f by (auto split: if_splits)
qed

section \<open>Round trips\<close>

lemma fmt_ipv6_text:
  assumes "length g = 8" and "g = ipv6_groups ip" and "46 \<le> n"
  shows "fmt_ipv6 ip n = Some (groups_text g) \<or>
    (\<exists>b e. e \<le> 8 \<and> b + 2 \<le> e \<and> zero_between g (int b) (int e) \<and>
       fmt_ipv6 ip n = Some (groups_text (take b g) @ ''::'' @ groups_text (drop e g)))"
proof -
  obtain best best_len where r: "longest_run g = (best, best_len)" by (cases "longest_run g") auto
  from longest_run_ok [OF r] show ?thesis
  proof (elim disjE conjE)
    assume b: "best = -1"
    have "fmt_groups n g best best_len [0..<8] [] = Some ([] @ concat (map (group_text g) [0..<8]))"
      by (rule fmt_groups_plain) (use b assms(3) in auto)
    then have "fmt_groups n g best best_len [0..<8] [] = Some (groups_text g)"
      using groups_text_take [of 8 g] assms(1) by simp
    moreover have "length (groups_text g) < n"
      using length_group_texts [of g "[0..<8]"] groups_text_take [of 8 g] assms(1,3) by simp
    ultimately have "fmt_ipv6 ip n = Some (groups_text g)"
      using b by (simp add: fmt_ipv6_def assms(2) [symmetric] r Let_def)
    then show ?thesis ..
  next
    assume a: "0 \<le> best" "2 \<le> best_len" "best + best_len \<le> 8" "zero_between g best (best + best_len)"
    define b e where "b = nat best" and "e = nat (best + best_len)"
    have be: "best = int b" "best_len = int (e - b)" "b + 2 \<le> e" "e \<le> 8" using a by (simp_all add: b_def e_def)
    define t1 t2 where "t1 = concat (map (group_text g) [0..<b])" and "t2 = concat (map (group_text g) [e..<8])"
    have l: "length t1 \<le> 5 * b" "length t2 \<le> 5 * (8 - e)"
      using length_group_texts [of g "[0..<b]"] length_group_texts [of g "[e..<8]"] by (simp_all add: t1_def t2_def)
    have u: "[0..<8] = [0..<b] @ [b..<b + (e - b)] @ [e..<8]"
      using be(3,4) by (metis add.commute le_add_diff_inverse2 le_add1 le_trans upt_add_eq_append zero_le)
    have "fmt_groups n g best best_len [0..<b] [] = Some ([] @ t1)"
      unfolding t1_def by (rule fmt_groups_plain) (use be assms(3) in auto)
    moreover have "fmt_groups n g best best_len [b..<b + (e - b)] t1 = Some (t1 @ '':'')"
      by (rule fmt_groups_run) (use be l assms(3) in auto)
    moreover have "fmt_groups n g best best_len [e..<8] (t1 @ '':'') = Some ((t1 @ '':'') @ t2)"
      unfolding t2_def by (rule fmt_groups_plain) (use be l assms(3) in auto)
    ultimately have f: "fmt_groups n g best best_len [0..<8] [] = Some (t1 @ '':'' @ t2)"
      by (simp add: u fmt_groups_append del: upt_Suc)
    have t1: "t1 = groups_text (take b g)" using groups_text_take [of b g] be assms(1) by (simp add: t1_def)
    have t2: "t2 = (if e = 8 then [] else CHR '':'' # groups_text (drop e g))"
      using groups_text_drop [of e g] be assms(1) by (simp add: t2_def)
    have "fmt_ipv6 ip n = Some (groups_text (take b g) @ ''::'' @ groups_text (drop e g))"
    proof (cases "e = 8")
      case True
      then have t: "t2 = []" "best \<noteq> -1 \<and> best + best_len = 8" using t2 be by simp_all
      have "length t1 + 3 \<le> n" using l be assms(3) by simp
      then have "fmt_ipv6 ip n = Some (t1 @ ''::'')"
        unfolding fmt_ipv6_def assms(2) [symmetric] r Let_def prod.case f by (simp add: t put_colon_def)
      then show ?thesis using True assms(1) by (simp add: t1)
    next
      case False
      then have t: "\<not> (best \<noteq> -1 \<and> best + best_len = 8)" using be by simp
      have "length (t1 @ '':'' @ t2) < n" using l be assms(3) by simp
      then have "fmt_ipv6 ip n = Some (t1 @ '':'' @ t2)"
        unfolding fmt_ipv6_def assms(2) [symmetric] r Let_def prod.case f if_not_P [OF t] by simp
      then show ?thesis using False by (simp add: t1 t2)
    qed
    moreover have "int b = best" "int e = best + best_len" using a(1,2) by (simp_all add: b_def e_def)
    then have "zero_between g (int b) (int e)" using a(4) by (simp only:)
    ultimately show ?thesis using be(3,4) by blast
  qed
qed

lemma unat_byte_lt: "unat (b :: byte) < 256"
  using unsigned_less [of b, where ?'a = nat] by simp

lemma unat_ipv6_group: "unat (ipv6_group ip i) = 256 * unat (ip ! (2 * i)) + unat (ip ! (2 * i + 1))"
proof -
  have u: "unat (ucast x :: u16) = unat x" for x :: byte
    using unat_byte_lt [of x] by (simp add: unsigned_ucast_eq take_bit_eq_mod)
  have "unat (push_bit 8 (ucast x :: u16)) = push_bit 8 (unat x)" for x :: byte
    using unat_byte_lt [of x] by (simp add: unsigned_push_bit_eq u take_bit_eq_mod push_bit_eq_mult [of 8 "unat x"])
  then show ?thesis
    using nat_or_push_bit [of "unat (ip ! (2 * i + 1))" 8 "unat (ip ! (2 * i))"] unat_byte_lt [of "ip ! (2 * i + 1)"]
    by (simp add: ipv6_group_def unsigned_or_eq u)
qed

lemma group_bytes_ipv6_group: "group_bytes (ipv6_group ip i) = [ip ! (2 * i), ip ! (2 * i + 1)]"
proof -
  let ?a = "ip ! (2 * i)" and ?b = "ip ! (2 * i + 1)"
  have "(256 * unat ?a + unat ?b) AND 0xFF = (256 * unat ?a + unat ?b) mod 256"
    using take_bit_eq_mask [of 8 "256 * unat ?a + unat ?b"] by (simp add: mask_eq_exp_minus_1 take_bit_eq_mod)
  then show ?thesis
    using unat_byte_lt [of ?b] by (simp add: group_bytes_def unat_ipv6_group drop_bit_eq_div)
qed

lemma groups_bytes_ipv6_groups: "length ip = 16 \<Longrightarrow> groups_bytes (ipv6_groups ip) = ip"
  by (rule nth_equalityI) (auto simp: ipv6_groups_def group_bytes_ipv6_group upt_rec less_Suc_eq numeral_eq_Suc)

lemma groups_bytes_zero:
  assumes "zero_between g (int b) (int e)" and "b \<le> e" and "e \<le> length g"
  shows "groups_bytes g = groups_bytes (take b g) @ replicate (2 * (e - b)) 0 @ groups_bytes (drop e g)"
proof -
  have z: "take (e - b) (drop b g) = replicate (e - b) 0"
    using assms by (intro nth_equalityI) (auto simp: zero_between_def)
  have "g = take b g @ replicate (e - b) 0 @ drop e g"
    using z assms(2) by (metis append_take_drop_id drop_drop le_add_diff_inverse2)
  moreover have "groups_bytes (replicate k 0) = replicate (2 * k) 0" for k
    by (induction k) (simp_all add: group_bytes_def)
  ultimately show ?thesis by (metis concat_append map_append)
qed

lemma parse_fmt_ipv6:
  assumes "length ip = 16" and "46 \<le> n"
  shows "\<exists>s. fmt_ipv6 ip n = Some s \<and> parse_ipv6 s = Some ip \<and> CHR '':'' \<in> set s \<and> cstring s"
proof -
  define g where "g = ipv6_groups ip"
  have g: "length g = 8" "groups_bytes g = ip" using groups_bytes_ipv6_groups [OF assms(1)] by (simp_all add: g_def ipv6_groups_def)
  have c: "cstring (groups_text gs)" for gs
    by (induction gs rule: induct_list012) (auto simp: cstring_def dest: hex_text_chars hex_char_facts)
  from fmt_ipv6_text [OF g(1) g_def assms(2)] show ?thesis
  proof (elim disjE exE conjE)
    assume "fmt_ipv6 ip n = Some (groups_text g)"
    moreover obtain x y zs where "g = x # y # zs" using g(1) by (cases g; cases "tl g") auto
    then have "CHR '':'' \<in> set (groups_text g)" by simp
    ultimately show ?thesis using parse_ipv6_plain [OF g(1)] g(2) c by blast
  next
    fix b e
    assume e: "e \<le> 8" "b + 2 \<le> e" "zero_between g (int b) (int e)"
      and f: "fmt_ipv6 ip n = Some (groups_text (take b g) @ ''::'' @ groups_text (drop e g))"
    have "parse_ipv6 (groups_text (take b g) @ ''::'' @ groups_text (drop e g)) = Some ip"
      using parse_ipv6_gap [of "take b g" "drop e g"] groups_bytes_zero [OF e(3)] e(1,2) g
      by (simp add: min_def)
    then show ?thesis using f c by (auto simp: cstring_def)
  qed
qed

lemma format_ipv4_text:
  assumes "length ip4 = 4" and "16 \<le> n"
  shows "kl_sockaddr_format_ip (kl_sockaddr_from_ipv4 ip4 p) n =
    Some (dec_text (ip4 ! 0) @ ''.'' @ dec_text (ip4 ! 1) @ ''.'' @ dec_text (ip4 ! 2) @ ''.'' @ dec_text (ip4 ! 3))"
proof -
  have l: "length (dec_text (ip4 ! i)) \<le> 3" for i by (rule dec_text_facts)
  have f: "family (kl_sockaddr_from_ipv4 ip4 p) = KL_AF_INET" by (simp add: kl_sockaddr_from_ipv4_def)
  have i: "u_ip (kl_sockaddr_from_ipv4 ip4 p) ! i = ip4 ! i" if "i < 4" for i
    using that assms(1) by (simp add: kl_sockaddr_from_ipv4_def nth_append)
  show ?thesis
    using assms(2) l [of 0] l [of 1] l [of 2] l [of 3]
    by (simp add: kl_sockaddr_format_ip_def f i put_text_def)
qed

text \<open>
  C11. The text of an IPv4 or IPv6 address parses back to the address, whatever its bytes: no zero run, however
  placed, is compressed in a way the parser reads differently. The formatter never fails in a buffer of 46
  bytes, and the port and (for IPv6) the scope, which the text does not carry, are the caller's.
\<close>

theorem kl_sockaddr_text_roundtrip:
  assumes "length ip4 = 4" and "length ip6 = 16" and "46 \<le> n"
  shows "(\<exists>s. kl_sockaddr_format_ip (kl_sockaddr_from_ipv4 ip4 p) n = Some s \<and>
              kl_sockaddr_parse s p = Some (kl_sockaddr_from_ipv4 ip4 p)) \<and>
         (\<exists>s. kl_sockaddr_format_ip (kl_sockaddr_from_ipv6 ip6 p scope) n = Some s \<and>
              kl_sockaddr_parse s p = Some (kl_sockaddr_from_ipv6 ip6 p 0))"
proof
  have "[ip4 ! 0, ip4 ! 1, ip4 ! 2, ip4 ! 3] = ip4"
    using assms(1) by (intro nth_equalityI) (auto simp: less_Suc_eq numeral_eq_Suc)
  then have "kl_sockaddr_parse (dec_text (ip4 ! 0) @ ''.'' @ dec_text (ip4 ! 1) @ ''.'' @ dec_text (ip4 ! 2) @ ''.'' @ dec_text (ip4 ! 3)) p =
      Some (kl_sockaddr_from_ipv4 ip4 p)"
    by (simp only: kl_sockaddr_parse_def parse_ipv4_text option.case)
  then show "\<exists>s. kl_sockaddr_format_ip (kl_sockaddr_from_ipv4 ip4 p) n = Some s \<and>
      kl_sockaddr_parse s p = Some (kl_sockaddr_from_ipv4 ip4 p)"
    using format_ipv4_text [OF assms(1), of n p] assms(3) by auto
  obtain s where s: "fmt_ipv6 ip6 n = Some s" "parse_ipv6 s = Some ip6" "CHR '':'' \<in> set s" "cstring s"
    using parse_fmt_ipv6 [OF assms(2,3)] by blast
  have "parse_ipv4 s = None" using octets_no_colon [OF s(4), of 4] s(3) by (cases "parse_ipv4 s") (auto simp: parse_ipv4_def)
  with s(2) have "kl_sockaddr_parse s p = Some (kl_sockaddr_from_ipv6 ip6 p 0)" by (simp add: kl_sockaddr_parse_def)
  moreover have "kl_sockaddr_format_ip (kl_sockaddr_from_ipv6 ip6 p scope) n = Some s"
    using s(1) assms(2,3) by (simp add: kl_sockaddr_format_ip_def kl_sockaddr_from_ipv6_def)
  ultimately show "\<exists>s. kl_sockaddr_format_ip (kl_sockaddr_from_ipv6 ip6 p scope) n = Some s \<and>
      kl_sockaddr_parse s p = Some (kl_sockaddr_from_ipv6 ip6 p 0)" by blast
qed

theorem kl_sockaddr_text_roundtrip_witness:
  "kl_sockaddr_format_ip (kl_sockaddr_from_ipv6 ([0x20, 1, 0xd, 0xb8] @ replicate 11 0 @ [1]) 80 0) 46 = Some ''2001:db8::1'' \<and>
   kl_sockaddr_parse ''2001:db8::1'' 80 = Some (kl_sockaddr_from_ipv6 ([0x20, 1, 0xd, 0xb8] @ replicate 11 0 @ [1]) 80 0)"
proof -
  have f: "kl_sockaddr_format_ip (kl_sockaddr_from_ipv6 ([0x20, 1, 0xd, 0xb8] @ replicate 11 0 @ [1]) 80 0) 46 = Some ''2001:db8::1''"
    by code_simp
  from kl_sockaddr_text_roundtrip [of "[127, 0, 0, 1]" "[0x20, 1, 0xd, 0xb8] @ replicate 11 0 @ [1]" 46 80 0] f
  show ?thesis by auto
qed

end
