(* ===== verification/Proxy.thy ===== *)
theory Proxy
  imports Sockaddr
begin

unbundle bit_operations_syntax

text \<open>
  The PROXY protocol (\<open>src/protocols/proxy_protocol/proxy_protocol.c\<close>): the header, in its text and binary
  versions, that a load balancer puts before a connection, and the list of networks it is trusted from.

  \<open>inet_pton\<close> is the platform's, a parameter for each family: the bytes of a literal, or \<open>None\<close> when it is not
  one. The out parameters \<open>consumed\<close> and \<open>peer\<close> are passed in and returned.
\<close>

section \<open>Data\<close>

datatype KlProxyResult = KL_PROXY_NONE | KL_PROXY_NEED_MORE | KL_PROXY_OK | KL_PROXY_INVALID

definition KL_PROXY_HEADER_MAX :: nat where "KL_PROXY_HEADER_MAX = 536"

record KlCidr =
  c_family :: KlAddrFamily
  c_addr :: "byte list"
  c_bits :: int

record inet_pton =
  pton4 :: "string \<Rightarrow> byte list option"
  pton6 :: "string \<Rightarrow> byte list option"

definition V2SIG :: "byte list" where
  "V2SIG = [0x0D, 0x0A, 0x0D, 0x0A, 0x00, 0x0D, 0x0A, 0x51, 0x55, 0x49, 0x54, 0x0A]"

definition V1SIG :: "byte list" where
  "V1SIG = map (\<lambda>c. of_nat (uchar c)) ''PROXY ''"

section \<open>Version 1\<close>

fun v1_port_loop :: "string \<Rightarrow> nat \<Rightarrow> nat \<Rightarrow> (nat \<times> nat) option" where
  "v1_port_loop [] n v = Some (n, v)"
| "v1_port_loop (c # s) n v =
     (if n \<ge> 5 \<or> \<not> is_dec c then None else v1_port_loop s (n + 1) (v * 10 + (uchar c - uchar CHR ''0'')))"

definition v1_port :: "string \<Rightarrow> u16 option" where
  "v1_port s =
     (case v1_port_loop s 0 0 of
        None \<Rightarrow> None
      | Some (n, v) \<Rightarrow> if n = 0 \<or> v > 65535 \<or> n > 1 \<and> peek s = CHR ''0'' then None else Some (of_nat v))"

text \<open>The cursor is \<open>None\<close> past the last field. The result is the field, if any, and the cursor after it.\<close>

definition v1_field :: "string option \<Rightarrow> string option \<times> string option" where
  "v1_field p =
     (case p of
        None \<Rightarrow> (None, None)
      | Some start \<Rightarrow>
          if peek start = NUL \<or> peek start = CHR '' '' then (None, Some start)
          else case strchr_from start CHR '' '' 0 of
            Some i \<Rightarrow> (Some (take i start), Some (drop (i + 1) start))
          | None \<Rightarrow> (Some start, None))"

definition v1_line_end :: "byte list \<Rightarrow> nat option" where
  "v1_line_end buf = find (\<lambda>i. buf ! i = 0x0D \<and> buf ! (i + 1) = 0x0A) [5..<min (length buf) 107 - 1]"

type_synonym proxy_out = "KlProxyResult \<times> nat \<times> KlSockAddr"

text \<open>The four fields after the protocol, and the addresses they stand for.\<close>

definition v1_addresses :: "inet_pton \<Rightarrow> bool \<Rightarrow> string option \<Rightarrow> nat \<Rightarrow> KlSockAddr \<Rightarrow> proxy_out" where
  "v1_addresses P v4 cur consumed peer =
     (let (src, cur) = v1_field cur;
          (dst, cur) = v1_field cur;
          (sport, cur) = v1_field cur;
          (dport, cur) = v1_field cur
      in case (src, dst, sport, dport) of
           (Some src, Some dst, Some sport, Some dport) \<Rightarrow>
             if cur \<noteq> None then (KL_PROXY_INVALID, consumed, peer)
             else (case (v1_port sport, v1_port dport) of
               (Some sp, Some dp) \<Rightarrow>
                 if v4 then
                   case (pton4 P src, pton4 P dst) of
                     (Some b, Some d) \<Rightarrow> (KL_PROXY_OK, consumed, kl_sockaddr_from_ipv4 b sp)
                   | _ \<Rightarrow> (KL_PROXY_INVALID, consumed, peer)
                 else
                   case (pton6 P src, pton6 P dst) of
                     (Some b, Some d) \<Rightarrow> (KL_PROXY_OK, consumed, kl_sockaddr_from_ipv6 b sp 0)
                   | _ \<Rightarrow> (KL_PROXY_INVALID, consumed, peer)
             | _ \<Rightarrow> (KL_PROXY_INVALID, consumed, peer))
         | _ \<Rightarrow> (KL_PROXY_INVALID, consumed, peer))"

definition v1_line :: "inet_pton \<Rightarrow> string \<Rightarrow> nat \<Rightarrow> KlSockAddr \<Rightarrow> proxy_out" where
  "v1_line P line consumed peer =
     (let (tok, cur) = v1_field (Some line) in
      if tok = None then (KL_PROXY_INVALID, consumed, peer)
      else let (proto, cur) = v1_field cur in
        case proto of
          None \<Rightarrow> (KL_PROXY_INVALID, consumed, peer)
        | Some proto \<Rightarrow>
            if proto = ''UNKNOWN'' then (KL_PROXY_OK, consumed, zero_sockaddr)
            else if proto = ''TCP4'' then v1_addresses P True cur consumed peer
            else if proto = ''TCP6'' then v1_addresses P False cur consumed peer
            else (KL_PROXY_INVALID, consumed, peer))"

definition parse_v1 :: "inet_pton \<Rightarrow> byte list \<Rightarrow> nat \<Rightarrow> KlSockAddr \<Rightarrow> proxy_out" where
  "parse_v1 P buf consumed peer =
     (case v1_line_end buf of
        None \<Rightarrow> ((if length buf \<ge> 107 then KL_PROXY_INVALID else KL_PROXY_NEED_MORE), consumed, peer)
      | Some nl \<Rightarrow>
          if 0 \<in> set (take nl buf) then (KL_PROXY_INVALID, consumed, peer)
          else v1_line P (map (\<lambda>b. char_of (unat b)) (take nl buf)) (nl + 2) peer)"

section \<open>Version 2\<close>

definition be16_at :: "byte list \<Rightarrow> nat \<Rightarrow> u16" where
  "be16_at buf i = push_bit 8 (ucast (buf ! i)) OR ucast (buf ! (i + 1))"

definition parse_v2 :: "byte list \<Rightarrow> nat \<Rightarrow> KlSockAddr \<Rightarrow> proxy_out" where
  "parse_v2 buf consumed peer =
     (let ver_cmd = buf ! 12 in
      if drop_bit 4 ver_cmd \<noteq> 2 then (KL_PROXY_INVALID, consumed, peer)
      else
        let cmd = ver_cmd AND 0x0F;
            fam = drop_bit 4 (buf ! 13);
            blocklen = unat (be16_at buf 14);
            total = 16 + blocklen
        in if total > KL_PROXY_HEADER_MAX then (KL_PROXY_INVALID, consumed, peer)
           else if length buf < total then (KL_PROXY_NEED_MORE, consumed, peer)
           else if cmd = 0 then (KL_PROXY_OK, total, zero_sockaddr)
           else if cmd \<noteq> 1 then (KL_PROXY_INVALID, total, zero_sockaddr)
           else if fam = 1 then
             if blocklen < 12 then (KL_PROXY_INVALID, total, zero_sockaddr)
             else (KL_PROXY_OK, total, kl_sockaddr_from_ipv4 (take 4 (drop 16 buf)) (be16_at buf 24))
           else if fam = 2 then
             if blocklen < 36 then (KL_PROXY_INVALID, total, zero_sockaddr)
             else (KL_PROXY_OK, total, kl_sockaddr_from_ipv6 (take 16 (drop 16 buf)) (be16_at buf 48) 0)
           else (KL_PROXY_OK, total, zero_sockaddr))"

definition kl_proxy_parse :: "inet_pton \<Rightarrow> byte list \<Rightarrow> nat \<Rightarrow> KlSockAddr \<Rightarrow> proxy_out" where
  "kl_proxy_parse P buf consumed peer =
     (let len = length buf in
      if len = 0 then (KL_PROXY_NEED_MORE, consumed, peer)
      else if take 12 buf = take len V2SIG then
        if len < 16 then (KL_PROXY_NEED_MORE, consumed, peer) else parse_v2 buf consumed peer
      else if take 6 buf = take len V1SIG then
        if len < 6 then (KL_PROXY_NEED_MORE, consumed, peer) else parse_v1 P buf consumed peer
      else (KL_PROXY_NONE, consumed, peer))"

section \<open>Trusted networks\<close>

definition is_v4_mapped :: "byte list \<Rightarrow> bool" where
  "is_v4_mapped a \<longleftrightarrow> take 12 a = replicate 10 0 @ [0xFF, 0xFF]"

text \<open>\<open>strtol\<close> in base 10: the number and what follows it; without digits, 0 and the whole string.\<close>

definition isspace :: "char \<Rightarrow> bool" where
  "isspace c \<longleftrightarrow> uchar c = 32 \<or> 9 \<le> uchar c \<and> uchar c \<le> 13"

definition strtol10 :: "string \<Rightarrow> int \<times> string" where
  "strtol10 s =
     (let t = dropWhile isspace s;
          neg = (peek t = CHR ''-'');
          t = (if peek t = CHR ''-'' \<or> peek t = CHR ''+'' then tl t else t);
          ds = takeWhile is_dec t;
          v = int (foldl (\<lambda>a c. a * 10 + (uchar c - uchar CHR ''0'')) 0 ds)
      in if ds = [] then (0, s) else ((if neg then - v else v), dropWhile is_dec t))"

definition cidr_sep :: "char \<Rightarrow> bool" where
  "cidr_sep c \<longleftrightarrow> c = CHR '' '' \<or> c = CHR '','' \<or> c = CHR 0x09"

definition cidr_bits :: "string option \<Rightarrow> int \<Rightarrow> int option" where
  "cidr_bits slash maxbits =
     (case slash of
        None \<Rightarrow> Some maxbits
      | Some t \<Rightarrow>
          let (b, e) = strtol10 t in
          if e = t \<or> e \<noteq> [] \<or> b < 0 \<or> b > maxbits then None else Some b)"

definition cidr_entry :: "KlAddrFamily \<Rightarrow> byte list \<Rightarrow> int \<Rightarrow> KlCidr" where
  "cidr_entry fam abuf bits =
     (if fam = KL_AF_INET6 \<and> bits \<ge> 96 \<and> is_v4_mapped abuf then
        \<lparr>c_family = KL_AF_INET, c_addr = take 4 (drop 12 abuf) @ replicate 12 0, c_bits = bits - 96\<rparr>
      else
        \<lparr>c_family = fam,
         c_addr = (if fam = KL_AF_INET then take 4 abuf @ replicate 12 0 else take 16 abuf), c_bits = bits\<rparr>)"

text \<open>One token of the list, not longer than the buffer it is copied to.\<close>

definition cidr_token :: "inet_pton \<Rightarrow> string \<Rightarrow> KlCidr option" where
  "cidr_token P tok =
     (let addr = takeWhile (\<lambda>c. c \<noteq> CHR ''/'') tok;
          slash = (if CHR ''/'' \<in> set tok then Some (drop (length addr + 1) tok) else None)
      in case pton4 P addr of
           Some abuf \<Rightarrow> map_option (cidr_entry KL_AF_INET abuf) (cidr_bits slash 32)
         | None \<Rightarrow>
             case pton6 P addr of
               Some abuf \<Rightarrow> map_option (cidr_entry KL_AF_INET6 abuf) (cidr_bits slash 128)
             | None \<Rightarrow> None)"

function cidr_loop :: "inet_pton \<Rightarrow> nat \<Rightarrow> string \<Rightarrow> KlCidr list \<Rightarrow> KlCidr list option" where
  "cidr_loop P cap p out =
     (let p = dropWhile cidr_sep p in
      if p = [] then Some out
      else
        let tok = takeWhile (Not \<circ> cidr_sep) p in
        if length tok \<ge> 128 then None
        else case cidr_token P tok of
          None \<Rightarrow> None
        | Some c \<Rightarrow> if length out \<ge> cap then None else cidr_loop P cap (dropWhile (Not \<circ> cidr_sep) p) (out @ [c]))"
  by pat_completeness auto
termination
proof (relation "measure (\<lambda>(P, cap, p, out). length p)", simp)
  fix p q :: string and P cap out tok c
  assume q: "q = dropWhile cidr_sep p" "q \<noteq> []"
  have "length (dropWhile (Not \<circ> cidr_sep) q) < length q"
  proof (cases q)
    case (Cons a t)
    have "\<not> cidr_sep a" using q Cons by (metis hd_dropWhile list.sel(1))
    then show ?thesis using Cons length_dropWhile_le [of "Not \<circ> cidr_sep" t] by simp
  qed (use q in simp)
  moreover have "length q \<le> length p" unfolding q(1) by (rule length_dropWhile_le)
  ultimately show "((P, cap, dropWhile (Not \<circ> cidr_sep) q, out @ [c]), P, cap, p, out) \<in> measure (\<lambda>(P, cap, p, out). length p)"
    by simp
qed

declare cidr_loop.simps [simp del]

definition kl_cidr_parse_list :: "inet_pton \<Rightarrow> string \<Rightarrow> nat \<Rightarrow> KlCidr list option" where
  "kl_cidr_parse_list P s cap = cidr_loop P cap s []"

definition prefix_match :: "byte list \<Rightarrow> byte list \<Rightarrow> int \<Rightarrow> nat \<Rightarrow> bool" where
  "prefix_match a b bits alen =
     (let full = nat (bits div 8); rem = nat (bits mod 8) in
      if full > alen then False
      else if full > 0 \<and> take full a \<noteq> take full b then False
      else if rem \<noteq> 0 then
        let m = push_bit (8 - rem) 0xFF :: byte in (a ! full) AND m = (b ! full) AND m
      else True)"

fun cidr_any :: "KlCidr list \<Rightarrow> KlAddrFamily \<Rightarrow> byte list \<Rightarrow> nat \<Rightarrow> bool" where
  "cidr_any [] fam a alen = False"
| "cidr_any (c # cs) fam a alen =
     (if c_family c \<noteq> fam then cidr_any cs fam a alen
      else if prefix_match a (c_addr c) (c_bits c) alen then True
      else cidr_any cs fam a alen)"

definition kl_cidr_match :: "KlCidr list \<Rightarrow> KlSockAddr \<Rightarrow> bool" where
  "kl_cidr_match cs sa =
     (case kl_sockaddr_family sa of
        KL_AF_INET \<Rightarrow> cidr_any cs KL_AF_INET (u_ip sa) 4
      | KL_AF_INET6 \<Rightarrow>
          if is_v4_mapped (u_ip sa) then cidr_any cs KL_AF_INET (drop 12 (u_ip sa)) 4
          else cidr_any cs KL_AF_INET6 (u_ip sa) 16
      | _ \<Rightarrow> False)"

section \<open>Parsing as the bytes arrive\<close>

lemma be16_at_append: "i + 1 < length buf \<Longrightarrow> be16_at (buf @ x) i = be16_at buf i"
  by (simp add: be16_at_def nth_append)

lemma find_append: "find P (xs @ ys) = (case find P xs of None \<Rightarrow> find P ys | Some i \<Rightarrow> Some i)"
  by (induction xs) auto

lemma find_upt_extend:
  assumes "find P [a..<b] = Some i" and "b \<le> c"
  shows "find P [a..<c] = Some i"
proof -
  have "a \<le> b" using assms(1) by (cases "a \<le> b") auto
  then have "[a..<c] = [a..<b] @ [b..<c]" using assms(2) by (metis le_Suc_ex upt_add_eq_append)
  then show ?thesis using assms(1) by (simp add: find_append)
qed

lemma v1_line_end_bounds:
  "v1_line_end buf = Some nl \<Longrightarrow> 5 \<le> nl \<and> nl + 2 \<le> length buf \<and> nl + 2 \<le> 107"
  by (auto simp: v1_line_end_def find_Some_iff)

lemma find_upt_cong:
  assumes "\<And>i. i < b \<Longrightarrow> P i = Q i"
  shows "find P [a..<b] = find Q [a..<b]"
  by (rule find_cong) (use assms in auto)

lemma v1_line_end_extend:
  assumes "v1_line_end buf = Some nl"
  shows "v1_line_end (buf @ x) = Some nl"
proof -
  let ?P = "\<lambda>i. (buf @ x) ! i = 0x0D \<and> (buf @ x) ! (i + 1) = 0x0A"
  have "find ?P [5..<min (length buf) 107 - 1] = v1_line_end buf"
    unfolding v1_line_end_def by (rule find_upt_cong) (auto simp: nth_append)
  with assms have "find ?P [5..<min (length buf) 107 - 1] = Some nl" by simp
  then show ?thesis unfolding v1_line_end_def by (rule find_upt_extend) auto
qed

lemma v1_line_end_none:
  assumes "v1_line_end buf = None" and "length buf \<ge> 107"
  shows "v1_line_end (buf @ x) = None"
proof -
  let ?P = "\<lambda>i. (buf @ x) ! i = 0x0D \<and> (buf @ x) ! (i + 1) = 0x0A"
  have e: "find ?P [5..<min (length buf) 107 - 1] = v1_line_end buf"
    unfolding v1_line_end_def by (rule find_upt_cong) (auto simp: nth_append)
  have m: "min (length (buf @ x)) 107 = min (length buf) 107" using assms(2) by simp
  show ?thesis unfolding v1_line_end_def m e using assms(1) unfolding v1_line_end_def .
qed

lemma parse_v1_extend:
  assumes "fst (parse_v1 P buf consumed peer) \<noteq> KL_PROXY_NEED_MORE"
  shows "parse_v1 P (buf @ x) consumed peer = parse_v1 P buf consumed peer"
proof (cases "v1_line_end buf")
  case None
  then have "length buf \<ge> 107" using assms by (auto simp: parse_v1_def split: if_splits)
  with None v1_line_end_none [OF None, of x] show ?thesis by (simp add: parse_v1_def)
next
  case (Some nl)
  with v1_line_end_bounds [OF Some] v1_line_end_extend [OF Some, of x] show ?thesis by (simp add: parse_v1_def)
qed

lemma parse_v2_extend:
  assumes "16 \<le> length buf" and "fst (parse_v2 buf consumed peer) \<noteq> KL_PROXY_NEED_MORE"
  shows "parse_v2 (buf @ x) consumed peer = parse_v2 buf consumed peer"
proof -
  have n: "(buf @ x) ! 12 = buf ! 12" "(buf @ x) ! 13 = buf ! 13" "be16_at (buf @ x) 14 = be16_at buf 14"
    using assms(1) by (simp_all add: nth_append be16_at_append)
  define bl where "bl = unat (be16_at buf 14)"
  have a: "be16_at (buf @ x) 24 = be16_at buf 24" "take 4 (drop 16 (buf @ x)) = take 4 (drop 16 buf)"
    if "16 + bl \<le> length buf" "\<not> bl < 12" using that by (simp_all add: be16_at_append)
  have b: "be16_at (buf @ x) 48 = be16_at buf 48" "take 16 (drop 16 (buf @ x)) = take 16 (drop 16 buf)"
    if "16 + bl \<le> length buf" "\<not> bl < 36" using that by (simp_all add: be16_at_append)
  show ?thesis
  proof (cases "drop_bit 4 (buf ! 12) \<noteq> 2 \<or> 16 + bl > KL_PROXY_HEADER_MAX")
    case True
    then show ?thesis by (auto simp: parse_v2_def n bl_def Let_def)
  next
    case False
    then have "16 + bl \<le> length buf" using assms(2) by (auto simp: parse_v2_def bl_def Let_def split: if_splits)
    with a b show ?thesis unfolding parse_v2_def n bl_def [symmetric] Let_def by simp
  qed
qed

lemma v1_line_consumed: "fst (v1_line P line consumed peer) \<noteq> KL_PROXY_NEED_MORE \<and> fst (snd (v1_line P line consumed peer)) = consumed"
  by (auto simp: v1_line_def v1_addresses_def Let_def split: prod.splits option.splits if_splits)

lemma parse_v1_bounds:
  assumes "parse_v1 P buf consumed peer = (r, c, p)"
  shows "(r = KL_PROXY_OK \<longrightarrow> 0 < c \<and> c \<le> length buf \<and> c \<le> 107) \<and>
    (r = KL_PROXY_NEED_MORE \<longrightarrow> length buf < 107 \<and> c = consumed \<and> p = peer)"
proof (cases "v1_line_end buf")
  case (Some nl)
  with v1_line_end_bounds [OF Some] assms
    v1_line_consumed [of P "map (\<lambda>b. char_of (unat b)) (take nl buf)" "nl + 2" peer] show ?thesis
    by (auto simp: parse_v1_def split: if_splits)
qed (use assms in \<open>auto simp: parse_v1_def split: if_splits\<close>)

lemma parse_v2_bounds:
  assumes "parse_v2 buf consumed peer = (r, c, p)"
  shows "(r = KL_PROXY_OK \<longrightarrow> 0 < c \<and> c \<le> length buf \<and> c \<le> KL_PROXY_HEADER_MAX) \<and>
    (r = KL_PROXY_NEED_MORE \<longrightarrow> length buf < KL_PROXY_HEADER_MAX \<and> c = consumed \<and> p = peer)"
  using assms by (auto simp: parse_v2_def Let_def split: if_splits)

lemma signature_extend:
  assumes "take k (buf @ x) = take (length (buf @ x)) S" and "length S = k"
  shows "take k buf = take (length buf) S"
proof -
  have "take k buf = take (length buf) (take k (buf @ x))" by (simp add: min_def)
  also have "\<dots> = take (length buf) (take (length (buf @ x)) S)" using assms(1) by simp
  finally show ?thesis by simp
qed

lemma signature_full: "k \<le> length buf \<Longrightarrow> length S = k \<Longrightarrow> take k buf = take (length buf) S \<Longrightarrow> take k (buf @ x) = take (length (buf @ x)) S"
  by simp

lemma length_V2SIG: "length V2SIG = 12" and length_V1SIG: "length V1SIG = 6"
  by (simp_all add: V2SIG_def V1SIG_def)

lemma kl_proxy_parse_extend:
  assumes "fst (kl_proxy_parse P buf consumed peer) \<noteq> KL_PROXY_NEED_MORE"
  shows "kl_proxy_parse P (buf @ x) consumed peer = kl_proxy_parse P buf consumed peer"
proof -
  have ne: "length buf \<noteq> 0" using assms by (auto simp: kl_proxy_parse_def)
  then have ne': "length (buf @ x) \<noteq> 0" by simp
  show ?thesis
  proof (cases "take 12 buf = take (length buf) V2SIG")
    case True
    then have l: "\<not> length buf < 16" using assms ne by (auto simp: kl_proxy_parse_def)
    have "take 12 (buf @ x) = take (length (buf @ x)) V2SIG"
      by (rule signature_full) (use l True length_V2SIG in auto)
    with True l ne assms parse_v2_extend [of buf consumed peer x] show ?thesis by (auto simp: kl_proxy_parse_def)
  next
    case no2: False
    then have no2': "take 12 (buf @ x) \<noteq> take (length (buf @ x)) V2SIG" using signature_extend [OF _ length_V2SIG] by blast
    show ?thesis
    proof (cases "take 6 buf = take (length buf) V1SIG")
      case True
      then have l: "\<not> length buf < 6" using assms ne no2 by (auto simp: kl_proxy_parse_def)
      have s: "take 6 (buf @ x) = take (length (buf @ x)) V1SIG"
        by (rule signature_full) (use l True length_V1SIG in auto)
      have l': "\<not> length (buf @ x) < 6" using l by simp
      have "fst (parse_v1 P buf consumed peer) \<noteq> KL_PROXY_NEED_MORE"
        using assms ne no2 True l unfolding kl_proxy_parse_def Let_def by simp
      from parse_v1_extend [OF this, of x] show ?thesis
        unfolding kl_proxy_parse_def Let_def if_not_P [OF ne] if_not_P [OF ne'] if_not_P [OF no2] if_not_P [OF no2']
          if_P [OF True] if_P [OF s] if_not_P [OF l] if_not_P [OF l'] .
    next
      case False
      then have no1: "take 6 (buf @ x) \<noteq> take (length (buf @ x)) V1SIG" using signature_extend [OF _ length_V1SIG] by blast
      show ?thesis
        unfolding kl_proxy_parse_def Let_def if_not_P [OF ne] if_not_P [OF ne'] if_not_P [OF no2] if_not_P [OF no2']
          if_not_P [OF False] if_not_P [OF no1] ..
    qed
  qed
qed

text \<open>
  C13. The PROXY header parser can be called as bytes arrive: an answer other than \<open>NEED_MORE\<close> does not change
  when more bytes follow, an accepted header lies within the bytes read and within 536 of them, and
  \<open>NEED_MORE\<close> is never returned once 536 bytes are there and leaves the outputs alone.
\<close>

theorem kl_proxy_parse_incremental:
  assumes "kl_proxy_parse P buf consumed peer = (r, c, p)"
  shows "(r \<noteq> KL_PROXY_NEED_MORE \<longrightarrow> kl_proxy_parse P (buf @ x) consumed peer = (r, c, p)) \<and>
    (r = KL_PROXY_OK \<longrightarrow> 0 < c \<and> c \<le> length buf \<and> c \<le> KL_PROXY_HEADER_MAX) \<and>
    (r = KL_PROXY_NEED_MORE \<longrightarrow> length buf < KL_PROXY_HEADER_MAX \<and> c = consumed \<and> p = peer)"
proof -
  have "(r = KL_PROXY_OK \<longrightarrow> 0 < c \<and> c \<le> length buf \<and> c \<le> KL_PROXY_HEADER_MAX) \<and>
    (r = KL_PROXY_NEED_MORE \<longrightarrow> length buf < KL_PROXY_HEADER_MAX \<and> c = consumed \<and> p = peer)"
    using assms parse_v1_bounds [of P buf consumed peer r c p] parse_v2_bounds [of buf consumed peer r c p]
    by (auto simp: kl_proxy_parse_def KL_PROXY_HEADER_MAX_def Let_def split: if_splits)
  moreover have "kl_proxy_parse P (buf @ x) consumed peer = (r, c, p)" if "r \<noteq> KL_PROXY_NEED_MORE"
    using kl_proxy_parse_extend [of P buf consumed peer x] assms that by simp
  ultimately show ?thesis by blast
qed

definition literal_pton :: inet_pton where
  "literal_pton = \<lparr>pton4 = parse_ipv4, pton6 = parse_ipv6\<rparr>"

definition demo_header :: "byte list" where
  "demo_header = V2SIG @ [0x21, 0x11, 0, 12] @ [10, 0, 0, 1, 10, 0, 0, 2, 0x12, 0x34, 0, 80]"

theorem kl_proxy_parse_incremental_witness:
  "kl_proxy_parse literal_pton (demo_header @ [0x47, 0x45, 0x54]) 0 zero_sockaddr =
     (KL_PROXY_OK, 28, kl_sockaddr_from_ipv4 [10, 0, 0, 1] 4660)"
proof -
  have "kl_proxy_parse literal_pton demo_header 0 zero_sockaddr = (KL_PROXY_OK, 28, kl_sockaddr_from_ipv4 [10, 0, 0, 1] 4660)"
    by code_simp
  from kl_proxy_parse_incremental [OF this, of "[0x47, 0x45, 0x54]"] show ?thesis by simp
qed

section \<open>Trust\<close>

text \<open>Bit \<open>i\<close> of an address in network order.\<close>

definition addr_bit :: "byte list \<Rightarrow> nat \<Rightarrow> bool" where
  "addr_bit a i \<longleftrightarrow> bit (a ! (i div 8)) (7 - i mod 8)"

lemma byte_prefix:
  assumes "0 < k" and "k < 8"
  shows "x AND push_bit (8 - k) 0xFF = y AND (push_bit (8 - k) 0xFF :: byte) \<longleftrightarrow> (\<forall>j < k. bit x (7 - j) = bit y (7 - j))"
proof -
  have m: "bit (push_bit (8 - k) 0xFF :: byte) n \<longleftrightarrow> 8 - k \<le> n \<and> n < 8" for n
  proof -
    have "list_all (\<lambda>k. list_all (\<lambda>n. bit (push_bit (8 - k) 0xFF :: byte) n = (8 - k \<le> n)) [0..<8]) [1..<8]"
      by code_simp
    then have "n < 8 \<Longrightarrow> ?thesis" using assms by (simp add: list_all_iff del: upt_Suc)
    moreover have "bit (push_bit (8 - k) 0xFF :: byte) n \<Longrightarrow> n < 8" using bit_imp_le_length by fastforce
    ultimately show ?thesis by blast
  qed
  have "x AND push_bit (8 - k) 0xFF = y AND (push_bit (8 - k) 0xFF :: byte) \<longleftrightarrow>
      (\<forall>n. 8 - k \<le> n \<and> n < 8 \<longrightarrow> bit x n = bit y n)"
    by (subst bit_eq_iff) (auto simp: bit_and_iff m)
  also have "\<dots> \<longleftrightarrow> (\<forall>j < k. bit x (7 - j) = bit y (7 - j))"
  proof (rule iffI; intro allI impI)
    fix j
    assume a: "\<forall>n. 8 - k \<le> n \<and> n < 8 \<longrightarrow> bit x n = bit y n" and "j < k"
    then have "8 - k \<le> 7 - j \<and> 7 - j < 8" using assms by linarith
    with a show "bit x (7 - j) = bit y (7 - j)" by blast
  next
    fix n
    assume a: "\<forall>j < k. bit x (7 - j) = bit y (7 - j)" and n: "8 - k \<le> n \<and> n < 8"
    then have "7 - n < k" using assms by linarith
    with a have "bit x (7 - (7 - n)) = bit y (7 - (7 - n))" by blast
    then show "bit x n = bit y n" using n by simp
  qed
  finally show ?thesis .
qed

lemma byte_bits: "(x :: byte) = y \<longleftrightarrow> (\<forall>j < 8. bit x (7 - j) = bit y (7 - j))"
proof
  assume a: "\<forall>j < 8. bit x (7 - j) = bit y (7 - j)"
  have "bit x n = bit y n" if "n < 8" for n
    using a [rule_format, of "7 - n"] that by simp
  then show "x = y" by (auto simp: bit_eq_iff)
qed simp

lemma prefix_match_iff:
  assumes "0 \<le> bits" and "bits \<le> 8 * int alen" and "alen \<le> length a" and "alen \<le> length b"
  shows "prefix_match a b bits alen \<longleftrightarrow> (\<forall>i < nat bits. addr_bit a i = addr_bit b i)"
proof -
  define f k where "f = nat (bits div 8)" and "k = nat (bits mod 8)"
  have n: "nat bits = 8 * f + k" "k < 8" using assms(1) by (auto simp: f_def k_def nat_mod_distrib nat_div_distrib)
  have f: "f \<le> alen" using assms(1,2) by (simp add: f_def)
  have bytes: "(f > 0 \<longrightarrow> take f a = take f b) \<longleftrightarrow> (\<forall>m < f. \<forall>j < 8. bit (a ! m) (7 - j) = bit (b ! m) (7 - j))"
    using f assms(3,4) byte_bits by (auto simp: list_eq_iff_nth_eq)
  have split: "(\<forall>i < nat bits. addr_bit a i = addr_bit b i) \<longleftrightarrow>
      (\<forall>m < f. \<forall>j < 8. bit (a ! m) (7 - j) = bit (b ! m) (7 - j)) \<and> (\<forall>j < k. bit (a ! f) (7 - j) = bit (b ! f) (7 - j))"
  proof (rule iffI; (intro conjI)?; intro allI impI)
    fix m j :: nat
    assume h: "\<forall>i < nat bits. addr_bit a i = addr_bit b i" and "m < f" "j < 8"
    then have "8 * m + j < nat bits" unfolding n by linarith
    with h show "bit (a ! m) (7 - j) = bit (b ! m) (7 - j)" using \<open>j < 8\<close> by (fastforce simp: addr_bit_def)
  next
    fix j
    assume h: "\<forall>i < nat bits. addr_bit a i = addr_bit b i" and "j < k"
    then have "8 * f + j < nat bits" unfolding n by linarith
    with h show "bit (a ! f) (7 - j) = bit (b ! f) (7 - j)" using \<open>j < k\<close> n(2) by (fastforce simp: addr_bit_def)
  next
    fix i
    assume h: "(\<forall>m < f. \<forall>j < 8. bit (a ! m) (7 - j) = bit (b ! m) (7 - j)) \<and> (\<forall>j < k. bit (a ! f) (7 - j) = bit (b ! f) (7 - j))"
      and i: "i < nat bits"
    have "i < 8 * f + k" "i = 8 * (i div 8) + i mod 8" "i mod 8 < 8" using i n(1) by simp_all
    then have "i div 8 < f \<or> i div 8 = f \<and> i mod 8 < k" using n(2) by linarith
    then show "addr_bit a i = addr_bit b i" unfolding addr_bit_def using h by auto
  qed
  show ?thesis
  proof (cases "k = 0")
    case True
    have "prefix_match a b bits alen \<longleftrightarrow> (f > 0 \<longrightarrow> take f a = take f b)"
      using f True unfolding prefix_match_def f_def [symmetric] k_def [symmetric] Let_def by simp
    then show ?thesis unfolding split bytes using True by simp
  next
    case False
    have p: "(a ! f) AND push_bit (8 - k) 0xFF = (b ! f) AND (push_bit (8 - k) 0xFF :: byte) \<longleftrightarrow>
        (\<forall>j < k. bit (a ! f) (7 - j) = bit (b ! f) (7 - j))"
      using False n(2) by (intro byte_prefix) simp_all
    have "prefix_match a b bits alen \<longleftrightarrow> (f > 0 \<longrightarrow> take f a = take f b) \<and>
        (a ! f) AND push_bit (8 - k) 0xFF = (b ! f) AND (push_bit (8 - k) 0xFF :: byte)"
      using f False unfolding prefix_match_def f_def [symmetric] k_def [symmetric] Let_def by (simp split: if_splits)
    then show ?thesis unfolding split p bytes .
  qed
qed

text \<open>What the parser of the list relies on of \<open>inet_pton\<close>, and what it leaves in an entry.\<close>

definition pton_ok :: "inet_pton \<Rightarrow> bool" where
  "pton_ok P \<longleftrightarrow> (\<forall>s a. pton4 P s = Some a \<longrightarrow> length a = 4) \<and> (\<forall>s a. pton6 P s = Some a \<longrightarrow> length a = 16)"

definition cidr_ok :: "KlCidr \<Rightarrow> bool" where
  "cidr_ok c \<longleftrightarrow> length (c_addr c) = 16 \<and> 0 \<le> c_bits c \<and>
     (c_family c = KL_AF_INET \<and> c_bits c \<le> 32 \<or> c_family c = KL_AF_INET6 \<and> c_bits c \<le> 128)"

lemma cidr_bits_range: "cidr_bits slash m = Some b \<Longrightarrow> 0 \<le> m \<Longrightarrow> 0 \<le> b \<and> b \<le> m"
  by (auto simp: cidr_bits_def Let_def split: option.splits if_splits prod.splits)

lemma cidr_token_ok:
  assumes "pton_ok P" and "cidr_token P tok = Some c"
  shows "cidr_ok c"
  using assms
  by (auto simp: cidr_token_def pton_ok_def cidr_ok_def cidr_entry_def Let_def split: option.splits if_splits
      dest!: cidr_bits_range)

lemma cidr_loop_ok:
  assumes "pton_ok P"
  shows "cidr_loop P cap p out = Some cs \<Longrightarrow> list_all cidr_ok out \<Longrightarrow> list_all cidr_ok cs"
  using assms
proof (induction P cap p out rule: cidr_loop.induct)
  case (1 P cap p out)
  define q where "q = dropWhile cidr_sep p"
  define tok where "tok = takeWhile (Not \<circ> cidr_sep) q"
  show ?case
  proof (cases "q = []")
    case True
    then show ?thesis using "1.prems" by (auto simp: cidr_loop.simps [of P cap p] q_def [symmetric] Let_def)
  next
    case False
    with "1.prems"(1) obtain c where t: "\<not> 128 \<le> length tok" "cidr_token P tok = Some c" "\<not> cap \<le> length out"
      and l: "cidr_loop P cap (dropWhile (Not \<circ> cidr_sep) q) (out @ [c]) = Some cs"
      by (auto simp: cidr_loop.simps [of P cap p] q_def [symmetric] tok_def [symmetric] Let_def split: if_splits option.splits)
    show ?thesis
      using "1.IH" [OF q_def False tok_def t l] cidr_token_ok [OF "1.prems"(3) t(2)] "1.prems"(2,3) by simp
  qed
qed

lemma kl_cidr_parse_list_ok: "pton_ok P \<Longrightarrow> kl_cidr_parse_list P s cap = Some cs \<Longrightarrow> list_all cidr_ok cs"
  using cidr_loop_ok [of P cap s "[]" cs] by (simp add: kl_cidr_parse_list_def)

lemma cidr_any_iff:
  "cidr_any cs fam a alen \<longleftrightarrow> (\<exists>c \<in> set cs. c_family c = fam \<and> prefix_match a (c_addr c) (c_bits c) alen)"
  by (induction cs) auto

definition in_network :: "KlAddrFamily \<Rightarrow> byte list \<Rightarrow> KlCidr \<Rightarrow> bool" where
  "in_network fam a c \<longleftrightarrow> c_family c = fam \<and> (\<forall>i < nat (c_bits c). addr_bit a i = addr_bit (c_addr c) i)"

lemma cidr_any_in_network:
  assumes "list_all cidr_ok cs" and "fam = KL_AF_INET \<and> alen = 4 \<or> fam = KL_AF_INET6 \<and> alen = 16" and "alen \<le> length a"
  shows "cidr_any cs fam a alen \<longleftrightarrow> (\<exists>c \<in> set cs. in_network fam a c)"
proof -
  have "prefix_match a (c_addr c) (c_bits c) alen \<longleftrightarrow> (\<forall>i < nat (c_bits c). addr_bit a i = addr_bit (c_addr c) i)"
    if "c \<in> set cs" "c_family c = fam" for c
    using assms that by (intro prefix_match_iff) (auto simp: list_all_iff cidr_ok_def)
  then show ?thesis unfolding cidr_any_iff in_network_def by blast
qed

lemma in_network_take: "length b = 4 \<Longrightarrow> cidr_ok c \<Longrightarrow> in_network KL_AF_INET (b @ x) c = in_network KL_AF_INET b c"
proof -
  assume b: "length b = 4" and c: "cidr_ok c"
  have "addr_bit (b @ x) i = addr_bit b i" if "i < 32" for i
  proof -
    have "i div 8 < 4" using that by simp
    then show ?thesis using b by (simp add: addr_bit_def nth_append)
  qed
  moreover have "nat (c_bits c) \<le> 32" if "c_family c = KL_AF_INET" using c that by (auto simp: cidr_ok_def)
  ultimately show ?thesis unfolding in_network_def by (metis order_less_le_trans)
qed

text \<open>The IPv6 form of an IPv4 address, as a dual-stack listener reports it.\<close>

abbreviation v4_mapped :: "byte list \<Rightarrow> byte list" where
  "v4_mapped ip4 \<equiv> replicate 10 0 @ [0xFF, 0xFF] @ ip4"

text \<open>
  C14. A peer is trusted exactly when its leading bits are those of an entry of its family in the parsed list,
  as many as the entry's prefix length; an IPv4 peer is judged the same whether it arrives as IPv4 or as an
  IPv4-mapped IPv6 address, and any other IPv6 peer only by the IPv6 entries.
\<close>

theorem kl_cidr_match_spec:
  assumes "pton_ok P" and "kl_cidr_parse_list P s cap = Some cs"
    and "length ip4 = 4" and "length ip6 = 16" and "\<not> is_v4_mapped ip6"
  shows "kl_cidr_match cs (kl_sockaddr_from_ipv4 ip4 p) = (\<exists>c \<in> set cs. in_network KL_AF_INET ip4 c) \<and>
    kl_cidr_match cs (kl_sockaddr_from_ipv6 (v4_mapped ip4) p scope) = (\<exists>c \<in> set cs. in_network KL_AF_INET ip4 c) \<and>
    kl_cidr_match cs (kl_sockaddr_from_ipv6 ip6 p scope) = (\<exists>c \<in> set cs. in_network KL_AF_INET6 ip6 c)"
proof -
  have ok: "list_all cidr_ok cs" using assms(1,2) by (rule kl_cidr_parse_list_ok)
  have "kl_cidr_match cs (kl_sockaddr_from_ipv4 ip4 p) = cidr_any cs KL_AF_INET (ip4 @ replicate 12 0) 4"
    using assms(3) by (simp add: kl_cidr_match_def kl_sockaddr_family_def kl_sockaddr_from_ipv4_def)
  also have "\<dots> = (\<exists>c \<in> set cs. in_network KL_AF_INET (ip4 @ replicate 12 0) c)"
    using ok assms(3) by (intro cidr_any_in_network) simp_all
  also have "\<dots> = (\<exists>c \<in> set cs. in_network KL_AF_INET ip4 c)"
    using ok in_network_take [OF assms(3)] by (auto simp: list_all_iff)
  finally have 1: "kl_cidr_match cs (kl_sockaddr_from_ipv4 ip4 p) = (\<exists>c \<in> set cs. in_network KL_AF_INET ip4 c)" .
  have "u_ip (kl_sockaddr_from_ipv6 (v4_mapped ip4) p scope) = v4_mapped ip4"
    using assms(3) by (simp add: kl_sockaddr_from_ipv6_def)
  moreover have "is_v4_mapped (v4_mapped ip4)" by (simp add: is_v4_mapped_def numeral_eq_Suc)
  moreover have "drop 12 (v4_mapped ip4) = ip4" by simp
  ultimately have "kl_cidr_match cs (kl_sockaddr_from_ipv6 (v4_mapped ip4) p scope) = cidr_any cs KL_AF_INET ip4 4"
    unfolding kl_cidr_match_def kl_sockaddr_family_def by (simp add: kl_sockaddr_from_ipv6_def)
  then have 2: "kl_cidr_match cs (kl_sockaddr_from_ipv6 (v4_mapped ip4) p scope) = (\<exists>c \<in> set cs. in_network KL_AF_INET ip4 c)"
    using cidr_any_in_network [OF ok, of KL_AF_INET 4 ip4] assms(3) by simp
  have "kl_cidr_match cs (kl_sockaddr_from_ipv6 ip6 p scope) = cidr_any cs KL_AF_INET6 ip6 16"
    using assms(4,5) by (simp add: kl_cidr_match_def kl_sockaddr_family_def kl_sockaddr_from_ipv6_def)
  then have 3: "kl_cidr_match cs (kl_sockaddr_from_ipv6 ip6 p scope) = (\<exists>c \<in> set cs. in_network KL_AF_INET6 ip6 c)"
    using cidr_any_in_network [OF ok, of KL_AF_INET6 16 ip6] assms(4) by simp
  from 1 2 3 show ?thesis by blast
qed

definition one_pton :: inet_pton where
  "one_pton = \<lparr>pton4 = (\<lambda>s. if s = ''10.0.0.0'' then Some [10, 0, 0, 0] else None), pton6 = (\<lambda>s. None)\<rparr>"

definition one_network :: KlCidr where
  "one_network = \<lparr>c_family = KL_AF_INET, c_addr = [10, 0, 0, 0] @ replicate 12 0, c_bits = 8\<rparr>"

theorem kl_cidr_match_spec_witness:
  "kl_cidr_match [one_network] (kl_sockaddr_from_ipv6 (v4_mapped [10, 1, 2, 3]) 80 0)"
proof -
  have p: "pton_ok one_pton" by (simp add: pton_ok_def one_pton_def)
  have l: "kl_cidr_parse_list one_pton ''10.0.0.0/8'' 4 = Some [one_network]" by code_simp
  have n: "\<not> is_v4_mapped (replicate 15 0 @ [1])" by code_simp
  have "addr_bit [10, 1, 2, 3] i = addr_bit (c_addr one_network) i" if "i < 8" for i
    using that by (simp add: addr_bit_def one_network_def)
  then have "in_network KL_AF_INET [10, 1, 2, 3] one_network" by (simp add: in_network_def one_network_def)
  with kl_cidr_match_spec [OF p l, of "[10, 1, 2, 3]" "replicate 15 0 @ [1]" 80 0] n show ?thesis by simp
qed

end
