(* ===== verification/Router.thy ===== *)
theory Router
  imports Cstr
begin

unbundle bit_operations_syntax

text \<open>
  The HTTP router (\<open>src/protocols/http/http_router.c\<close>): the route table, matching of a path against
  the patterns with capture of \<open>:name\<close> segments, pre-body and post-body middleware, and the dispatch of
  a synthetic request.

  Handlers and middleware are functions of the application, the parameter \<open>'e router_hooks\<close> over an
  environment: a middleware may change the request, the response and the environment. A table is the list
  of its \<open>count\<close> entries, with its capacity beside it; the argument \<open>realloc\<close> says whether the
  reallocation to so many entries succeeds. The functions that call into the application also return the
  functions they called, in order, which no operation reads.
\<close>

section \<open>Data\<close>

record KlHttpParam =
  name :: string
  pvalue :: string

definition KL_HTTP_ROUTER_MAX_PARAMS :: nat where "KL_HTTP_ROUTER_MAX_PARAMS = 16"

definition KL_HTTP_ROUTER_MAX_POST_MIDDLEWARE :: nat where "KL_HTTP_ROUTER_MAX_POST_MIDDLEWARE = 64"

definition KL_ROUTER_INIT_CAP :: int where "KL_ROUTER_INIT_CAP = 16"

definition KL_MW_INIT_CAP :: int where "KL_MW_INIT_CAP = 8"

text \<open>The fields of a request and of a response that the router reads and writes.\<close>

record KlHttpRequest =
  rq_method :: string
  rq_path :: string
  rq_params :: "KlHttpParam list"
  num_params :: nat

record KlHttpResponse =
  status :: int

record KlHttpRoute =
  rt_method :: string
  rt_pattern :: string
  handler :: ptr
  rt_user_data :: ptr
  body_reader :: ptr
  streaming_handler :: bool
  streaming_async :: bool

record KlHttpMiddlewareEntry =
  mw_method :: string
  mw_pattern :: string
  mw_fn :: ptr
  mw_user_data :: ptr

record KlHttpRouter =
  routes :: "KlHttpRoute list"
  capacity :: int
  middleware :: "KlHttpMiddlewareEntry list"
  mw_capacity :: int
  post_middleware :: "KlHttpMiddlewareEntry list"
  post_mw_capacity :: int

record 'e router_hooks =
  call_middleware :: "ptr \<Rightarrow> ptr \<Rightarrow> KlHttpRequest \<Rightarrow> KlHttpResponse \<Rightarrow> 'e \<Rightarrow> int \<times> KlHttpRequest \<times> KlHttpResponse \<times> 'e"
  call_handler :: "ptr \<Rightarrow> ptr \<Rightarrow> KlHttpRequest \<Rightarrow> KlHttpResponse \<Rightarrow> 'e \<Rightarrow> KlHttpRequest \<times> KlHttpResponse \<times> 'e"

section \<open>Registration\<close>

definition kl_http_router_init :: "(int \<Rightarrow> bool) \<Rightarrow> int \<times> KlHttpRouter" where
  "kl_http_router_init malloc =
     ((if malloc KL_ROUTER_INIT_CAP then 0 else -1),
      \<lparr>routes = [], capacity = KL_ROUTER_INIT_CAP, middleware = [], mw_capacity = 0,
       post_middleware = [], post_mw_capacity = 0\<rparr>)"

definition kl_http_router_add ::
  "(int \<Rightarrow> bool) \<Rightarrow> string \<Rightarrow> string \<Rightarrow> ptr \<Rightarrow> ptr \<Rightarrow> ptr \<Rightarrow> KlHttpRouter \<Rightarrow> int \<times> KlHttpRouter" where
  "kl_http_router_add realloc meth pat h ud br r =
     (let route = \<lparr>rt_method = meth, rt_pattern = pat, handler = h, rt_user_data = ud, body_reader = br,
                   streaming_handler = False, streaming_async = False\<rparr>
      in if h = NULL then (-1, r)
         else if int (length (routes r)) \<ge> capacity r then
           if capacity r > INT_MAX div 2 then (-1, r)
           else let new_cap = capacity r * 2 in
             if \<not> realloc new_cap then (-1, r)
             else (0, r\<lparr>capacity := new_cap, routes := routes r @ [route]\<rparr>)
         else (0, r\<lparr>routes := routes r @ [route]\<rparr>))"

definition mark_last :: "(KlHttpRoute \<Rightarrow> KlHttpRoute) \<Rightarrow> KlHttpRouter \<Rightarrow> KlHttpRouter" where
  "mark_last f r =
     (let i = length (routes r) - 1 in r\<lparr>routes := (routes r)[i := f (routes r ! i)]\<rparr>)"

definition kl_http_router_add_streaming ::
  "(int \<Rightarrow> bool) \<Rightarrow> string \<Rightarrow> string \<Rightarrow> ptr \<Rightarrow> ptr \<Rightarrow> ptr \<Rightarrow> KlHttpRouter \<Rightarrow> int \<times> KlHttpRouter" where
  "kl_http_router_add_streaming realloc meth pat h ud br r =
     (if br = NULL then (-1, r)
      else let (rc, r) = kl_http_router_add realloc meth pat h ud br r in
        if rc < 0 then (rc, r)
        else (0, mark_last (\<lambda>x. x\<lparr>streaming_handler := True\<rparr>) r))"

definition kl_http_router_add_streaming_async ::
  "(int \<Rightarrow> bool) \<Rightarrow> string \<Rightarrow> string \<Rightarrow> ptr \<Rightarrow> ptr \<Rightarrow> ptr \<Rightarrow> KlHttpRouter \<Rightarrow> int \<times> KlHttpRouter" where
  "kl_http_router_add_streaming_async realloc meth pat h ud br r =
     (if br = NULL then (-1, r)
      else let (rc, r) = kl_http_router_add realloc meth pat h ud br r in
        if rc < 0 then (rc, r)
        else (0, mark_last (\<lambda>x. x\<lparr>streaming_handler := True, streaming_async := True\<rparr>) r))"

section \<open>Matching a path\<close>

definition not_slash :: "char \<Rightarrow> bool" where "not_slash c \<longleftrightarrow> c \<noteq> CHR ''/''"

definition skip_slash :: "string \<Rightarrow> string" where
  "skip_slash s = (if s \<noteq> [] \<and> hd s = CHR ''/'' then tl s else s)"

lemma length_skip_slash: "length (skip_slash s) \<le> length s"
  by (simp add: skip_slash_def)

lemma segment_shorter: "s \<noteq> [] \<Longrightarrow> length (skip_slash (dropWhile not_slash s)) < length s"
proof (cases s)
  case (Cons c t)
  have "length (dropWhile not_slash t) \<le> length t" by (rule length_dropWhile_le)
  then show ?thesis
    using length_skip_slash [of "dropWhile not_slash t"] Cons by (auto simp: not_slash_def skip_slash_def)
qed simp

text \<open>The loop of \<open>match_path\<close>; \<open>pp\<close> and \<open>rp\<close> are what is left of the pattern and of the path.\<close>

function match_segments ::
  "string \<Rightarrow> string \<Rightarrow> KlHttpParam list \<Rightarrow> nat \<Rightarrow> bool \<times> KlHttpParam list \<times> nat" where
  "match_segments pp rp params np =
     (if pp \<noteq> [] \<and> rp \<noteq> [] then
        let ps = takeWhile not_slash pp;
            rs = takeWhile not_slash rp;
            pp' = skip_slash (dropWhile not_slash pp);
            rp' = skip_slash (dropWhile not_slash rp)
        in if ps \<noteq> [] \<and> hd pp = CHR '':'' then
             if np < KL_HTTP_ROUTER_MAX_PARAMS then
               match_segments pp' rp' (params[np := \<lparr>name = tl ps, pvalue = rs\<rparr>]) (np + 1)
             else match_segments pp' rp' params np
           else if ps \<noteq> rs then (False, params, np)
           else match_segments pp' rp' params np
      else (pp = [] \<and> rp = [], params, np))"
  by pat_completeness auto
termination
  by (relation "measure (\<lambda>(pp, rp, params, np). length pp)") (auto simp: segment_shorter)

declare match_segments.simps [simp del]

definition match_path :: "string \<Rightarrow> string \<Rightarrow> KlHttpParam list \<Rightarrow> bool \<times> KlHttpParam list \<times> nat" where
  "match_path pattern path params = match_segments (skip_slash pattern) (skip_slash path) params 0"

section \<open>Middleware\<close>

definition is_HEAD :: "string \<Rightarrow> bool" where "is_HEAD m \<longleftrightarrow> m = ''HEAD''"

text \<open>\<open>scratch\<close> is the uninitialised array the function hands to \<open>match_path\<close>.\<close>

definition match_middleware_pattern :: "KlHttpParam list \<Rightarrow> string \<Rightarrow> string \<Rightarrow> string \<Rightarrow> string \<Rightarrow> bool" where
  "match_middleware_pattern scratch meth mw_meth pattern path =
     (let ok = (peek mw_meth = CHR ''*'' \<or> mw_meth = meth \<or> is_HEAD meth \<and> mw_meth = ''GET'');
          n = length pattern
      in if \<not> ok then False
         else if n \<ge> 2 \<and> pattern ! (n - 2) = CHR ''/'' \<and> pattern ! (n - 1) = CHR ''*'' then
           let prefix_len = n - 2 in
           if prefix_len = 0 then True
           else if length path < prefix_len then False
           else if take prefix_len pattern \<noteq> take prefix_len path then False
           else length path = prefix_len \<or> path ! prefix_len = CHR ''/''
         else fst (match_path pattern path scratch))"

definition use_cap :: "int \<Rightarrow> int option" where
  "use_cap cap =
     (if cap = 0 then Some KL_MW_INIT_CAP else if cap > INT_MAX div 2 then None else Some (cap * 2))"

definition kl_http_router_use :: "(int \<Rightarrow> bool) \<Rightarrow> string \<Rightarrow> string \<Rightarrow> ptr \<Rightarrow> ptr \<Rightarrow> KlHttpRouter \<Rightarrow> int \<times> KlHttpRouter" where
  "kl_http_router_use realloc meth pat fn ud r =
     (let e = \<lparr>mw_method = meth, mw_pattern = pat, mw_fn = fn, mw_user_data = ud\<rparr>
      in if fn = NULL then (-1, r)
         else if int (length (middleware r)) \<ge> mw_capacity r then
           case use_cap (mw_capacity r) of
             None \<Rightarrow> (-1, r)
           | Some new_cap \<Rightarrow>
               if \<not> realloc new_cap then (-1, r)
               else (0, r\<lparr>mw_capacity := new_cap, middleware := middleware r @ [e]\<rparr>)
         else (0, r\<lparr>middleware := middleware r @ [e]\<rparr>))"

definition kl_http_router_use_post :: "(int \<Rightarrow> bool) \<Rightarrow> string \<Rightarrow> string \<Rightarrow> ptr \<Rightarrow> ptr \<Rightarrow> KlHttpRouter \<Rightarrow> int \<times> KlHttpRouter" where
  "kl_http_router_use_post realloc meth pat fn ud r =
     (let e = \<lparr>mw_method = meth, mw_pattern = pat, mw_fn = fn, mw_user_data = ud\<rparr>
      in if fn = NULL then (-1, r)
         else if length (post_middleware r) \<ge> KL_HTTP_ROUTER_MAX_POST_MIDDLEWARE then (-1, r)
         else if int (length (post_middleware r)) \<ge> post_mw_capacity r then
           case use_cap (post_mw_capacity r) of
             None \<Rightarrow> (-1, r)
           | Some new_cap \<Rightarrow>
               if \<not> realloc new_cap then (-1, r)
               else (0, r\<lparr>post_mw_capacity := new_cap, post_middleware := post_middleware r @ [e]\<rparr>)
         else (0, r\<lparr>post_middleware := post_middleware r @ [e]\<rparr>))"

definition mw_matches :: "KlHttpParam list \<Rightarrow> KlHttpRequest \<Rightarrow> KlHttpMiddlewareEntry \<Rightarrow> bool" where
  "mw_matches scratch req mw = match_middleware_pattern scratch (rq_method req) (mw_method mw) (mw_pattern mw) (rq_path req)"

datatype app_call = Middleware_called ptr ptr | Handler_called ptr ptr

type_synonym 'e mw_result = "int \<times> app_call list \<times> KlHttpRequest \<times> KlHttpResponse \<times> 'e"

fun run_middleware_loop ::
  "'e router_hooks \<Rightarrow> KlHttpParam list \<Rightarrow> KlHttpMiddlewareEntry list \<Rightarrow> KlHttpRequest \<Rightarrow> KlHttpResponse \<Rightarrow> 'e \<Rightarrow> 'e mw_result"
where
  "run_middleware_loop H scratch [] req res e = (0, [], req, res, e)"
| "run_middleware_loop H scratch (mw # mws) req res e =
     (if mw_matches scratch req mw then
        let (rc, req, res, e) = call_middleware H (mw_fn mw) (mw_user_data mw) req res e in
        if rc \<noteq> 0 then (rc, [Middleware_called (mw_fn mw) (mw_user_data mw)], req, res, e)
        else let (rc, called, req, res, e) = run_middleware_loop H scratch mws req res e
             in (rc, Middleware_called (mw_fn mw) (mw_user_data mw) # called, req, res, e)
      else run_middleware_loop H scratch mws req res e)"

definition kl_http_router_run_middleware ::
  "'e router_hooks \<Rightarrow> KlHttpParam list \<Rightarrow> KlHttpRouter \<Rightarrow> KlHttpRequest \<Rightarrow> KlHttpResponse \<Rightarrow> 'e \<Rightarrow> 'e mw_result" where
  "kl_http_router_run_middleware H scratch r = run_middleware_loop H scratch (middleware r)"

fun post_match_loop :: "KlHttpParam list \<Rightarrow> KlHttpRequest \<Rightarrow> KlHttpMiddlewareEntry list \<Rightarrow> nat \<Rightarrow> u64 \<Rightarrow> u64" where
  "post_match_loop scratch req [] i matched = matched"
| "post_match_loop scratch req (mw # mws) i matched =
     post_match_loop scratch req mws (i + 1)
       (if mw_matches scratch req mw then matched OR push_bit i 1 else matched)"

definition kl_http_router_post_match :: "KlHttpParam list \<Rightarrow> KlHttpRouter \<Rightarrow> KlHttpRequest \<Rightarrow> u64" where
  "kl_http_router_post_match scratch r req = post_match_loop scratch req (post_middleware r) 0 0"

fun run_post_loop ::
  "'e router_hooks \<Rightarrow> u64 \<Rightarrow> nat \<Rightarrow> KlHttpMiddlewareEntry list \<Rightarrow> KlHttpRequest \<Rightarrow> KlHttpResponse \<Rightarrow> 'e \<Rightarrow> 'e mw_result"
where
  "run_post_loop H matched i [] req res e = (0, [], req, res, e)"
| "run_post_loop H matched i (mw # mws) req res e =
     (if matched AND push_bit i 1 = 0 then run_post_loop H matched (i + 1) mws req res e
      else let (rc, req, res, e) = call_middleware H (mw_fn mw) (mw_user_data mw) req res e in
        if rc \<noteq> 0 then (rc, [Middleware_called (mw_fn mw) (mw_user_data mw)], req, res, e)
        else let (rc, called, req, res, e) = run_post_loop H matched (i + 1) mws req res e
             in (rc, Middleware_called (mw_fn mw) (mw_user_data mw) # called, req, res, e))"

definition kl_http_router_run_post_matched ::
  "'e router_hooks \<Rightarrow> u64 \<Rightarrow> KlHttpRouter \<Rightarrow> KlHttpRequest \<Rightarrow> KlHttpResponse \<Rightarrow> 'e \<Rightarrow> 'e mw_result" where
  "kl_http_router_run_post_matched H matched r = run_post_loop H matched 0 (post_middleware r)"

definition kl_http_router_run_post_middleware ::
  "'e router_hooks \<Rightarrow> KlHttpParam list \<Rightarrow> KlHttpRouter \<Rightarrow> KlHttpRequest \<Rightarrow> KlHttpResponse \<Rightarrow> 'e \<Rightarrow> 'e mw_result" where
  "kl_http_router_run_post_middleware H scratch r req res e =
     kl_http_router_run_post_matched H (kl_http_router_post_match scratch r req) r req res e"

section \<open>Route matching and dispatch\<close>

definition method_served :: "string \<Rightarrow> KlHttpRoute \<Rightarrow> bool" where
  "method_served meth route \<longleftrightarrow>
     (peek (rt_method route) = CHR ''*'' \<or> rt_method route = meth) \<or>
     is_HEAD meth \<and> rt_method route = ''GET''"

fun router_match_loop ::
  "KlHttpRoute list \<Rightarrow> string \<Rightarrow> string \<Rightarrow> KlHttpParam list \<Rightarrow> bool \<Rightarrow>
   int \<times> KlHttpRoute option \<times> KlHttpParam list \<times> nat"
where
  "router_match_loop [] meth path params path_matched =
     ((if path_matched then 405 else 404), None, params, 0)"
| "router_match_loop (route # rts) meth path params path_matched =
     (let (ok, params, np) = match_path (rt_pattern route) path params in
      if \<not> ok then router_match_loop rts meth path params path_matched
      else if method_served meth route then (200, Some route, params, np)
      else router_match_loop rts meth path params True)"

definition kl_http_router_match ::
  "KlHttpRouter \<Rightarrow> string \<Rightarrow> string \<Rightarrow> KlHttpParam list \<Rightarrow> int \<times> KlHttpRoute option \<times> KlHttpParam list \<times> nat" where
  "kl_http_router_match r meth path params = router_match_loop (routes r) meth path params False"

definition kl_http_response_status :: "int \<Rightarrow> KlHttpResponse \<Rightarrow> KlHttpResponse" where
  "kl_http_response_status code res = res\<lparr>status := code\<rparr>"

text \<open>Pre-body, then post-body middleware; the second is reached only when every one of the first continued.\<close>

definition synthetic_middleware ::
  "'e router_hooks \<Rightarrow> KlHttpParam list \<Rightarrow> KlHttpRouter \<Rightarrow> KlHttpRequest \<Rightarrow> KlHttpResponse \<Rightarrow> 'e \<Rightarrow> 'e mw_result" where
  "synthetic_middleware H scratch r req res e =
     (let (rc, called, req, res, e) = kl_http_router_run_middleware H scratch r req res e in
      if rc \<noteq> 0 then (rc, called, req, res, e)
      else let (rc, called', req, res, e) = kl_http_router_run_post_middleware H scratch r req res e
           in (rc, called @ called', req, res, e))"

definition kl_http_router_dispatch_synthetic ::
  "'e router_hooks \<Rightarrow> KlHttpParam list \<Rightarrow> KlHttpRouter \<Rightarrow> bool \<Rightarrow> KlHttpRequest \<Rightarrow> KlHttpResponse \<Rightarrow> 'e \<Rightarrow> 'e mw_result" where
  "kl_http_router_dispatch_synthetic H scratch r run_middleware req res e =
     (let (match_status, matched, params, np) = kl_http_router_match r (rq_method req) (rq_path req) (rq_params req);
          req = req\<lparr>rq_params := params, num_params := min np KL_HTTP_ROUTER_MAX_PARAMS\<rparr>
      in if \<not> run_middleware \<and> (match_status \<noteq> 200 \<or> matched = None) then (match_status, [], req, res, e)
         else let (mw_rc, called, req, res, e) =
                    (if run_middleware then synthetic_middleware H scratch r req res e else (0, [], req, res, e))
           in if mw_rc \<noteq> 0 then (mw_rc, called, req, res, e)
              else case matched of
                Some route \<Rightarrow>
                  if match_status = 200 then
                    let (req, res, e) = call_handler H (handler route) (rt_user_data route) req res e
                    in (200, called @ [Handler_called (handler route) (rt_user_data route)], req, res, e)
                  else (match_status, called, req, kl_http_response_status match_status res, e)
              | None \<Rightarrow> (match_status, called, req, kl_http_response_status match_status res, e))"

text \<open>
  Freeing the tables: the blocks given back, by their capacity in entries, in order. What is left of the
  router denotes no entries.
\<close>

definition kl_http_router_free :: "KlHttpRouter \<Rightarrow> int list \<times> KlHttpRouter" where
  "kl_http_router_free r =
     ([capacity r] @ (if mw_capacity r > 0 then [mw_capacity r] else []) @
        (if post_mw_capacity r > 0 then [post_mw_capacity r] else []),
      r\<lparr>routes := [], middleware := [], post_middleware := []\<rparr>)"

section \<open>Paths as lists of segments\<close>

text \<open>
  The specification of matching: a path is cut at every slash, one leading slash and one trailing slash
  being dropped, and matches a pattern segment by segment; a segment that begins with a colon matches any.
\<close>

fun split_slash :: "string \<Rightarrow> string list" where
  "split_slash [] = [[]]"
| "split_slash (c # s) =
     (if c = CHR ''/'' then [] # split_slash s
      else case split_slash s of w # ws \<Rightarrow> (c # w) # ws | [] \<Rightarrow> [[c]])"

definition trim_last :: "string list \<Rightarrow> string list" where
  "trim_last ws = (if ws \<noteq> [] \<and> last ws = [] then butlast ws else ws)"

definition path_segments :: "string \<Rightarrow> string list" where
  "path_segments s = trim_last (split_slash (skip_slash s))"

abbreviation is_param :: "string \<Rightarrow> bool" where "is_param p \<equiv> p \<noteq> [] \<and> hd p = CHR '':''"

definition segment_matches :: "string \<Rightarrow> string \<Rightarrow> bool" where
  "segment_matches p s \<longleftrightarrow> is_param p \<or> p = s"

definition captures :: "string list \<Rightarrow> string list \<Rightarrow> KlHttpParam list" where
  "captures ps rs = map (\<lambda>(p, s). \<lparr>name = tl p, pvalue = s\<rparr>) (filter (\<lambda>(p, s). is_param p) (zip ps rs))"

definition path_matches :: "string \<Rightarrow> string \<Rightarrow> bool" where
  "path_matches pattern path \<longleftrightarrow> list_all2 segment_matches (path_segments pattern) (path_segments path)"

lemma param_matches: "is_param p \<Longrightarrow> segment_matches p s"
  by (simp add: segment_matches_def)

lemma literal_matches: "\<not> is_param p \<Longrightarrow> segment_matches p s \<longleftrightarrow> p = s"
  by (auto simp: segment_matches_def)

lemma split_slash_ne [simp]: "split_slash s \<noteq> []"
  by (induction s) (auto split: list.splits)

lemma split_slash_step:
  "split_slash s = takeWhile not_slash s #
     (if dropWhile not_slash s = [] then [] else split_slash (tl (dropWhile not_slash s)))"
  by (induction s) (auto simp: not_slash_def)

lemma trim_Cons: "ws \<noteq> [] \<Longrightarrow> trim_last (w # ws) = w # trim_last ws"
  by (simp add: trim_last_def)

lemma trim_split_step:
  assumes "s \<noteq> []"
  shows "trim_last (split_slash s) = takeWhile not_slash s # trim_last (split_slash (skip_slash (dropWhile not_slash s)))"
proof (cases "dropWhile not_slash s")
  case Nil
  then have tw: "takeWhile not_slash s = s" by (metis append_Nil2 takeWhile_dropWhile_id)
  have "split_slash s = [s]" by (subst split_slash_step) (simp only: Nil tw simp_thms if_True)
  moreover have "split_slash (skip_slash (dropWhile not_slash s)) = [[]]" unfolding Nil by (simp add: skip_slash_def)
  ultimately show ?thesis using assms unfolding tw by (simp add: trim_last_def)
next
  case (Cons c t)
  then have "c = CHR ''/''" using hd_dropWhile [of not_slash s] by (simp add: not_slash_def)
  then show ?thesis using Cons by (subst split_slash_step) (simp add: trim_Cons skip_slash_def)
qed

lemma trim_Nil [simp]: "trim_last [[]] = []"
  by (simp add: trim_last_def)

lemma trim_split_eq_Nil [simp]: "trim_last (split_slash s) = [] \<longleftrightarrow> s = []"
  by (cases "s = []") (simp_all add: trim_split_step)

lemma hd_takeWhile_not_slash: "takeWhile not_slash s \<noteq> [] \<Longrightarrow> hd (takeWhile not_slash s) = hd s"
  by (cases s) auto

lemma captures_simps [simp]:
  "captures [] rs = []"
  "captures (p # ps) (s # rs) = (if is_param p then \<lparr>name = tl p, pvalue = s\<rparr> # captures ps rs else captures ps rs)"
  by (simp_all add: captures_def)

lemma match_segments_spec:
  assumes "length params = KL_HTTP_ROUTER_MAX_PARAMS" and "np \<le> KL_HTTP_ROUTER_MAX_PARAMS"
    and "match_segments pp rp params np = (ok, params', np')"
  shows "(ok \<longleftrightarrow> list_all2 segment_matches (trim_last (split_slash pp)) (trim_last (split_slash rp))) \<and>
    length params' = KL_HTTP_ROUTER_MAX_PARAMS \<and> np \<le> np' \<and> np' \<le> KL_HTTP_ROUTER_MAX_PARAMS \<and>
    take np params' = take np params \<and>
    (ok \<longrightarrow> take np' params' = take np params @
        take (KL_HTTP_ROUTER_MAX_PARAMS - np) (captures (trim_last (split_slash pp)) (trim_last (split_slash rp))))"
  using assms
proof (induction pp rp params np rule: match_segments.induct)
  case (1 pp rp params np)
  show ?case
  proof (cases "pp \<noteq> [] \<and> rp \<noteq> []")
    case False
    then have "ok = (pp = [] \<and> rp = [])" "params' = params" "np' = np"
      using "1.prems"(3) by (auto simp: match_segments.simps [of pp rp])
    then show ?thesis using False "1.prems" by auto
  next
    case True
    define ps rs where "ps = takeWhile not_slash pp" and "rs = takeWhile not_slash rp"
    define pq rq where "pq = skip_slash (dropWhile not_slash pp)" and "rq = skip_slash (dropWhile not_slash rp)"
    have seg: "trim_last (split_slash pp) = ps # trim_last (split_slash pq)"
      "trim_last (split_slash rp) = rs # trim_last (split_slash rq)"
      using True by (simp_all add: trim_split_step ps_def rs_def pq_def rq_def)
    have colon: "(ps \<noteq> [] \<and> hd pp = CHR '':'') = is_param ps"
      using hd_takeWhile_not_slash [of pp] by (auto simp: ps_def)
    note IH = "1.IH" [OF True refl refl refl refl, folded ps_def rs_def pq_def rq_def]
    have eq: "match_segments pp rp params np =
       (if is_param ps then
          if np < KL_HTTP_ROUTER_MAX_PARAMS then match_segments pq rq (params[np := \<lparr>name = tl ps, pvalue = rs\<rparr>]) (np + 1)
          else match_segments pq rq params np
        else if ps \<noteq> rs then (False, params, np) else match_segments pq rq params np)"
      using True colon by (subst match_segments.simps) (simp add: Let_def ps_def rs_def pq_def rq_def)
    consider (room) "is_param ps" "np < KL_HTTP_ROUTER_MAX_PARAMS" | (full) "is_param ps" "np = KL_HTTP_ROUTER_MAX_PARAMS"
      | (differ) "\<not> is_param ps" "ps \<noteq> rs" | (same) "\<not> is_param ps" "ps = rs"
      using "1.prems"(2) by fastforce
    then show ?thesis
    proof cases
      case room
      with eq "1.prems"(3) have m: "match_segments pq rq (params[np := \<lparr>name = tl ps, pvalue = rs\<rparr>]) (np + 1) = (ok, params', np')"
        by simp
      have "ps \<noteq> [] \<and> hd pp = CHR '':''" using room(1) colon by simp
      from IH(1) [OF this room(2) _ _ m] "1.prems"(1) room(2)
      have ih: "(ok \<longleftrightarrow> list_all2 segment_matches (trim_last (split_slash pq)) (trim_last (split_slash rq))) \<and>
        length params' = KL_HTTP_ROUTER_MAX_PARAMS \<and> np + 1 \<le> np' \<and> np' \<le> KL_HTTP_ROUTER_MAX_PARAMS \<and>
        take (np + 1) params' = take (np + 1) (params[np := \<lparr>name = tl ps, pvalue = rs\<rparr>]) \<and>
        (ok \<longrightarrow> take np' params' = take (np + 1) (params[np := \<lparr>name = tl ps, pvalue = rs\<rparr>]) @
          take (KL_HTTP_ROUTER_MAX_PARAMS - (np + 1)) (captures (trim_last (split_slash pq)) (trim_last (split_slash rq))))"
        by simp
      have t: "take (np + 1) (params[np := \<lparr>name = tl ps, pvalue = rs\<rparr>]) = take np params @ [\<lparr>name = tl ps, pvalue = rs\<rparr>]"
        using room(2) "1.prems"(1) by (simp add: take_Suc_conv_app_nth)
      have t': "take np params' = take np params"
      proof -
        have "take np (take (np + 1) params') = take np (take np params @ [\<lparr>name = tl ps, pvalue = rs\<rparr>])"
          using ih t by simp
        then show ?thesis using "1.prems"(1) room(2) by (simp add: min_def)
      qed
      have k: "KL_HTTP_ROUTER_MAX_PARAMS - np = Suc (KL_HTTP_ROUTER_MAX_PARAMS - (np + 1))" using room(2) by simp
      show ?thesis
        using ih t t' room(1) param_matches [OF room(1)] unfolding seg k by simp
    next
      case full
      with eq "1.prems"(3) have m: "match_segments pq rq params np = (ok, params', np')" by simp
      have "ps \<noteq> [] \<and> hd pp = CHR '':''" "\<not> np < KL_HTTP_ROUTER_MAX_PARAMS" using full colon by simp_all
      note ih = IH(2) [OF this "1.prems"(1,2) m]
      then have "np' = np" using full(2) by simp
      then show ?thesis using ih full(2) param_matches [OF full(1)] by (auto simp: seg)
    next
      case differ
      with eq "1.prems" show ?thesis by (simp add: seg literal_matches)
    next
      case same
      have m: "match_segments pq rq params np = (ok, params', np')"
        using eq "1.prems"(3) unfolding if_not_P [OF same(1)] by (simp add: same(2))
      have "\<not> (ps \<noteq> [] \<and> hd pp = CHR '':'')" "\<not> ps \<noteq> rs" using same colon by simp_all
      from IH(3) [OF this "1.prems"(1,2) m] show ?thesis
        using same by (auto simp: seg literal_matches)
    qed
  qed
qed

text \<open>A matching is decided by the segments, whatever the array held before.\<close>

lemma match_path_fst:
  assumes "length params = KL_HTTP_ROUTER_MAX_PARAMS"
  shows "fst (match_path pattern path params) = path_matches pattern path"
  using match_segments_spec [OF assms, of 0] by (cases "match_path pattern path params")
    (fastforce simp: match_path_def path_matches_def path_segments_def)

lemma match_path_length:
  assumes "length params = KL_HTTP_ROUTER_MAX_PARAMS"
  shows "length (fst (snd (match_path pattern path params))) = KL_HTTP_ROUTER_MAX_PARAMS"
  using match_segments_spec [OF assms, of 0] by (cases "match_path pattern path params")
    (fastforce simp: match_path_def path_matches_def path_segments_def)

definition path_captures :: "string \<Rightarrow> string \<Rightarrow> KlHttpParam list" where
  "path_captures pattern path = take KL_HTTP_ROUTER_MAX_PARAMS (captures (path_segments pattern) (path_segments path))"

lemma match_path_captures:
  assumes "length params = KL_HTTP_ROUTER_MAX_PARAMS" and "match_path pattern path params = (True, params', np)"
  shows "take np params' = path_captures pattern path \<and> np = length (path_captures pattern path)"
proof -
  have m: "match_segments (skip_slash pattern) (skip_slash path) params 0 = (True, params', np)"
    using assms(2) by (simp add: match_path_def)
  from match_segments_spec [OF assms(1) _ m]
  have "take np params' = path_captures pattern path" and "np \<le> KL_HTTP_ROUTER_MAX_PARAMS"
    and "length params' = KL_HTTP_ROUTER_MAX_PARAMS"
    by (simp_all add: path_captures_def path_segments_def)
  then show ?thesis by (metis length_take min.absorb2)
qed

text \<open>
  C15. A route pattern matches a path exactly when their segments match one by one, a segment \<open>:name\<close> of
  the pattern matching any segment. A match leaves the captured names and values, in order, in the first
  \<open>num_params\<close> entries of the array, at most 16 of them; no entry outside the array is written.
\<close>

theorem match_path_spec:
  assumes "length params = KL_HTTP_ROUTER_MAX_PARAMS" and "match_path pattern path params = (ok, params', np)"
  shows "ok = list_all2 segment_matches (path_segments pattern) (path_segments path) \<and>
    length params' = KL_HTTP_ROUTER_MAX_PARAMS \<and>
    (ok \<longrightarrow> take np params' =
       take KL_HTTP_ROUTER_MAX_PARAMS (captures (path_segments pattern) (path_segments path)) \<and>
       np = min KL_HTTP_ROUTER_MAX_PARAMS (length (captures (path_segments pattern) (path_segments path))))"
proof (intro conjI impI)
  show "ok = list_all2 segment_matches (path_segments pattern) (path_segments path)"
    using match_path_fst [OF assms(1), of pattern path] assms(2) by (simp add: path_matches_def)
  show "length params' = KL_HTTP_ROUTER_MAX_PARAMS"
    using match_path_length [OF assms(1), of pattern path] assms(2) by simp
  assume ok
  then show "take np params' = take KL_HTTP_ROUTER_MAX_PARAMS (captures (path_segments pattern) (path_segments path))"
    and "np = min KL_HTTP_ROUTER_MAX_PARAMS (length (captures (path_segments pattern) (path_segments path)))"
    using match_path_captures [OF assms(1), of pattern path params' np] assms(2) by (auto simp: path_captures_def min.commute)
qed

definition no_params :: "KlHttpParam list" where
  "no_params = replicate KL_HTTP_ROUTER_MAX_PARAMS \<lparr>name = [], pvalue = []\<rparr>"

theorem match_path_spec_witness:
  "take 1 (fst (snd (match_path ''/users/:id'' ''/users/42/'' no_params))) = [\<lparr>name = ''id'', pvalue = ''42''\<rparr>] \<and>
   fst (match_path ''/users/:id'' ''/users/42/'' no_params)"
proof -
  obtain ok params' np where m: "match_path ''/users/:id'' ''/users/42/'' no_params = (ok, params', np)"
    by (cases "match_path ''/users/:id'' ''/users/42/'' no_params") auto
  have c: "captures (path_segments ''/users/:id'') (path_segments ''/users/42/'') = [\<lparr>name = ''id'', pvalue = ''42''\<rparr>]"
    "list_all2 segment_matches (path_segments ''/users/:id'') (path_segments ''/users/42/'')"
    by code_simp+
  have "length no_params = KL_HTTP_ROUTER_MAX_PARAMS" by (simp add: no_params_def)
  from match_path_spec [OF this m] c show ?thesis
    unfolding m by (auto simp: KL_HTTP_ROUTER_MAX_PARAMS_def)
qed

section \<open>The first route that serves the request\<close>

lemma router_match_loop_spec:
  assumes "length params = KL_HTTP_ROUTER_MAX_PARAMS"
    and "router_match_loop rts meth path params pm = (st, matched, params', np)"
  shows "length params' = KL_HTTP_ROUTER_MAX_PARAMS \<and>
    matched = find (\<lambda>rt. path_matches (rt_pattern rt) path \<and> method_served meth rt) rts \<and>
    (case matched of
       Some rt \<Rightarrow> st = 200 \<and> take np params' = path_captures (rt_pattern rt) path \<and>
         np = length (path_captures (rt_pattern rt) path)
     | None \<Rightarrow> np = 0 \<and> st = (if pm \<or> (\<exists>rt \<in> set rts. path_matches (rt_pattern rt) path) then 405 else 404))"
  using assms
proof (induction rts arbitrary: params pm)
  case Nil
  then show ?case by auto
next
  case (Cons rt rts)
  obtain ok params1 np1 where m: "match_path (rt_pattern rt) path params = (ok, params1, np1)"
    by (cases "match_path (rt_pattern rt) path params") auto
  have l1: "length params1 = KL_HTTP_ROUTER_MAX_PARAMS" and ok: "ok = path_matches (rt_pattern rt) path"
    using match_path_length [OF Cons.prems(1), of "rt_pattern rt" path] match_path_fst [OF Cons.prems(1), of "rt_pattern rt" path] m
    by simp_all
  show ?case
  proof (cases "ok \<and> method_served meth rt")
    case True
    with m have "match_path (rt_pattern rt) path params = (True, params1, np1)" by simp
    from match_path_captures [OF Cons.prems(1) this] show ?thesis
      using Cons.prems(2) m True ok l1 by auto
  next
    case False
    then have "router_match_loop rts meth path params1 (pm \<or> ok) = (st, matched, params', np)"
      using Cons.prems(2) m by (auto split: if_splits)
    from Cons.IH [OF l1 this] show ?thesis using False ok by (auto split: option.splits)
  qed
qed

text \<open>
  C33. Routing returns 200 with the first registered route whose pattern matches the path and whose method
  serves the request's (a \<open>GET\<close> route serves \<open>HEAD\<close>), and that route's captures; otherwise 405 when some
  pattern matches the path and 404 when none does, with no captures.
\<close>

theorem kl_http_router_match_spec:
  assumes "length params = KL_HTTP_ROUTER_MAX_PARAMS"
    and "kl_http_router_match r meth path params = (st, matched, params', np)"
  shows "matched = find (\<lambda>rt. path_matches (rt_pattern rt) path \<and> method_served meth rt) (routes r) \<and>
    (case matched of
       Some rt \<Rightarrow> st = 200 \<and> take np params' = path_captures (rt_pattern rt) path
     | None \<Rightarrow> np = 0 \<and> st = (if \<exists>rt \<in> set (routes r). path_matches (rt_pattern rt) path then 405 else 404))"
  using router_match_loop_spec [OF assms(1), of "routes r" meth path False st matched params' np] assms(2)
  by (auto simp: kl_http_router_match_def split: option.splits)

definition demo_router :: KlHttpRouter where
  "demo_router =
     snd (kl_http_router_add (\<lambda>n. True) ''GET'' ''/a/:x'' 7 0 0
       (snd (kl_http_router_add (\<lambda>n. True) ''POST'' ''/a/b'' 5 0 0 (snd (kl_http_router_init (\<lambda>n. True))))))"

theorem kl_http_router_match_spec_witness:
  "fst (kl_http_router_match demo_router ''HEAD'' ''/a/b'' no_params) = 200 \<and>
   map_option handler (fst (snd (kl_http_router_match demo_router ''HEAD'' ''/a/b'' no_params))) = Some 7"
proof -
  obtain st matched params' np where m: "kl_http_router_match demo_router ''HEAD'' ''/a/b'' no_params = (st, matched, params', np)"
    by (cases "kl_http_router_match demo_router ''HEAD'' ''/a/b'' no_params") auto
  have f: "map_option handler (find (\<lambda>rt. path_matches (rt_pattern rt) ''/a/b'' \<and> method_served ''HEAD'' rt) (routes demo_router)) = Some 7"
    by code_simp
  have "length no_params = KL_HTTP_ROUTER_MAX_PARAMS" by (simp add: no_params_def)
  from kl_http_router_match_spec [OF this m] f show ?thesis by (auto simp: m)
qed

section \<open>The tables stay well formed\<close>

datatype router_command = Add string string ptr ptr ptr | Add_streaming string string ptr ptr ptr
  | Add_streaming_async string string ptr ptr ptr | Use string string ptr ptr | Use_post string string ptr ptr

fun register :: "(int \<Rightarrow> bool) \<Rightarrow> router_command \<Rightarrow> KlHttpRouter \<Rightarrow> KlHttpRouter" where
  "register realloc (Add m p h ud br) r = snd (kl_http_router_add realloc m p h ud br r)"
| "register realloc (Add_streaming m p h ud br) r = snd (kl_http_router_add_streaming realloc m p h ud br r)"
| "register realloc (Add_streaming_async m p h ud br) r = snd (kl_http_router_add_streaming_async realloc m p h ud br r)"
| "register realloc (Use m p fn ud) r = snd (kl_http_router_use realloc m p fn ud r)"
| "register realloc (Use_post m p fn ud) r = snd (kl_http_router_use_post realloc m p fn ud r)"

definition route_ok :: "KlHttpRoute \<Rightarrow> bool" where
  "route_ok rt \<longleftrightarrow> handler rt \<noteq> NULL \<and> (streaming_async rt \<longrightarrow> streaming_handler rt) \<and>
     (streaming_handler rt \<longrightarrow> body_reader rt \<noteq> NULL)"

definition router_ok :: "KlHttpRouter \<Rightarrow> bool" where
  "router_ok r \<longleftrightarrow> 0 < capacity r \<and> int (length (routes r)) \<le> capacity r \<and> capacity r \<le> INT_MAX \<and>
     0 \<le> mw_capacity r \<and> int (length (middleware r)) \<le> mw_capacity r \<and> mw_capacity r \<le> INT_MAX \<and>
     0 \<le> post_mw_capacity r \<and> int (length (post_middleware r)) \<le> post_mw_capacity r \<and> post_mw_capacity r \<le> INT_MAX \<and>
     length (post_middleware r) \<le> KL_HTTP_ROUTER_MAX_POST_MIDDLEWARE \<and>
     list_all route_ok (routes r) \<and>
     list_all (\<lambda>m. mw_fn m \<noteq> NULL) (middleware r) \<and> list_all (\<lambda>m. mw_fn m \<noteq> NULL) (post_middleware r)"

lemma router_init_ok: "router_ok (snd (kl_http_router_init malloc))"
  by (simp add: kl_http_router_init_def router_ok_def KL_ROUTER_INIT_CAP_def INT_MAX_def)

lemma router_add_ok:
  assumes "router_ok r"
  shows "router_ok (snd (kl_http_router_add realloc m p h ud br r))"
  using assms by (auto simp: kl_http_router_add_def router_ok_def route_ok_def INT_MAX_def Let_def)

lemma router_use_ok:
  assumes "router_ok r"
  shows "router_ok (snd (kl_http_router_use realloc m p fn ud r))"
  using assms by (auto simp: kl_http_router_use_def use_cap_def router_ok_def INT_MAX_def KL_MW_INIT_CAP_def Let_def split: option.splits if_splits)

lemma router_use_post_ok:
  assumes "router_ok r"
  shows "router_ok (snd (kl_http_router_use_post realloc m p fn ud r))"
  using assms by (auto simp: kl_http_router_use_post_def use_cap_def router_ok_def INT_MAX_def KL_MW_INIT_CAP_def Let_def split: option.splits if_splits)

lemma mark_last_ok:
  assumes "router_ok r" and "routes r = rts @ [rt]" and "route_ok (f rt)"
  shows "router_ok (mark_last f r)"
  using assms by (simp add: mark_last_def router_ok_def Let_def)

lemma router_add_last:
  assumes "kl_http_router_add realloc m p h ud br r = (rc, r')" and "\<not> rc < 0"
  shows "h \<noteq> NULL \<and> routes r' = routes r @ [\<lparr>rt_method = m, rt_pattern = p, handler = h, rt_user_data = ud,
    body_reader = br, streaming_handler = False, streaming_async = False\<rparr>]"
  using assms by (auto simp: kl_http_router_add_def Let_def split: if_splits)

lemma router_add_streaming_ok:
  assumes "router_ok r"
  shows "router_ok (snd (kl_http_router_add_streaming realloc m p h ud br r))"
    and "router_ok (snd (kl_http_router_add_streaming_async realloc m p h ud br r))"
proof -
  obtain rc r' where a: "kl_http_router_add realloc m p h ud br r = (rc, r')" by fastforce
  have ok: "router_ok r'" using router_add_ok [OF assms, of realloc m p h ud br] a by simp
  show "router_ok (snd (kl_http_router_add_streaming realloc m p h ud br r))"
    and "router_ok (snd (kl_http_router_add_streaming_async realloc m p h ud br r))"
    using assms ok router_add_last [OF a]
    by (auto simp: kl_http_router_add_streaming_def kl_http_router_add_streaming_async_def a route_ok_def intro!: mark_last_ok)
qed

lemma register_ok: "router_ok r \<Longrightarrow> router_ok (register realloc c r)"
  by (cases c) (simp_all add: router_add_ok router_use_ok router_use_post_ok router_add_streaming_ok)

lemma registered_ok: "router_ok r \<Longrightarrow> router_ok (fold (\<lambda>(realloc, c). register realloc c) cs r)"
  by (induction cs arbitrary: r) (auto simp: register_ok)


section \<open>Middleware\<close>

text \<open>Running a list of entries in order until one of them stops the request.\<close>

fun middleware_chain ::
  "'e router_hooks \<Rightarrow> KlHttpMiddlewareEntry list \<Rightarrow> KlHttpRequest \<Rightarrow> KlHttpResponse \<Rightarrow> 'e \<Rightarrow> 'e mw_result"
where
  "middleware_chain H [] req res e = (0, [], req, res, e)"
| "middleware_chain H (mw # mws) req res e =
     (let (rc, req, res, e) = call_middleware H (mw_fn mw) (mw_user_data mw) req res e in
      if rc \<noteq> 0 then (rc, [Middleware_called (mw_fn mw) (mw_user_data mw)], req, res, e)
      else let (rc, called, req, res, e) = middleware_chain H mws req res e
           in (rc, Middleware_called (mw_fn mw) (mw_user_data mw) # called, req, res, e))"

lemma bit_post_match_loop:
  assumes "i + length mws \<le> 64" and "j < 64"
  shows "bit (post_match_loop scratch req mws i w) j \<longleftrightarrow>
    bit w j \<or> i \<le> j \<and> j < i + length mws \<and> mw_matches scratch req (mws ! (j - i))"
  using assms
proof (induction mws arbitrary: i w)
  case (Cons mw mws)
  have b: "bit ((2 :: u64) ^ i) j \<longleftrightarrow> j = i" using Cons.prems by (auto simp: bit_simps)
  have n: "i < j \<Longrightarrow> (mw # mws) ! (j - i) = mws ! (j - Suc i)"
    by (metis Suc_diff_Suc nth_Cons_Suc)
  define w' where "w' = (if mw_matches scratch req mw then w OR push_bit i 1 else w)"
  have w': "bit w' j \<longleftrightarrow> bit w j \<or> j = i \<and> mw_matches scratch req mw"
    by (simp add: w'_def bit_or_iff b)
  have ih: "bit (post_match_loop scratch req mws (i + 1) w') j \<longleftrightarrow>
      bit w' j \<or> i + 1 \<le> j \<and> j < i + 1 + length mws \<and> mw_matches scratch req (mws ! (j - (i + 1)))"
    using Cons.prems by (intro Cons.IH) simp_all
  have l: "post_match_loop scratch req (mw # mws) i w = post_match_loop scratch req mws (i + 1) w'"
    by (simp only: post_match_loop.simps w'_def)
  show ?case
  proof (cases "i < j")
    case True
    then show ?thesis unfolding l ih w' using n by auto
  next
    case False
    then show ?thesis unfolding l ih w' by (cases "j = i") auto
  qed
qed auto

lemma and_push_bit_zero: "(w :: u64) AND push_bit i 1 = 0 \<longleftrightarrow> \<not> (i < 64 \<and> bit w i)"
  by (auto simp: bit_eq_iff [where a = "w AND 2 ^ i"] bit_simps)

lemma run_post_loop_chain:
  assumes "i + length mws \<le> 64" and "\<And>j. j < length mws \<Longrightarrow> bit w (i + j) \<longleftrightarrow> P (mws ! j)"
  shows "run_post_loop H w i mws req res e = middleware_chain H (filter P mws) req res e"
  using assms
proof (induction mws arbitrary: i req res e)
  case (Cons mw mws)
  have t: "run_post_loop H w (i + 1) mws req res e = middleware_chain H (filter P mws) req res e" for req res e
    using Cons.IH [of "i + 1"] Cons.prems(1) Cons.prems(2) [of "Suc _"] by simp
  have h: "w AND push_bit i 1 = 0 \<longleftrightarrow> \<not> P mw"
    using Cons.prems(2) [of 0] Cons.prems(1) by (subst and_push_bit_zero) auto
  show ?case by (simp only: run_post_loop.simps h t filter.simps if_not_P split: if_split) simp
qed simp

lemma run_post_middleware_chain:
  assumes "length (post_middleware r) \<le> 64"
  shows "kl_http_router_run_post_middleware H scratch r req res e =
    middleware_chain H (filter (mw_matches scratch req) (post_middleware r)) req res e"
  unfolding kl_http_router_run_post_middleware_def kl_http_router_run_post_matched_def kl_http_router_post_match_def
  by (rule run_post_loop_chain) (use assms in \<open>auto simp: bit_post_match_loop\<close>)

text \<open>
  C34. Post-body middleware recorded in the 64-bit set at header time and run from it later are exactly the
  registered entries whose method and pattern match the request as it was at header time, run in
  registration order up to the first that stops the request, for every router that registration can build.
\<close>

theorem kl_http_router_post_middleware_spec:
  assumes "r = fold (\<lambda>(realloc, c). register realloc c) cs (snd (kl_http_router_init malloc))"
  shows "kl_http_router_run_post_matched H (kl_http_router_post_match scratch r req0) r req res e =
    middleware_chain H (filter (mw_matches scratch req0) (post_middleware r)) req res e"
proof -
  have "length (post_middleware r) \<le> 64"
    using registered_ok [OF router_init_ok, of cs malloc] assms
    by (simp add: router_ok_def KL_HTTP_ROUTER_MAX_POST_MIDDLEWARE_def)
  then show ?thesis
    unfolding kl_http_router_run_post_matched_def kl_http_router_post_match_def
    by (intro run_post_loop_chain) (auto simp: bit_post_match_loop)
qed

definition demo_hooks :: "nat router_hooks" where
  "demo_hooks = \<lparr>call_middleware = (\<lambda>fn ud req res e. (if fn = 9 then 403 else 0, req, res, e + 1)),
     call_handler = (\<lambda>h ud req res e. (req, res, e + 100))\<rparr>"

definition demo_request :: KlHttpRequest where
  "demo_request = \<lparr>rq_method = ''GET'', rq_path = ''/a/b/'', rq_params = no_params, num_params = 0\<rparr>"

definition demo_commands :: "((int \<Rightarrow> bool) \<times> router_command) list" where
  "demo_commands = [((\<lambda>n. True), Use_post ''POST'' ''/*'' 3 0), ((\<lambda>n. True), Use_post ''*'' ''/a/*'' 4 0),
     ((\<lambda>n. True), Use_post ''GET'' ''/a/:x'' 9 0), ((\<lambda>n. True), Use_post ''GET'' ''/a/b'' 5 0)]"

theorem kl_http_router_post_middleware_spec_witness:
  "fst (snd (kl_http_router_run_post_matched demo_hooks
      (kl_http_router_post_match no_params (fold (\<lambda>(realloc, c). register realloc c) demo_commands
        (snd (kl_http_router_init (\<lambda>n. True)))) demo_request)
      (fold (\<lambda>(realloc, c). register realloc c) demo_commands (snd (kl_http_router_init (\<lambda>n. True))))
      demo_request \<lparr>status = 200\<rparr> 0)) = [Middleware_called 4 0, Middleware_called 9 0]"
  unfolding kl_http_router_post_middleware_spec [OF refl] by code_simp

section \<open>A rejecting middleware protects its route\<close>

definition prefix_pattern :: "string \<Rightarrow> bool" where
  "prefix_pattern p \<longleftrightarrow> length p \<ge> 2 \<and> p ! (length p - 2) = CHR ''/'' \<and> p ! (length p - 1) = CHR ''*''"

lemma middleware_covers_route:
  assumes "length scratch = KL_HTTP_ROUTER_MAX_PARAMS" and "\<not> prefix_pattern (mw_pattern g)"
    and "path_matches (mw_pattern g) (rq_path req)" and "method_served (rq_method req) rt"
    and "peek (mw_method g) = CHR ''*'' \<or> mw_method g = rt_method rt"
  shows "mw_matches scratch req g"
  using assms by (auto simp: mw_matches_def match_middleware_pattern_def match_path_fst prefix_pattern_def method_served_def Let_def)

text \<open>What the application must keep: a middleware does not change the request line.\<close>

definition keeps_request_line :: "'e router_hooks \<Rightarrow> bool" where
  "keeps_request_line H \<longleftrightarrow> (\<forall>fn ud req res e.
     rq_method (fst (snd (call_middleware H fn ud req res e))) = rq_method req \<and>
     rq_path (fst (snd (call_middleware H fn ud req res e))) = rq_path req)"

definition rejects :: "'e router_hooks \<Rightarrow> KlHttpMiddlewareEntry \<Rightarrow> bool" where
  "rejects H g \<longleftrightarrow> (\<forall>req res e. fst (call_middleware H (mw_fn g) (mw_user_data g) req res e) \<noteq> 0)"

lemma mw_matches_line:
  "rq_method req' = rq_method req \<Longrightarrow> rq_path req' = rq_path req \<Longrightarrow> mw_matches scratch req' g = mw_matches scratch req g"
  by (simp add: mw_matches_def)

abbreviation no_handler :: "app_call list \<Rightarrow> bool" where
  "no_handler called \<equiv> (\<forall>h ud. Handler_called h ud \<notin> set called)"

lemma run_middleware_loop_line:
  assumes "keeps_request_line H" and "run_middleware_loop H scratch mws req res e = (rc, called, req', res', e')"
  shows "no_handler called \<and> rq_method req' = rq_method req \<and> rq_path req' = rq_path req"
  using assms(2)
proof (induction mws arbitrary: req res e rc called req' res' e')
  case (Cons mw mws)
  obtain rc1 req1 res1 e1 where c: "call_middleware H (mw_fn mw) (mw_user_data mw) req res e = (rc1, req1, res1, e1)"
    by (metis prod.exhaust)
  have k: "rq_method req1 = rq_method req" "rq_path req1 = rq_path req"
    using assms(1) c unfolding keeps_request_line_def by (metis fst_conv snd_conv)+
  obtain rc2 called2 req2 res2 e2 where t: "run_middleware_loop H scratch mws req1 res1 e1 = (rc2, called2, req2, res2, e2)"
    by (metis prod.exhaust)
  from Cons.IH [OF t] Cons.IH Cons.prems k show ?case by (auto simp: c t split: if_splits)
qed simp

lemma run_middleware_loop_rejects:
  assumes "keeps_request_line H" and "rejects H g" and "g \<in> set mws" and "mw_matches scratch req g"
  shows "fst (run_middleware_loop H scratch mws req res e) \<noteq> 0"
  using assms(3,4)
proof (induction mws arbitrary: req res e)
  case (Cons mw mws)
  obtain rc1 req1 res1 e1 where c: "call_middleware H (mw_fn mw) (mw_user_data mw) req res e = (rc1, req1, res1, e1)"
    by (metis prod.exhaust)
  have k: "rq_method req1 = rq_method req" "rq_path req1 = rq_path req"
    using assms(1) c unfolding keeps_request_line_def by (metis fst_conv snd_conv)+
  have g: "mw = g \<Longrightarrow> rc1 \<noteq> 0" using assms(2) c unfolding rejects_def by (metis fst_conv)
  have m: "mw_matches scratch req1 g" using Cons.prems(2) mw_matches_line [OF k] by simp
  show ?case
    using Cons.IH [of req1 res1 e1] Cons.IH [of req res e] Cons.prems g m
    by (auto simp: c split: prod.splits)
qed simp

lemma middleware_chain_no_handler: "no_handler (fst (snd (middleware_chain H mws req res e)))"
  by (induction mws arbitrary: req res e) (auto split: prod.splits if_splits, (metis fst_conv snd_conv)+)

lemma middleware_chain_rejects:
  assumes "rejects H g" and "g \<in> set mws"
  shows "fst (middleware_chain H mws req res e) \<noteq> 0"
  using assms(2)
proof (induction mws arbitrary: req res e)
  case (Cons mw mws)
  obtain rc1 req1 res1 e1 where c: "call_middleware H (mw_fn mw) (mw_user_data mw) req res e = (rc1, req1, res1, e1)"
    by (metis prod.exhaust)
  have g: "mw = g \<Longrightarrow> rc1 \<noteq> 0" using assms(1) c unfolding rejects_def by (metis fst_conv)
  show ?case using Cons.IH [of req1 res1 e1] Cons.prems g by (auto simp: c split: prod.splits)
qed simp

lemma synthetic_middleware_rejects:
  assumes "keeps_request_line H" and "rejects H g" and "g \<in> set (middleware r) \<union> set (post_middleware r)"
    and "mw_matches scratch req g" and "length (post_middleware r) \<le> 64"
    and "synthetic_middleware H scratch r req res e = (rc, called, req', res', e')"
  shows "rc \<noteq> 0 \<and> no_handler called"
proof -
  obtain rc1 called1 req1 res1 e1 where l: "run_middleware_loop H scratch (middleware r) req res e = (rc1, called1, req1, res1, e1)"
    by (metis prod.exhaust)
  note line = run_middleware_loop_line [OF assms(1) l]
  obtain rc2 called2 req2 res2 e2 where p:
    "middleware_chain H (filter (mw_matches scratch req1) (post_middleware r)) req1 res1 e1 = (rc2, called2, req2, res2, e2)"
    by (metis prod.exhaust)
  have n: "no_handler called2" using middleware_chain_no_handler [of H "filter (mw_matches scratch req1) (post_middleware r)" req1 res1 e1] p by simp
  have eq: "synthetic_middleware H scratch r req res e =
      (if rc1 \<noteq> 0 then (rc1, called1, req1, res1, e1) else (rc2, called1 @ called2, req2, res2, e2))"
    by (simp add: synthetic_middleware_def kl_http_router_run_middleware_def l run_post_middleware_chain [OF assms(5)] p)
  have "rc1 \<noteq> 0 \<or> rc2 \<noteq> 0"
  proof (cases "g \<in> set (middleware r)")
    case True
    from run_middleware_loop_rejects [OF assms(1,2) True assms(4), of res e] show ?thesis by (simp add: l)
  next
    case False
    then have "g \<in> set (filter (mw_matches scratch req1) (post_middleware r))"
      using assms(3,4) mw_matches_line [of req1 req] line by simp
    from middleware_chain_rejects [OF assms(2) this, of req1 res1 e1] show ?thesis by (simp add: p)
  qed
  then show ?thesis using eq assms(6) line n by (auto split: if_splits)
qed


definition guarded_router :: KlHttpRouter where
  "guarded_router = fold (\<lambda>(realloc, c). register realloc c)
     [((\<lambda>n. True), Add ''GET'' ''/a/:x'' 7 0 0), ((\<lambda>n. True), Use_post ''*'' ''/a/:x'' 9 0)] (snd (kl_http_router_init (\<lambda>n. True)))"

definition demo_route :: KlHttpRoute where
  "demo_route = \<lparr>rt_method = ''GET'', rt_pattern = ''/a/:x'', handler = 7, rt_user_data = 0, body_reader = 0,
     streaming_handler = False, streaming_async = False\<rparr>"

definition demo_guard :: KlHttpMiddlewareEntry where
  "demo_guard = \<lparr>mw_method = ''*'', mw_pattern = ''/a/:x'', mw_fn = 9, mw_user_data = 0\<rparr>"


end
