(* ===== verification/Body_Reader.thy ===== *)
theory Body_Reader
  imports Cstr
begin

text \<open>
  The body-reader interface of \<open>keel/http_body_reader.h\<close> and the buffer reader that implements it
  (\<open>protocols/http/http_body_reader_buffer.c\<close>).

  The interface is two locales. A \<open>body_reader\<close> either appends what it is fed or reports a failure; a
  \<open>bounded_reader\<close> also refuses by size alone, so that how the bytes are cut into calls does not matter.
  The buffer reader is the first for every allocator, and the second when its allocations succeed.

  The allocator is the argument \<open>ok\<close>: whether an allocation of the given size succeeds. The bytes that
  \<open>data\<close> points at are the list of the \<open>len\<close> bytes written so far; \<open>cap\<close> is the size of the allocation.
  The sum \<open>br->len + len\<close> does not wrap, since both buffers are in memory at once.
\<close>

section \<open>The interface\<close>

locale body_reader =
  fixes on_data :: "'r \<Rightarrow> string \<Rightarrow> int \<times> 'r" and body :: "'r \<Rightarrow> string" and inv :: "'r \<Rightarrow> bool"
  assumes on_data_inv: "inv r \<Longrightarrow> on_data r d = (c, r') \<Longrightarrow> inv r'"
    and on_data_appends: "inv r \<Longrightarrow> on_data r d = (c, r') \<Longrightarrow> 0 \<le> c \<Longrightarrow> body r' = body r @ d"
    and on_data_fails: "inv r \<Longrightarrow> on_data r d = (c, r') \<Longrightarrow> c < 0 \<Longrightarrow> body r' = body r"

locale bounded_reader = body_reader +
  fixes accepts :: "'a \<Rightarrow> nat \<Rightarrow> bool"
  assumes accepts_iff: "inv r \<Longrightarrow> on_data r d = (c, r') \<Longrightarrow> 0 \<le> c \<longleftrightarrow> accepts r (length d)"
    and accepts_0: "inv r \<Longrightarrow> accepts r 0"
    and accepts_mono: "inv r \<Longrightarrow> accepts r n \<Longrightarrow> m \<le> n \<Longrightarrow> accepts r m"
    and accepts_split: "inv r \<Longrightarrow> on_data r d = (c, r') \<Longrightarrow> accepts r (length d) \<Longrightarrow>
       accepts r' n \<longleftrightarrow> accepts r (length d + n)"
begin

text \<open>Feeding in two calls succeeds exactly when feeding at once does, with the same body.\<close>

lemma feed_split:
  assumes "inv r" and "on_data r (d @ e) = (c, s)" and "on_data r d = (c1, r1)" and "on_data r1 e = (c2, r2)"
  shows "0 \<le> c \<longleftrightarrow> 0 \<le> c1 \<and> 0 \<le> c2" and "0 \<le> c \<Longrightarrow> body s = body r2"
proof -
  have i: "inv r1" by (rule on_data_inv [OF assms(1,3)])
  have a3: "0 \<le> c \<longleftrightarrow> accepts r (length d + length e)" using accepts_iff [OF assms(1,2)] by simp
  show *: "0 \<le> c \<longleftrightarrow> 0 \<le> c1 \<and> 0 \<le> c2"
    using a3 accepts_iff [OF assms(1,3)] accepts_iff [OF i assms(4)] accepts_split [OF assms(1,3)]
      accepts_mono [OF assms(1), of "length d + length e" "length d"] by auto
  show "0 \<le> c \<Longrightarrow> body s = body r2"
    using * on_data_appends [OF assms(1,2)] on_data_appends [OF assms(1,3)] on_data_appends [OF i assms(4)] by simp
qed

end

section \<open>The buffer reader\<close>

definition KL_BUF_READER_INIT_CAP :: nat where "KL_BUF_READER_INIT_CAP = 1024"

record KlHttpBufReader =
  br_data :: string
  br_cap :: nat
  br_max_size :: nat

definition buf_new_cap :: "KlHttpBufReader \<Rightarrow> nat \<Rightarrow> nat" where
  "buf_new_cap br need =
     (let c1 = (if br_cap br > SIZE_MAX div 2 then need else br_cap br * 2);
          c2 = (if c1 < need then need else c1)
      in if br_max_size br > 0 \<and> c2 > br_max_size br then br_max_size br else c2)"

definition buf_on_data :: "(nat \<Rightarrow> bool) \<Rightarrow> KlHttpBufReader \<Rightarrow> string \<Rightarrow> int \<times> KlHttpBufReader" where
  "buf_on_data ok br d =
     (let len = length (br_data br)
      in if br_max_size br > 0 \<and> length d > br_max_size br - len then (-1, br)
         else if length d > br_cap br - len then
           (let new_cap = buf_new_cap br (len + length d)
            in if \<not> ok new_cap then (-1, br)
               else (0, br\<lparr>br_cap := new_cap, br_data := br_data br @ d\<rparr>))
         else (0, br\<lparr>br_data := br_data br @ d\<rparr>))"

definition kl_http_body_reader_buffer :: "(nat \<Rightarrow> bool) \<Rightarrow> nat \<Rightarrow> KlHttpBufReader option" where
  "kl_http_body_reader_buffer ok lim =
     (let init_cap = (if lim > 0 \<and> KL_BUF_READER_INIT_CAP > lim then lim else KL_BUF_READER_INIT_CAP)
      in if \<not> ok init_cap then None else Some \<lparr>br_data = [], br_cap = init_cap, br_max_size = lim\<rparr>)"

text \<open>What is written stays inside the allocation, and within the limit.\<close>

definition buf_inv :: "KlHttpBufReader \<Rightarrow> bool" where
  "buf_inv br \<longleftrightarrow> length (br_data br) \<le> br_cap br \<and> (br_max_size br > 0 \<longrightarrow> br_cap br \<le> br_max_size br)"

definition buf_accepts :: "KlHttpBufReader \<Rightarrow> nat \<Rightarrow> bool" where
  "buf_accepts br n \<longleftrightarrow> br_max_size br = 0 \<or> length (br_data br) + n \<le> br_max_size br"

lemma buf_new_cap_bounds:
  assumes "br_max_size br > 0 \<longrightarrow> need \<le> br_max_size br"
  shows "need \<le> buf_new_cap br need \<and> (br_max_size br > 0 \<longrightarrow> buf_new_cap br need \<le> br_max_size br)"
  using assms by (auto simp: buf_new_cap_def Let_def)

lemma buf_on_data_inv:
  assumes "buf_inv br" and "buf_on_data ok br d = (c, br')"
  shows "buf_inv br' \<and> br_max_size br' = br_max_size br"
proof (cases "br_max_size br > 0 \<and> length d > br_max_size br - length (br_data br)")
  case True
  with assms show ?thesis by (simp add: buf_on_data_def Let_def)
next
  case False
  with assms(1) have "br_max_size br > 0 \<longrightarrow> length (br_data br) + length d \<le> br_max_size br" by (auto simp: buf_inv_def)
  from buf_new_cap_bounds [OF this] False assms show ?thesis
    by (auto simp: buf_on_data_def buf_inv_def Let_def split: if_splits)
qed

interpretation br: body_reader "buf_on_data ok" br_data buf_inv for ok
proof
  fix br d c br'
  assume i: "buf_inv br" and e: "buf_on_data ok br d = (c, br')"
  show "buf_inv br'" using buf_on_data_inv [OF i e] by blast
  show "0 \<le> c \<Longrightarrow> br_data br' = br_data br @ d" and "c < 0 \<Longrightarrow> br_data br' = br_data br"
    using e by (auto simp: buf_on_data_def Let_def split: if_splits)
qed

interpretation bbr: bounded_reader "buf_on_data (\<lambda>_. True)" br_data buf_inv buf_accepts
proof
  fix br d c br' and m n :: nat
  assume i: "buf_inv br"
  show "buf_accepts br 0" using i by (auto simp: buf_accepts_def buf_inv_def)
  show "buf_accepts br m" if "buf_accepts br n" "m \<le> n" using that by (auto simp: buf_accepts_def)
  assume e: "buf_on_data (\<lambda>_. True) br d = (c, br')"
  show a: "0 \<le> c \<longleftrightarrow> buf_accepts br (length d)"
    using i e by (auto simp: buf_on_data_def buf_accepts_def buf_inv_def Let_def split: if_splits)
  show "buf_accepts br' n \<longleftrightarrow> buf_accepts br (length d + n)" if "buf_accepts br (length d)"
    using a that buf_on_data_inv [OF i e] br.on_data_appends [OF i e] by (simp add: buf_accepts_def add.assoc)
qed

lemma buffer_init_inv: "kl_http_body_reader_buffer ok lim = Some br \<Longrightarrow> buf_inv br \<and> br_data br = [] \<and> br_max_size br = lim"
  by (auto simp: kl_http_body_reader_buffer_def buf_inv_def Let_def KL_BUF_READER_INIT_CAP_def split: if_splits)

end
