(* ===== verification/Chunked.thy ===== *)
theory Chunked
  imports Body_Reader
begin

text \<open>
  The chunked transfer decoder of \<open>protocols/http/http1_chunked.c\<close>.

  \<open>chunk_iter\<close> is one turn of the loop of \<open>kl_http1_chunked_decode\<close>: it goes on with the rest of the
  input (\<open>Go\<close>) or returns (\<open>Ret\<close>). The states that consume one byte are \<open>chunk_char\<close>; the two that look
  further, the fast path over chunk data and the CRLF after it, are written out. The body reader is an
  argument, \<open>None\<close> for the null pointer.
\<close>

section \<open>The decoder\<close>

definition KL_HTTP1_CHUNK_EXT_MAX :: nat where "KL_HTTP1_CHUNK_EXT_MAX = 4096"

definition KL_HTTP1_CHUNK_TRAILER_MAX :: nat where "KL_HTTP1_CHUNK_TRAILER_MAX = 8192"

datatype KlHttp1ChunkedState =
    KL_HTTP1_CHUNK_SIZE | KL_HTTP1_CHUNK_EXT | KL_HTTP1_CHUNK_SIZE_CR | KL_HTTP1_CHUNK_DATA
  | KL_HTTP1_CHUNK_DATA_CR | KL_HTTP1_CHUNK_TRAILER | KL_HTTP1_CHUNK_TRAILER_CR
  | KL_HTTP1_CHUNK_DONE | KL_HTTP1_CHUNK_ERROR

record KlHttp1ChunkedDecoder =
  cstate :: KlHttp1ChunkedState
  chunk_remaining :: nat
  total_body :: nat
  size_accum :: nat
  size_digits :: nat
  trailer_cr :: bool
  meta_len :: nat

definition kl_http1_chunked_init :: KlHttp1ChunkedDecoder where
  "kl_http1_chunked_init = \<lparr>cstate = KL_HTTP1_CHUNK_SIZE, chunk_remaining = 0, total_body = 0, size_accum = 0,
     size_digits = 0, trailer_cr = False, meta_len = 0\<rparr>"

abbreviation (input) CR :: char where "CR \<equiv> CHR 0x0D"
abbreviation (input) LF :: char where "LF \<equiv> CHR 0x0A"

definition chunk_field_byte :: "char \<Rightarrow> bool" where
  "chunk_field_byte c \<longleftrightarrow> c = CHR 0x09 \<or> (32 \<le> uchar c \<and> uchar c \<noteq> 127)"

definition chunk_digit :: "char \<Rightarrow> nat option" where
  "chunk_digit c =
     (if uchar CHR ''0'' \<le> uchar c \<and> uchar c \<le> uchar CHR ''9'' then Some (uchar c - uchar CHR ''0'')
      else if uchar CHR ''a'' \<le> uchar c \<and> uchar c \<le> uchar CHR ''f'' then Some (uchar c - uchar CHR ''a'' + 10)
      else if uchar CHR ''A'' \<le> uchar c \<and> uchar c \<le> uchar CHR ''F'' then Some (uchar c - uchar CHR ''A'' + 10)
      else None)"

text \<open>A byte in a state that consumes one byte: the value returned, if the call returns, and the decoder.\<close>

type_synonym char_out = "int option \<times> KlHttp1ChunkedDecoder"

abbreviation chunk_error :: "KlHttp1ChunkedDecoder \<Rightarrow> char_out" where
  "chunk_error dec \<equiv> (Some (-1), dec\<lparr>cstate := KL_HTTP1_CHUNK_ERROR\<rparr>)"

definition chunk_size :: "KlHttp1ChunkedDecoder \<Rightarrow> char \<Rightarrow> char_out" where
  "chunk_size dec c =
     (case chunk_digit c of
        Some digit \<Rightarrow>
          if size_digits dec \<ge> 16 then chunk_error dec
          else if size_accum dec > SIZE_MAX div 16 then chunk_error dec
          else (None, dec\<lparr>size_accum := take_bit 64 (push_bit 4 (size_accum dec)) OR digit,
                          size_digits := size_digits dec + 1\<rparr>)
      | None \<Rightarrow>
          if c = CHR '';'' then
            (if size_digits dec = 0 then chunk_error dec
             else (None, dec\<lparr>cstate := KL_HTTP1_CHUNK_EXT, meta_len := 0\<rparr>))
          else if c = CR then
            (if size_digits dec = 0 then chunk_error dec
             else (None, dec\<lparr>cstate := KL_HTTP1_CHUNK_SIZE_CR\<rparr>))
          else chunk_error dec)"

definition chunk_ext :: "KlHttp1ChunkedDecoder \<Rightarrow> char \<Rightarrow> char_out" where
  "chunk_ext dec c =
     (if c = CR then (None, dec\<lparr>cstate := KL_HTTP1_CHUNK_SIZE_CR\<rparr>)
      else if \<not> chunk_field_byte c then chunk_error dec
      else let dec1 = dec\<lparr>meta_len := meta_len dec + 1\<rparr>
           in if meta_len dec1 > KL_HTTP1_CHUNK_EXT_MAX then chunk_error dec1 else (None, dec1))"

definition chunk_size_cr :: "KlHttp1ChunkedDecoder \<Rightarrow> char \<Rightarrow> char_out" where
  "chunk_size_cr dec c =
     (if c \<noteq> LF then chunk_error dec
      else let dec1 = dec\<lparr>chunk_remaining := size_accum dec, size_accum := 0, size_digits := 0\<rparr>
           in if chunk_remaining dec1 = 0
              then (None, dec1\<lparr>cstate := KL_HTTP1_CHUNK_TRAILER, trailer_cr := True, meta_len := 0\<rparr>)
              else (None, dec1\<lparr>cstate := KL_HTTP1_CHUNK_DATA\<rparr>))"

definition chunk_trailer :: "KlHttp1ChunkedDecoder \<Rightarrow> char \<Rightarrow> char_out" where
  "chunk_trailer dec c =
     (let dec1 = dec\<lparr>meta_len := meta_len dec + 1\<rparr>
      in if meta_len dec1 > KL_HTTP1_CHUNK_TRAILER_MAX then chunk_error dec1
         else if c = CR then (None, dec1\<lparr>cstate := KL_HTTP1_CHUNK_TRAILER_CR\<rparr>)
         else if \<not> chunk_field_byte c then chunk_error dec1
         else (None, dec1\<lparr>trailer_cr := False\<rparr>))"

definition chunk_trailer_cr :: "KlHttp1ChunkedDecoder \<Rightarrow> char \<Rightarrow> char_out" where
  "chunk_trailer_cr dec c =
     (if c \<noteq> LF then chunk_error dec
      else let dec1 = dec\<lparr>meta_len := meta_len dec + 1\<rparr>
           in if meta_len dec1 > KL_HTTP1_CHUNK_TRAILER_MAX then chunk_error dec1
              else if trailer_cr dec1 then (Some 1, dec1\<lparr>cstate := KL_HTTP1_CHUNK_DONE\<rparr>)
              else (None, dec1\<lparr>trailer_cr := True, cstate := KL_HTTP1_CHUNK_TRAILER\<rparr>))"

fun chunk_char :: "KlHttp1ChunkedDecoder \<Rightarrow> char \<Rightarrow> char_out" where
  "chunk_char dec c =
     (case cstate dec of
        KL_HTTP1_CHUNK_SIZE \<Rightarrow> chunk_size dec c
      | KL_HTTP1_CHUNK_EXT \<Rightarrow> chunk_ext dec c
      | KL_HTTP1_CHUNK_SIZE_CR \<Rightarrow> chunk_size_cr dec c
      | KL_HTTP1_CHUNK_TRAILER \<Rightarrow> chunk_trailer dec c
      | KL_HTTP1_CHUNK_TRAILER_CR \<Rightarrow> chunk_trailer_cr dec c
      | KL_HTTP1_CHUNK_DONE \<Rightarrow> (Some 1, dec)
      | _ \<Rightarrow> (Some (-1), dec))"

datatype 'r chunk_out = Go KlHttp1ChunkedDecoder string 'r | Ret int KlHttp1ChunkedDecoder 'r

type_synonym 'r reader = "('r \<Rightarrow> string \<Rightarrow> int \<times> 'r) option"

text \<open>Chunk data: as many bytes as the chunk and the input have go to the reader in one call.\<close>

definition chunk_data :: "'r reader \<Rightarrow> KlHttp1ChunkedDecoder \<Rightarrow> string \<Rightarrow> 'r \<Rightarrow> 'r chunk_out" where
  "chunk_data reader dec s r =
     (let forward = (if length s < chunk_remaining dec then length s else chunk_remaining dec);
          (k, r1) = (case reader of Some on_data \<Rightarrow> if forward > 0 then on_data r (take forward s) else (0, r)
                     | None \<Rightarrow> (0, r))
      in if k < 0 then Ret (-1) (dec\<lparr>cstate := KL_HTTP1_CHUNK_ERROR\<rparr>) r1
         else let dec1 = dec\<lparr>total_body := (total_body dec + forward) mod 2 ^ 64,
                             chunk_remaining := chunk_remaining dec - forward\<rparr>
              in Go (if chunk_remaining dec1 = 0 then dec1\<lparr>cstate := KL_HTTP1_CHUNK_DATA_CR, trailer_cr := False\<rparr> else dec1)
                   (drop forward s) r1)"

text \<open>The CRLF after chunk data, whose two bytes may arrive in different calls.\<close>

definition chunk_data_cr :: "KlHttp1ChunkedDecoder \<Rightarrow> char \<Rightarrow> string \<Rightarrow> 'r \<Rightarrow> 'r chunk_out" where
  "chunk_data_cr dec c s r =
     (if trailer_cr dec then
        (if c \<noteq> LF then Ret (-1) (dec\<lparr>cstate := KL_HTTP1_CHUNK_ERROR\<rparr>) r
         else Go (dec\<lparr>trailer_cr := False, cstate := KL_HTTP1_CHUNK_SIZE\<rparr>) s r)
      else if c = CR then
        (case s of
           [] \<Rightarrow> Go (dec\<lparr>trailer_cr := True\<rparr>) [] r
         | c' # s' \<Rightarrow>
             if c' \<noteq> LF then Ret (-1) (dec\<lparr>cstate := KL_HTTP1_CHUNK_ERROR\<rparr>) r
             else Go (dec\<lparr>cstate := KL_HTTP1_CHUNK_SIZE\<rparr>) s' r)
      else Ret (-1) (dec\<lparr>cstate := KL_HTTP1_CHUNK_ERROR\<rparr>) r)"

definition chunk_iter :: "'r reader \<Rightarrow> KlHttp1ChunkedDecoder \<Rightarrow> char \<Rightarrow> string \<Rightarrow> 'r \<Rightarrow> 'r chunk_out" where
  "chunk_iter reader dec c s r =
     (case cstate dec of
        KL_HTTP1_CHUNK_DATA \<Rightarrow> chunk_data reader dec (c # s) r
      | KL_HTTP1_CHUNK_DATA_CR \<Rightarrow> chunk_data_cr dec c s r
      | _ \<Rightarrow> (case chunk_char dec c of (Some k, dec1) \<Rightarrow> Ret k dec1 r | (None, dec1) \<Rightarrow> Go dec1 s r))"

definition chunk_measure :: "KlHttp1ChunkedDecoder \<Rightarrow> string \<Rightarrow> nat" where
  "chunk_measure dec s = 2 * length s + (if cstate dec = KL_HTTP1_CHUNK_DATA then 1 else 0)"

lemma chunk_iter_measure:
  assumes "chunk_iter reader dec c s r = Go dec' s' r'"
  shows "chunk_measure dec' s' < chunk_measure dec (c # s)"
proof (cases "cstate dec")
  case KL_HTTP1_CHUNK_DATA
  with assms show ?thesis
    by (auto simp: chunk_iter_def chunk_data_def chunk_measure_def Let_def split: prod.splits if_splits)
next
  case KL_HTTP1_CHUNK_DATA_CR
  with assms show ?thesis
    by (auto simp: chunk_iter_def chunk_data_cr_def chunk_measure_def split: list.splits if_splits)
qed (use assms in \<open>auto simp: chunk_iter_def chunk_measure_def split: prod.splits option.splits\<close>)

function kl_http1_chunked_decode ::
    "'r reader \<Rightarrow> KlHttp1ChunkedDecoder \<Rightarrow> string \<Rightarrow> 'r \<Rightarrow> int \<times> KlHttp1ChunkedDecoder \<times> 'r" where
  "kl_http1_chunked_decode reader dec [] r = (if cstate dec = KL_HTTP1_CHUNK_DONE then 1 else 0, dec, r)"
| "kl_http1_chunked_decode reader dec (c # s) r =
     (case chunk_iter reader dec c s r of
        Go dec1 s1 r1 \<Rightarrow> kl_http1_chunked_decode reader dec1 s1 r1
      | Ret k dec1 r1 \<Rightarrow> (k, dec1, r1))"
  by pat_completeness auto
termination by (relation "measure (\<lambda>(reader, dec, s, r). chunk_measure dec s)") (auto dest: chunk_iter_measure)

section \<open>The decoder byte by byte\<close>

text \<open>
  The reference: every state takes one byte, and the bytes of chunk data are the output. It ignores what
  follows the end of the body, and an error is final.
\<close>

definition chunk_byte :: "KlHttp1ChunkedDecoder \<Rightarrow> char \<Rightarrow> KlHttp1ChunkedDecoder \<times> string" where
  "chunk_byte dec c =
     (case cstate dec of
        KL_HTTP1_CHUNK_DATA \<Rightarrow>
          (let dec1 = dec\<lparr>total_body := (total_body dec + 1) mod 2 ^ 64, chunk_remaining := chunk_remaining dec - 1\<rparr>
           in (if chunk_remaining dec1 = 0 then dec1\<lparr>cstate := KL_HTTP1_CHUNK_DATA_CR, trailer_cr := False\<rparr> else dec1, [c]))
      | KL_HTTP1_CHUNK_DATA_CR \<Rightarrow>
          (if trailer_cr dec then
             (if c = LF then dec\<lparr>trailer_cr := False, cstate := KL_HTTP1_CHUNK_SIZE\<rparr> else dec\<lparr>cstate := KL_HTTP1_CHUNK_ERROR\<rparr>)
           else if c = CR then dec\<lparr>trailer_cr := True\<rparr>
           else dec\<lparr>cstate := KL_HTTP1_CHUNK_ERROR\<rparr>, [])
      | _ \<Rightarrow> (snd (chunk_char dec c), []))"

primrec chunk_bytes :: "KlHttp1ChunkedDecoder \<Rightarrow> string \<Rightarrow> KlHttp1ChunkedDecoder \<times> string" where
  "chunk_bytes dec [] = (dec, [])"
| "chunk_bytes dec (c # s) =
     (let (dec1, o1) = chunk_byte dec c; (dec2, o2) = chunk_bytes dec1 s in (dec2, o1 @ o2))"

definition chunk_code :: "KlHttp1ChunkedDecoder \<Rightarrow> int" where
  "chunk_code dec = (case cstate dec of KL_HTTP1_CHUNK_DONE \<Rightarrow> 1 | KL_HTTP1_CHUNK_ERROR \<Rightarrow> -1 | _ \<Rightarrow> 0)"

abbreviation chunk_over :: "KlHttp1ChunkedDecoder \<Rightarrow> bool" where
  "chunk_over dec \<equiv> cstate dec = KL_HTTP1_CHUNK_DONE \<or> cstate dec = KL_HTTP1_CHUNK_ERROR"

lemma chunk_code_simps [simp]:
  "cstate dec = KL_HTTP1_CHUNK_DONE \<Longrightarrow> chunk_code dec = 1"
  "cstate dec = KL_HTTP1_CHUNK_ERROR \<Longrightarrow> chunk_code dec = -1"
  "\<not> chunk_over dec \<Longrightarrow> chunk_code dec = 0"
  by (auto simp: chunk_code_def split: KlHttp1ChunkedState.split)

lemma chunk_code_iff:
  "chunk_code dec = -1 \<longleftrightarrow> cstate dec = KL_HTTP1_CHUNK_ERROR"
  "chunk_code dec = 1 \<longleftrightarrow> cstate dec = KL_HTTP1_CHUNK_DONE"
  "chunk_code dec = 0 \<longleftrightarrow> \<not> chunk_over dec"
  by (cases "cstate dec"; simp add: chunk_code_def)+

lemma chunk_bytes_append:
  "chunk_bytes dec (s @ t) = (let (dec1, o1) = chunk_bytes dec s; (dec2, o2) = chunk_bytes dec1 t in (dec2, o1 @ o2))"
  by (induction s arbitrary: dec) (simp_all add: Let_def split: prod.split)

lemma chunk_bytes_appendI:
  "chunk_bytes dec s = (dec1, o1) \<Longrightarrow> chunk_bytes dec1 t = (dec2, o2) \<Longrightarrow> chunk_bytes dec (s @ t) = (dec2, o1 @ o2)"
  by (simp add: chunk_bytes_append)

lemma chunk_byte_over: "chunk_over dec \<Longrightarrow> chunk_byte dec c = (dec, [])"
  by (auto simp: chunk_byte_def)

lemma chunk_bytes_over: "chunk_over dec \<Longrightarrow> chunk_bytes dec s = (dec, [])"
  by (induction s) (simp_all add: chunk_byte_over Let_def)

lemma chunk_bytes_data:
  assumes "cstate dec = KL_HTTP1_CHUNK_DATA" and "0 < length s" and "length s \<le> chunk_remaining dec"
  shows "chunk_bytes dec s =
    (let dec1 = dec\<lparr>total_body := (total_body dec + length s) mod 2 ^ 64, chunk_remaining := chunk_remaining dec - length s\<rparr>
     in (if chunk_remaining dec1 = 0 then dec1\<lparr>cstate := KL_HTTP1_CHUNK_DATA_CR, trailer_cr := False\<rparr> else dec1, s))"
  using assms
proof (induction s arbitrary: dec)
  case (Cons c s)
  show ?case
  proof (cases "s = []")
    case True
    with Cons.prems show ?thesis by (simp add: chunk_byte_def Let_def)
  next
    case False
    let ?d = "dec\<lparr>total_body := (total_body dec + 1) mod 2 ^ 64, chunk_remaining := chunk_remaining dec - 1\<rparr>"
    have b: "chunk_byte dec c = (?d, [c])"
      using Cons.prems False by (cases s) (simp_all add: chunk_byte_def Let_def)
    have "((total_body dec + 1) mod 2 ^ 64 + length s) mod 2 ^ 64 = (total_body dec + length (c # s)) mod 2 ^ 64"
      by (simp add: mod_add_left_eq)
    with Cons.IH [of ?d] Cons.prems False b show ?thesis by (simp add: Let_def)
  qed
qed simp

text \<open>The decoder can be called: no error was reported, and in the data state some data is missing.\<close>

definition chunk_ready :: "KlHttp1ChunkedDecoder \<Rightarrow> bool" where
  "chunk_ready dec \<longleftrightarrow> cstate dec \<noteq> KL_HTTP1_CHUNK_ERROR \<and>
     (cstate dec = KL_HTTP1_CHUNK_DATA \<longrightarrow> 0 < chunk_remaining dec)"

lemma chunk_ready_init [simp]: "chunk_ready kl_http1_chunked_init"
  by (simp add: chunk_ready_def kl_http1_chunked_init_def)

text \<open>The calls of the reader that deliver the blocks \<open>os\<close>.\<close>

fun feeds :: "'r reader \<Rightarrow> 'r \<Rightarrow> string list \<Rightarrow> 'r \<Rightarrow> bool" where
  "feeds rd r [] r' \<longleftrightarrow> r' = r"
| "feeds None r (b # os) r' \<longleftrightarrow> feeds None r os r'"
| "feeds (Some f) r (b # os) r' \<longleftrightarrow> (\<exists>k r1. f r b = (k, r1) \<and> 0 \<le> k \<and> feeds (Some f) r1 os r')"

definition refuses :: "'r reader \<Rightarrow> 'r \<Rightarrow> string \<Rightarrow> 'r \<Rightarrow> bool" where
  "refuses rd r b r' \<longleftrightarrow> (\<exists>f k. rd = Some f \<and> f r b = (k, r') \<and> k < 0)"

lemma chunk_char_code:
  assumes "chunk_char dec c = (k, dec')" and "chunk_ready dec" and "cstate dec \<noteq> KL_HTTP1_CHUNK_DATA" and "cstate dec \<noteq> KL_HTTP1_CHUNK_DATA_CR"
  shows "k = (if chunk_over dec' then Some (chunk_code dec') else None) \<and> (cstate dec' = KL_HTTP1_CHUNK_DATA \<longrightarrow> 0 < chunk_remaining dec')"
  using assms
  by (cases "cstate dec")
    (auto simp: chunk_ready_def chunk_size_def chunk_ext_def chunk_size_cr_def chunk_trailer_def chunk_trailer_cr_def Let_def
      split: if_splits option.splits)

lemma chunk_iter_Go:
  assumes "chunk_iter rd dec c s r = Go dec' s' r'" and "chunk_ready dec"
  shows "\<exists>p os. c # s = p @ s' \<and> chunk_bytes dec p = (dec', concat os) \<and> chunk_ready dec' \<and> feeds rd r os r'"
proof (cases "cstate dec = KL_HTTP1_CHUNK_DATA")
  case True
  let ?n = "if length (c # s) < chunk_remaining dec then length (c # s) else chunk_remaining dec"
  have n: "0 < ?n" "?n \<le> chunk_remaining dec" "?n \<le> length (c # s)" using assms(2) True by (auto simp: chunk_ready_def)
  have l: "length (take ?n (c # s)) = ?n" using n(3) by simp
  have "s' = drop ?n (c # s)" "feeds rd r [take ?n (c # s)] r'"
    and d: "dec' = (let dec1 = dec\<lparr>total_body := (total_body dec + ?n) mod 2 ^ 64, chunk_remaining := chunk_remaining dec - ?n\<rparr>
        in if chunk_remaining dec1 = 0 then dec1\<lparr>cstate := KL_HTTP1_CHUNK_DATA_CR, trailer_cr := False\<rparr> else dec1)"
    using assms(1) True n(1) unfolding chunk_iter_def chunk_data_def
    by (auto simp: Let_def split: prod.splits option.splits if_splits)
  moreover have "chunk_bytes dec (take ?n (c # s)) = (dec', take ?n (c # s))"
    using chunk_bytes_data [OF True, of "take ?n (c # s)"] n l unfolding d by (simp only: Let_def)
  moreover have "chunk_ready dec'" using True unfolding d by (simp add: chunk_ready_def Let_def)
  moreover have "c # s = take ?n (c # s) @ drop ?n (c # s)" by (simp only: append_take_drop_id)
  ultimately show ?thesis
    by (intro exI [of _ "take ?n (c # s)"] exI [of _ "[take ?n (c # s)]"]) (simp only: concat.simps append_Nil2 simp_thms)
next
  case False
  show ?thesis
  proof (cases "cstate dec = KL_HTTP1_CHUNK_DATA_CR")
    case True
    with assms show ?thesis
      by (cases s)
        (auto simp: chunk_iter_def chunk_data_cr_def chunk_ready_def chunk_byte_def Let_def intro!: exI [of _ "[]"] split: if_splits)
  next
    case b: False
    from assms(1) False b obtain "chunk_char dec c = (None, dec')" and s: "s' = s" "r' = r"
      by (cases "cstate dec") (auto simp: chunk_iter_def split: prod.splits option.splits)
    with chunk_char_code [OF this(1) assms(2) False b] have "\<not> chunk_over dec'" "chunk_ready dec'"
      by (auto simp: chunk_ready_def split: if_splits)
    moreover have "chunk_byte dec c = (dec', [])"
      using \<open>chunk_char dec c = (None, dec')\<close> False b by (cases "cstate dec") (auto simp: chunk_byte_def simp del: chunk_char.simps)
    ultimately show ?thesis using s by (intro exI [of _ "[c]"] exI [of _ "[]"]) (simp add: Let_def)
  qed
qed

lemma chunk_iter_Ret:
  assumes "chunk_iter rd dec c s r = Ret k dec' r'" and "chunk_ready dec"
  shows "chunk_over dec' \<and> k = chunk_code dec' \<and>
    (r' = r \<and> snd (chunk_bytes dec (c # s)) = [] \<and> chunk_code (fst (chunk_bytes dec (c # s))) = k \<and>
       (k \<noteq> -1 \<longrightarrow> fst (chunk_bytes dec (c # s)) = dec') \<or>
     k = -1 \<and> (\<exists>b. refuses rd r b r' \<and> prefix b (snd (chunk_bytes dec (c # s)))))"
proof (cases "cstate dec = KL_HTTP1_CHUNK_DATA")
  case True
  let ?n = "if length (c # s) < chunk_remaining dec then length (c # s) else chunk_remaining dec"
  have n: "0 < ?n" "?n \<le> chunk_remaining dec" "?n \<le> length (c # s)" using assms(2) True by (auto simp: chunk_ready_def)
  have l: "length (take ?n (c # s)) = ?n" using n(3) by simp
  have "k = -1" "cstate dec' = KL_HTTP1_CHUNK_ERROR" "refuses rd r (take ?n (c # s)) r'"
    using assms(1) True n(1) unfolding chunk_iter_def chunk_data_def refuses_def
    by (auto simp: Let_def split: prod.splits option.splits if_splits)
  moreover have "snd (chunk_bytes dec (take ?n (c # s))) = take ?n (c # s)"
    using chunk_bytes_data [OF True, of "take ?n (c # s)"] n l by (simp only: Let_def snd_conv)
  then have "prefix (take ?n (c # s)) (snd (chunk_bytes dec (take ?n (c # s) @ drop ?n (c # s))))"
    unfolding chunk_bytes_append by (auto simp: Let_def split: prod.split)
  then have "prefix (take ?n (c # s)) (snd (chunk_bytes dec (c # s)))" by (simp only: append_take_drop_id)
  ultimately show ?thesis by auto
next
  case False
  show ?thesis
  proof (cases "cstate dec = KL_HTTP1_CHUNK_DATA_CR")
    case True
    with assms show ?thesis
      by (cases s) (auto simp: chunk_iter_def chunk_data_cr_def chunk_byte_def Let_def chunk_bytes_over split: if_splits)
  next
    case b: False
    from assms(1) False b have cc: "chunk_char dec c = (Some k, dec')" and r: "r' = r"
      by (cases "cstate dec"; auto simp: chunk_iter_def split: prod.splits option.splits)+
    from chunk_char_code [OF cc assms(2) False b] have o: "chunk_over dec'" "k = chunk_code dec'"
      by (auto split: if_splits)
    moreover have "chunk_byte dec c = (dec', [])"
      using cc False b by (cases "cstate dec") (auto simp: chunk_byte_def simp del: chunk_char.simps)
    ultimately show ?thesis using r by (simp add: Let_def chunk_bytes_over)
  qed
qed

lemma feeds_append: "feeds rd r os r1 \<Longrightarrow> feeds rd r1 ps r2 \<Longrightarrow> feeds rd r (os @ ps) r2"
  by (induction rd r os r1 rule: feeds.induct) auto

text \<open>The decoder against the reference: the blocks given to the reader are the output, unless it refuses one.\<close>

lemma chunked_decode_bytes:
  assumes "kl_http1_chunked_decode rd dec s r = (k, dec', r')" and "chunk_ready dec"
  shows "\<exists>os r1. feeds rd r os r1 \<and>
    (r' = r1 \<and> concat os = snd (chunk_bytes dec s) \<and> k = chunk_code (fst (chunk_bytes dec s)) \<and>
       (k \<noteq> -1 \<longrightarrow> dec' = fst (chunk_bytes dec s)) \<or>
     k = -1 \<and> (\<exists>b. refuses rd r1 b r' \<and> prefix (concat os @ b) (snd (chunk_bytes dec s))))"
  using assms
proof (induction rd dec s r arbitrary: k dec' r' rule: kl_http1_chunked_decode.induct)
  case (1 rd dec r)
  then show ?case
    by (intro exI [of _ "[]"] exI [of _ r]) (auto simp: chunk_ready_def chunk_code_def split: KlHttp1ChunkedState.split if_splits)
next
  case (2 rd dec c s r)
  show ?case
  proof (cases "chunk_iter rd dec c s r")
    case (Ret k1 d1 r1)
    with 2 chunk_iter_Ret [OF this "2.prems"(2)] show ?thesis by (intro exI [of _ "[]"] exI [of _ r]) auto
  next
    case (Go d1 s1 r1)
    from chunk_iter_Go [OF Go "2.prems"(2)] obtain p os where p: "c # s = p @ s1" "chunk_bytes dec p = (d1, concat os)"
      "chunk_ready d1" and f: "feeds rd r os r1" by blast
    have dec: "kl_http1_chunked_decode rd d1 s1 r1 = (k, dec', r')" using "2.prems"(1) Go by simp
    have b: "chunk_bytes dec (c # s) = (fst (chunk_bytes d1 s1), concat os @ snd (chunk_bytes d1 s1))"
      unfolding p(1) chunk_bytes_append using p(2) by (simp add: Let_def split: prod.split)
    from "2.IH" [OF Go dec p(3)] obtain ps r2 where ps: "feeds rd r1 ps r2"
      "r' = r2 \<and> concat ps = snd (chunk_bytes d1 s1) \<and> k = chunk_code (fst (chunk_bytes d1 s1)) \<and>
         (k \<noteq> -1 \<longrightarrow> dec' = fst (chunk_bytes d1 s1)) \<or>
       k = -1 \<and> (\<exists>b. refuses rd r2 b r' \<and> prefix (concat ps @ b) (snd (chunk_bytes d1 s1)))" by blast
    have "feeds rd r (os @ ps) r2" using feeds_append [OF f ps(1)] .
    with ps(2) show ?thesis unfolding b by (intro exI [of _ "os @ ps"] exI [of _ r2]) auto
  qed
qed

lemma chunk_byte_ready:
  assumes "chunk_ready dec" and "chunk_byte dec c = (dec', b)" and "cstate dec' \<noteq> KL_HTTP1_CHUNK_ERROR"
  shows "chunk_ready dec'"
proof (cases "cstate dec = KL_HTTP1_CHUNK_DATA \<or> cstate dec = KL_HTTP1_CHUNK_DATA_CR")
  case True
  with assms show ?thesis by (auto simp: chunk_byte_def chunk_ready_def Let_def split: if_splits)
next
  case False
  obtain k d where c: "chunk_char dec c = (k, d)" by fastforce
  with False assms(2) have "dec' = d" by (cases "cstate dec") (auto simp: chunk_byte_def simp del: chunk_char.simps)
  with chunk_char_code [OF c assms(1)] False assms(3) show ?thesis by (simp add: chunk_ready_def)
qed

lemma chunk_bytes_ready:
  "chunk_ready dec \<Longrightarrow> cstate (fst (chunk_bytes dec s)) \<noteq> KL_HTTP1_CHUNK_ERROR \<Longrightarrow> chunk_ready (fst (chunk_bytes dec s))"
proof (induction s arbitrary: dec)
  case (Cons c s)
  obtain d b where c: "chunk_byte dec c = (d, b)" by fastforce
  have "cstate d \<noteq> KL_HTTP1_CHUNK_ERROR"
  proof
    assume "cstate d = KL_HTTP1_CHUNK_ERROR"
    then have "chunk_bytes d s = (d, [])" by (simp add: chunk_bytes_over)
    with Cons.prems(2) c \<open>cstate d = KL_HTTP1_CHUNK_ERROR\<close> show False by (simp add: Let_def)
  qed
  with Cons.IH [of d] Cons.prems chunk_byte_ready [OF Cons.prems(1) c] c show ?case
    by (simp add: Let_def split: prod.splits)
qed simp

text \<open>A body that arrives in several reads: one call for each, until a call reports the end or an error.\<close>

fun chunked_feed :: "'r reader \<Rightarrow> KlHttp1ChunkedDecoder \<Rightarrow> string list \<Rightarrow> 'r \<Rightarrow> int \<times> KlHttp1ChunkedDecoder \<times> 'r" where
  "chunked_feed rd dec [] r = (if cstate dec = KL_HTTP1_CHUNK_DONE then 1 else 0, dec, r)"
| "chunked_feed rd dec (f # fs) r =
     (case kl_http1_chunked_decode rd dec f r of
        (k, dec1, r1) \<Rightarrow> if k \<noteq> 0 then (k, dec1, r1) else chunked_feed rd dec1 fs r1)"

section \<open>The decoder with any reader\<close>

context body_reader
begin

lemma feeds_body: "feeds (Some on_data) r os r' \<Longrightarrow> inv r \<Longrightarrow> inv r' \<and> body r' = body r @ concat os"
proof (induction os arbitrary: r)
  case (Cons b os)
  from Cons.prems obtain k r1 where k: "on_data r b = (k, r1)" "0 \<le> k" "feeds (Some on_data) r1 os r'" by auto
  with Cons.IH [OF k(3) on_data_inv [OF Cons.prems(2) k(1)]] on_data_appends [OF Cons.prems(2) k(1,2)] show ?case by simp
qed simp

lemma decode_inv:
  assumes "kl_http1_chunked_decode (Some on_data) dec s r = (k, dec', r')" and "chunk_ready dec" and "inv r"
  shows "inv r'"
proof -
  from chunked_decode_bytes [OF assms(1,2)] obtain os r1 where f: "feeds (Some on_data) r os r1"
    and c: "r' = r1 \<or> (\<exists>b. refuses (Some on_data) r1 b r')" by blast
  from feeds_body [OF f assms(3)] have "inv r1" by blast
  with c show ?thesis using on_data_inv by (auto simp: refuses_def)
qed

lemma decode_ok:
  assumes "kl_http1_chunked_decode (Some on_data) dec s r = (k, dec', r')" and "chunk_ready dec" and "inv r" and "k \<noteq> -1"
  shows "k = chunk_code dec' \<and> dec' = fst (chunk_bytes dec s) \<and> body r' = body r @ snd (chunk_bytes dec s)"
proof -
  from chunked_decode_bytes [OF assms(1,2)] assms(4) obtain os where "feeds (Some on_data) r os r'"
    "concat os = snd (chunk_bytes dec s)" "k = chunk_code (fst (chunk_bytes dec s))" "dec' = fst (chunk_bytes dec s)" by blast
  with feeds_body [of r os r'] assms(3) show ?thesis by simp
qed

end

context bounded_reader
begin

lemma feeds_accepts:
  "feeds (Some on_data) r os r' \<Longrightarrow> inv r \<Longrightarrow>
     accepts r (length (concat os)) \<and> (\<forall>n. accepts r' n \<longleftrightarrow> accepts r (length (concat os) + n))"
proof (induction os arbitrary: r)
  case Nil
  then show ?case
  proof -
    obtain c r1 where "on_data r [] = (c, r1)" by fastforce
    with Nil show ?thesis using accepts_iff [of r "[]"] accepts_0 by auto
  qed
next
  case (Cons b os)
  from Cons.prems obtain k r1 where k: "on_data r b = (k, r1)" "0 \<le> k" "feeds (Some on_data) r1 os r'" by auto
  have a: "accepts r (length b)" using accepts_iff [OF Cons.prems(2) k(1)] k(2) by simp
  from Cons.IH [OF k(3) on_data_inv [OF Cons.prems(2) k(1)]] accepts_split [OF Cons.prems(2) k(1) a] show ?case
    by (simp add: add.assoc)
qed

lemma decode_code:
  assumes "kl_http1_chunked_decode (Some on_data) dec s r = (k, dec', r')" and "chunk_ready dec" and "inv r"
  shows "k = (if accepts r (length (snd (chunk_bytes dec s))) then chunk_code (fst (chunk_bytes dec s)) else -1)"
proof -
  from chunked_decode_bytes [OF assms(1,2)] obtain os r1 where f: "feeds (Some on_data) r os r1"
    and c: "concat os = snd (chunk_bytes dec s) \<and> k = chunk_code (fst (chunk_bytes dec s)) \<or>
      k = -1 \<and> (\<exists>b. refuses (Some on_data) r1 b r' \<and> prefix (concat os @ b) (snd (chunk_bytes dec s)))" by blast
  note a = feeds_accepts [OF f assms(3)]
  have i: "inv r1" using feeds_body [OF f assms(3)] by blast
  from c show ?thesis
  proof
    assume "concat os = snd (chunk_bytes dec s) \<and> k = chunk_code (fst (chunk_bytes dec s))"
    with a show ?thesis by auto
  next
    assume "k = -1 \<and> (\<exists>b. refuses (Some on_data) r1 b r' \<and> prefix (concat os @ b) (snd (chunk_bytes dec s)))"
    then obtain b where b: "k = -1" "refuses (Some on_data) r1 b r'" "prefix (concat os @ b) (snd (chunk_bytes dec s))" by blast
    then have "\<not> accepts r1 (length b)" using accepts_iff [OF i, of b] by (fastforce simp: refuses_def)
    then have "\<not> accepts r (length (concat os) + length b)" using a by blast
    moreover have "length (concat os) + length b \<le> length (snd (chunk_bytes dec s))"
      using prefix_length_le [OF b(3)] by simp
    ultimately show ?thesis using accepts_mono [OF assms(3)] b(1) by auto
  qed
qed

lemma feed_code:
  assumes "chunked_feed (Some on_data) dec fs r = (k, dec', r')" and "chunk_ready dec" and "inv r"
  shows "k = (if accepts r (length (snd (chunk_bytes dec (concat fs)))) then chunk_code (fst (chunk_bytes dec (concat fs))) else -1) \<and>
    (k \<noteq> -1 \<longrightarrow> dec' = fst (chunk_bytes dec (concat fs)) \<and> body r' = body r @ snd (chunk_bytes dec (concat fs)))"
  using assms
proof (induction fs arbitrary: dec r)
  case Nil
  then show ?case using accepts_0 [OF Nil(3)]
    by (auto simp: chunk_ready_def chunk_code_def split: KlHttp1ChunkedState.splits if_splits)
next
  case (Cons f fs)
  obtain k1 d1 r1 where d: "kl_http1_chunked_decode (Some on_data) dec f r = (k1, d1, r1)" by (metis prod_cases3)
  note code = decode_code [OF d Cons.prems(2,3)]
  obtain D W1 where b: "chunk_bytes dec f = (D, W1)" by fastforce
  obtain D' W2 where b': "chunk_bytes D (concat fs) = (D', W2)" by fastforce
  have bb: "chunk_bytes dec (f @ concat fs) = (D', W1 @ W2)" using b b' by (simp add: chunk_bytes_append)
  show ?case
  proof (cases "k1 = -1")
    case True
    then have "k = -1" using Cons.prems(1) d by simp
    moreover have "\<not> accepts r (length W1) \<or> cstate D = KL_HTTP1_CHUNK_ERROR"
      using code True b chunk_code_iff(1) [of D] by (cases "accepts r (length W1)") simp_all
    then have "\<not> accepts r (length (W1 @ W2)) \<or> chunk_code D' = -1"
      using accepts_mono [OF Cons.prems(3), of "length (W1 @ W2)" "length W1"] b' chunk_bytes_over [of D "concat fs"]
      by (cases "cstate D = KL_HTTP1_CHUNK_ERROR") auto
    ultimately show ?thesis by (auto simp: bb)
  next
    case False
    note ok = decode_ok [OF d Cons.prems(2,3) False]
    have D: "d1 = D" "body r1 = body r @ W1" "k1 = chunk_code D" using ok b by simp_all
    have a: "accepts r (length W1)" using code False b by (auto split: if_splits)
    show ?thesis
    proof (cases "k1 = 0")
      case True
      then have "cstate D \<noteq> KL_HTTP1_CHUNK_ERROR" using D(3) by auto
      then have "chunk_ready d1" using chunk_bytes_ready [OF Cons.prems(2), of f] b D(1) by simp
      moreover have "inv r1" by (rule decode_inv [OF d Cons.prems(2,3)])
      moreover have "chunked_feed (Some on_data) d1 fs r1 = (k, dec', r')" using Cons.prems(1) d True by simp
      moreover have "accepts r1 n \<longleftrightarrow> accepts r (length W1 + n)" for n
      proof -
        from chunked_decode_bytes [OF d Cons.prems(2)] False obtain os where "feeds (Some on_data) r os r1"
          "concat os = W1" using b by auto
        with feeds_accepts [of r os r1] Cons.prems(3) show ?thesis by auto
      qed
      ultimately show ?thesis using Cons.IH [of d1 r1] D b' by (simp add: bb)
    next
      case b1: False
      then have "cstate D = KL_HTTP1_CHUNK_DONE" using D(3) False by (metis chunk_code_iff(1,3))
      then have "D' = D" "W2 = []" using b' chunk_bytes_over [of D "concat fs"] by auto
      moreover have "k = k1" "dec' = d1" "r' = r1" using Cons.prems(1) d b1 by simp_all
      ultimately show ?thesis using D a by (simp add: bb)
    qed
  qed
qed

end

end
