(* ===== verification/Chunked_Grammar.thy ===== *)
theory Chunked_Grammar
  imports Chunked
begin

text \<open>
  The chunked bodies the decoder accepts, as a grammar (RFC 9112, section 7.1, with the decoder's caps), and
  the proof that it accepts exactly these, with the body the grammar assigns. Since the decoder reads byte
  by byte (\<open>chunk_bytes\<close>), the proof has one lemma for every state: what it consumes, and that nothing else
  leads to the end of the body.
\<close>

section \<open>Grammar\<close>

definition is_hex :: "char \<Rightarrow> bool" where "is_hex c \<longleftrightarrow> chunk_digit c \<noteq> None"

abbreviation hex_from :: "nat \<Rightarrow> string \<Rightarrow> nat" where
  "hex_from v hs \<equiv> foldl (\<lambda>v c. 16 * v + the (chunk_digit c)) v hs"

definition chunk_exts :: "string \<Rightarrow> bool" where
  "chunk_exts s \<longleftrightarrow> s = [] \<or>
     (\<exists>es. s = CHR '';'' # es \<and> list_all chunk_field_byte es \<and> length es \<le> KL_HTTP1_CHUNK_EXT_MAX)"

definition size_line :: "nat \<Rightarrow> string \<Rightarrow> bool" where
  "size_line n s \<longleftrightarrow> (\<exists>hs ext. s = hs @ ext @ [CR, LF] \<and> hs \<noteq> [] \<and> length hs \<le> 16 \<and> list_all is_hex hs \<and>
     hex_from 0 hs = n \<and> chunk_exts ext)"

text \<open>Trailer lines up to the empty one; the flag says whether the text starts at the start of a line.\<close>

inductive trailer_lines :: "bool \<Rightarrow> string \<Rightarrow> bool" where
  trailer_end: "trailer_lines True [CR, LF]"
| trailer_char: "chunk_field_byte c \<Longrightarrow> trailer_lines False t \<Longrightarrow> trailer_lines b (c # t)"
| trailer_line: "trailer_lines True t \<Longrightarrow> trailer_lines False (CR # LF # t)"

inductive chunked_body :: "string \<Rightarrow> string \<Rightarrow> bool" where
  chunked_last: "size_line 0 z \<Longrightarrow> trailer_lines True t \<Longrightarrow> length t \<le> KL_HTTP1_CHUNK_TRAILER_MAX \<Longrightarrow> chunked_body (z @ t) []"
| chunked_chunk: "size_line (length d) z \<Longrightarrow> d \<noteq> [] \<Longrightarrow> chunked_body w b \<Longrightarrow> chunked_body (z @ d @ [CR, LF] @ w) (d @ b)"

section \<open>What each state consumes\<close>

lemma nat_or_add: "d < 16 \<Longrightarrow> push_bit 4 (a :: nat) OR d = 16 * a + d"
  using nat_or_push_bit [of d 4 a] by simp

lemma chunk_digit_less: "chunk_digit c = Some d \<Longrightarrow> d < 16"
  by (auto simp: chunk_digit_def split: if_splits)

lemma chunk_digit_none [simp]: "chunk_digit CR = None" "chunk_digit CHR '';'' = None" "\<not> chunk_field_byte CR" "\<not> chunk_field_byte LF"
  by (simp_all add: chunk_digit_def chunk_field_byte_def)

definition chunk_wf :: "KlHttp1ChunkedDecoder \<Rightarrow> bool" where
  "chunk_wf dec \<longleftrightarrow> size_accum dec < 16 ^ size_digits dec \<and> size_digits dec \<le> 16"

text \<open>With fewer than 16 digits read, the accumulator has room for one more: the overflow guard never fires.\<close>

lemma chunk_size_hex:
  assumes "chunk_digit c = Some d" and "chunk_wf dec" and "size_digits dec < 16"
  shows "chunk_size dec c = (None, dec\<lparr>size_accum := 16 * size_accum dec + d, size_digits := size_digits dec + 1\<rparr>)"
    and "chunk_wf (dec\<lparr>size_accum := 16 * size_accum dec + d, size_digits := size_digits dec + 1\<rparr>)"
proof -
  have d: "d < 16" by (rule chunk_digit_less [OF assms(1)])
  have "(16 :: nat) ^ size_digits dec \<le> 16 ^ 15" using assms(3) by (intro power_increasing) simp_all
  then have a: "size_accum dec < 16 ^ 15" using assms(2) by (simp add: chunk_wf_def)
  then have "take_bit 64 (push_bit 4 (size_accum dec)) = push_bit 4 (size_accum dec)"
    by (simp add: take_bit_eq_mod push_bit_eq_mult)
  then show "chunk_size dec c = (None, dec\<lparr>size_accum := 16 * size_accum dec + d, size_digits := size_digits dec + 1\<rparr>)"
    using a assms by (simp add: chunk_size_def SIZE_MAX_def nat_or_add [OF d])
  have "16 * size_accum dec + d < 16 * 16 ^ size_digits dec" using assms(2) d unfolding chunk_wf_def by linarith
  then show "chunk_wf (dec\<lparr>size_accum := 16 * size_accum dec + d, size_digits := size_digits dec + 1\<rparr>)"
    using assms(3) by (simp add: chunk_wf_def)
qed

lemma bytes_hex:
  "cstate dec = KL_HTTP1_CHUNK_SIZE \<Longrightarrow> chunk_wf dec \<Longrightarrow> list_all is_hex hs \<Longrightarrow> size_digits dec + length hs \<le> 16 \<Longrightarrow>
     chunk_bytes dec hs = (dec\<lparr>size_accum := hex_from (size_accum dec) hs, size_digits := size_digits dec + length hs\<rparr>, [])"
proof (induction hs arbitrary: dec)
  case (Cons c hs)
  then obtain d where d: "chunk_digit c = Some d" by (auto simp: is_hex_def)
  let ?d = "dec\<lparr>size_accum := 16 * size_accum dec + d, size_digits := size_digits dec + 1\<rparr>"
  have "size_digits dec < 16" using Cons.prems(4) by simp
  note s = chunk_size_hex [OF d Cons.prems(2) this]
  have "chunk_byte dec c = (?d, [])" using Cons.prems(1) s(1) by (simp add: chunk_byte_def)
  with Cons.IH [of ?d] Cons.prems s(2) d show ?case by (simp add: Let_def)
qed simp

lemma bytes_ext:
  "cstate dec = KL_HTTP1_CHUNK_EXT \<Longrightarrow> list_all chunk_field_byte es \<Longrightarrow> meta_len dec + length es \<le> KL_HTTP1_CHUNK_EXT_MAX \<Longrightarrow>
     chunk_bytes dec es = (dec\<lparr>meta_len := meta_len dec + length es\<rparr>, [])"
proof (induction es arbitrary: dec)
  case (Cons c es)
  let ?d = "dec\<lparr>meta_len := meta_len dec + 1\<rparr>"
  have "c \<noteq> CR" using Cons.prems(2) by auto
  then have "chunk_byte dec c = (?d, [])" using Cons.prems by (simp add: chunk_byte_def chunk_ext_def Let_def)
  with Cons.IH [of ?d] Cons.prems show ?case by (simp add: Let_def)
qed simp

text \<open>The decoder at the start of a chunk, and after a size line that announced \<open>n\<close> bytes.\<close>

definition at_size :: "KlHttp1ChunkedDecoder \<Rightarrow> bool" where
  "at_size dec \<longleftrightarrow> cstate dec = KL_HTTP1_CHUNK_SIZE \<and> size_accum dec = 0 \<and> size_digits dec = 0"

definition after_size :: "nat \<Rightarrow> KlHttp1ChunkedDecoder \<Rightarrow> bool" where
  "after_size n dec \<longleftrightarrow> size_accum dec = 0 \<and> size_digits dec = 0 \<and>
     (if n = 0 then cstate dec = KL_HTTP1_CHUNK_TRAILER \<and> trailer_cr dec \<and> meta_len dec = 0
      else cstate dec = KL_HTTP1_CHUNK_DATA \<and> chunk_remaining dec = n)"

lemma byte_size_cr:
  assumes "cstate dec = KL_HTTP1_CHUNK_SIZE_CR"
  shows "\<exists>dec'. chunk_bytes dec [LF] = (dec', []) \<and> after_size (size_accum dec) dec'"
  using assms by (auto simp: chunk_byte_def chunk_size_cr_def after_size_def Let_def)

lemma bytes_size_end:
  assumes "cstate dec = KL_HTTP1_CHUNK_SIZE" and "0 < size_digits dec" and "chunk_exts ext"
  shows "\<exists>dec'. chunk_bytes dec (ext @ [CR]) = (dec', []) \<and> cstate dec' = KL_HTTP1_CHUNK_SIZE_CR \<and> size_accum dec' = size_accum dec"
proof (cases "ext = []")
  case True
  with assms show ?thesis by (simp add: chunk_byte_def chunk_size_def Let_def)
next
  case False
  with assms(3) obtain es where e: "ext = CHR '';'' # es" "list_all chunk_field_byte es" "length es \<le> KL_HTTP1_CHUNK_EXT_MAX"
    by (auto simp: chunk_exts_def)
  let ?d = "dec\<lparr>cstate := KL_HTTP1_CHUNK_EXT, meta_len := 0\<rparr>"
  have "chunk_byte dec CHR '';'' = (?d, [])" using assms by (simp add: chunk_byte_def chunk_size_def)
  moreover have "chunk_bytes ?d es = (?d\<lparr>meta_len := length es\<rparr>, [])" using bytes_ext [of ?d es] e by simp
  ultimately show ?thesis unfolding e(1)
    by (simp add: Let_def chunk_bytes_append chunk_byte_def chunk_ext_def)
qed

lemma bytes_size_line:
  assumes "size_line n z" and "at_size dec"
  shows "\<exists>dec'. chunk_bytes dec z = (dec', []) \<and> after_size n dec'"
proof -
  from assms(1) obtain hs ext where z: "z = hs @ (ext @ [CR]) @ [LF]" "hs \<noteq> []" "length hs \<le> 16" "list_all is_hex hs"
    "hex_from 0 hs = n" "chunk_exts ext" by (auto simp: size_line_def)
  let ?d = "dec\<lparr>size_accum := n, size_digits := length hs\<rparr>"
  have h: "chunk_bytes dec hs = (?d, [])" using bytes_hex [of dec hs] assms(2) z by (simp add: at_size_def chunk_wf_def)
  from bytes_size_end [of ?d ext] assms(2) z obtain d1 where d1: "chunk_bytes ?d (ext @ [CR]) = (d1, [])"
    "cstate d1 = KL_HTTP1_CHUNK_SIZE_CR" "size_accum d1 = n" by (auto simp: at_size_def)
  from byte_size_cr [OF d1(2)] d1(3) obtain d2 where "chunk_bytes d1 [LF] = (d2, [])" "after_size n d2" by auto
  with chunk_bytes_appendI [OF h chunk_bytes_appendI [OF d1(1)]] show ?thesis unfolding z(1) by auto
qed

lemma bytes_data:
  assumes "after_size (length d) dec" and "d \<noteq> []"
  shows "\<exists>dec'. chunk_bytes dec (d @ [CR, LF]) = (dec', d) \<and> at_size dec'"
proof -
  let ?d = "dec\<lparr>total_body := (total_body dec + length d) mod 2 ^ 64, chunk_remaining := 0, cstate := KL_HTTP1_CHUNK_DATA_CR, trailer_cr := False\<rparr>"
  have "chunk_bytes dec d = (?d, d)" using chunk_bytes_data [of dec d] assms by (simp add: after_size_def Let_def)
  with assms show ?thesis by (simp add: chunk_bytes_append Let_def chunk_byte_def at_size_def after_size_def)
qed

lemma bytes_trailer:
  "trailer_lines b t \<Longrightarrow> cstate dec = KL_HTTP1_CHUNK_TRAILER \<Longrightarrow> trailer_cr dec = b \<Longrightarrow>
     meta_len dec + length t \<le> KL_HTTP1_CHUNK_TRAILER_MAX \<Longrightarrow>
     \<exists>dec'. chunk_bytes dec t = (dec', []) \<and> cstate dec' = KL_HTTP1_CHUNK_DONE"
proof (induction b t arbitrary: dec rule: trailer_lines.induct)
  case trailer_end
  then show ?case by (simp add: chunk_byte_def chunk_trailer_def chunk_trailer_cr_def Let_def)
next
  case (trailer_char c t b)
  let ?d = "dec\<lparr>meta_len := meta_len dec + 1, trailer_cr := False\<rparr>"
  have "c \<noteq> CR" using trailer_char.hyps(1) by auto
  then have "chunk_byte dec c = (?d, [])" using trailer_char by (simp add: chunk_byte_def chunk_trailer_def Let_def)
  with trailer_char.IH [of ?d] trailer_char.prems show ?case by (simp add: Let_def split: prod.split)
next
  case (trailer_line t)
  let ?d = "dec\<lparr>meta_len := meta_len dec + 1 + 1, trailer_cr := True\<rparr>"
  have "chunk_bytes dec [CR, LF] = (?d, [])"
    using trailer_line.prems by (simp add: chunk_byte_def chunk_trailer_def chunk_trailer_cr_def Let_def)
  with trailer_line.IH [of ?d] trailer_line.prems show ?case
    using chunk_bytes_appendI [of dec "[CR, LF]" ?d "[]" t] by fastforce
qed

lemma bytes_complete:
  "chunked_body w b \<Longrightarrow> at_size dec \<Longrightarrow> \<exists>dec'. chunk_bytes dec w = (dec', b) \<and> cstate dec' = KL_HTTP1_CHUNK_DONE"
proof (induction w b arbitrary: dec rule: chunked_body.induct)
  case (chunked_last z t)
  from bytes_size_line [OF chunked_last.hyps(1) chunked_last.prems] obtain d where d: "chunk_bytes dec z = (d, [])" "after_size 0 d" by blast
  then have "cstate d = KL_HTTP1_CHUNK_TRAILER" "trailer_cr d = True" "meta_len d + length t \<le> KL_HTTP1_CHUNK_TRAILER_MAX"
    using chunked_last.hyps(3) by (simp_all add: after_size_def)
  from bytes_trailer [OF chunked_last.hyps(2) this] chunk_bytes_appendI [OF d(1)] show ?case by fastforce
next
  case (chunked_chunk d z w b)
  from bytes_size_line [OF chunked_chunk.hyps(1) chunked_chunk.prems] obtain d1 where
    d1: "chunk_bytes dec z = (d1, [])" "after_size (length d) d1" by blast
  from bytes_data [OF d1(2) chunked_chunk.hyps(2)] obtain d2 where d2: "chunk_bytes d1 (d @ [CR, LF]) = (d2, d)" "at_size d2" by blast
  from chunked_chunk.IH [OF d2(2)] obtain d3 where d3: "chunk_bytes d2 w = (d3, b)" "cstate d3 = KL_HTTP1_CHUNK_DONE" by blast
  have "chunk_bytes dec (z @ (d @ [CR, LF]) @ w) = (d3, d @ b)"
    using chunk_bytes_appendI [OF d1(1) chunk_bytes_appendI [OF d2(1) d3(1)]] by simp
  with d3(2) show ?case by simp
qed

section \<open>Nothing else reaches the end\<close>

definition reaches_end :: "KlHttp1ChunkedDecoder \<Rightarrow> string \<Rightarrow> bool" where
  "reaches_end dec s \<longleftrightarrow> cstate (fst (chunk_bytes dec s)) = KL_HTTP1_CHUNK_DONE"

lemma reaches_end_Nil: "reaches_end dec [] \<longleftrightarrow> cstate dec = KL_HTTP1_CHUNK_DONE"
  by (simp add: reaches_end_def)

lemma reaches_end_Cons: "reaches_end dec (c # s) \<longleftrightarrow> reaches_end (fst (chunk_byte dec c)) s"
  by (simp add: reaches_end_def Let_def split: prod.split)

lemma reaches_end_error [simp]: "cstate dec = KL_HTTP1_CHUNK_ERROR \<Longrightarrow> \<not> reaches_end dec s"
  by (simp add: reaches_end_def chunk_bytes_over)

lemma bytes_Cons: "chunk_byte dec c = (dec', []) \<Longrightarrow> chunk_bytes dec (c # s) = chunk_bytes dec' s"
  by (simp add: Let_def split: prod.split)

lemma size_cr_sound:
  assumes "cstate dec = KL_HTTP1_CHUNK_SIZE_CR" and "reaches_end dec s"
  shows "\<exists>rest dec'. s = LF # rest \<and> after_size (size_accum dec) dec' \<and> chunk_bytes dec s = chunk_bytes dec' rest"
proof (cases s)
  case Nil
  with assms show ?thesis by (simp add: reaches_end_Nil)
next
  case (Cons c rest)
  have "c = LF" using assms Cons by (auto simp: reaches_end_Cons chunk_byte_def chunk_size_cr_def split: if_splits)
  with byte_size_cr [OF assms(1)] obtain d where "chunk_byte dec c = (d, [])" "after_size (size_accum dec) d"
    by (auto simp: Let_def split: prod.splits)
  with bytes_Cons [of dec c d rest] \<open>c = LF\<close> Cons show ?thesis by blast
qed

lemma ext_sound:
  "cstate dec = KL_HTTP1_CHUNK_EXT \<Longrightarrow> reaches_end dec s \<Longrightarrow> meta_len dec \<le> KL_HTTP1_CHUNK_EXT_MAX \<Longrightarrow>
     \<exists>es rest dec'. s = es @ [CR, LF] @ rest \<and> list_all chunk_field_byte es \<and> meta_len dec + length es \<le> KL_HTTP1_CHUNK_EXT_MAX \<and>
       after_size (size_accum dec) dec' \<and> chunk_bytes dec s = chunk_bytes dec' rest"
proof (induction s arbitrary: dec)
  case Nil
  then show ?case by (simp add: reaches_end_Nil)
next
  case (Cons c s)
  show ?case
  proof (cases "c = CR")
    case True
    let ?d = "dec\<lparr>cstate := KL_HTTP1_CHUNK_SIZE_CR\<rparr>"
    have b: "chunk_byte dec c = (?d, [])" using Cons.prems(1) True by (simp add: chunk_byte_def chunk_ext_def)
    with Cons.prems(2) size_cr_sound [of ?d s] bytes_Cons [OF b, of s] obtain rest dec' where
      "s = LF # rest" "after_size (size_accum dec) dec'" "chunk_bytes dec (c # s) = chunk_bytes dec' rest"
      by (auto simp: reaches_end_Cons)
    with True Cons.prems(3) show ?thesis by - (rule exI [of _ "[]"], rule exI [of _ rest], rule exI [of _ dec'], simp)
  next
    case False
    let ?d = "dec\<lparr>meta_len := meta_len dec + 1\<rparr>"
    have f: "chunk_field_byte c" "meta_len dec + 1 \<le> KL_HTTP1_CHUNK_EXT_MAX"
      using Cons.prems(1,2) False by (auto simp: reaches_end_Cons chunk_byte_def chunk_ext_def Let_def split: if_splits)
    with Cons.prems(1) False have b: "chunk_byte dec c = (?d, [])" by (simp add: chunk_byte_def chunk_ext_def Let_def)
    have "reaches_end ?d s" using Cons.prems(2) b by (simp add: reaches_end_Cons)
    from Cons.IH [OF _ this] Cons.prems(1) f(2) obtain es rest dec' where e: "s = es @ [CR, LF] @ rest" "list_all chunk_field_byte es"
      "meta_len dec + 1 + length es \<le> KL_HTTP1_CHUNK_EXT_MAX" "after_size (size_accum dec) dec'" "chunk_bytes ?d s = chunk_bytes dec' rest"
      by auto
    with f bytes_Cons [OF b, of s] show ?thesis by - (rule exI [of _ "c # es"], rule exI [of _ rest], rule exI [of _ dec'], simp)
  qed
qed

lemma size_sound:
  "cstate dec = KL_HTTP1_CHUNK_SIZE \<Longrightarrow> chunk_wf dec \<Longrightarrow> reaches_end dec s \<Longrightarrow>
     \<exists>hs ext rest dec'. s = hs @ ext @ [CR, LF] @ rest \<and> list_all is_hex hs \<and> 0 < size_digits dec + length hs \<and>
       size_digits dec + length hs \<le> 16 \<and> chunk_exts ext \<and> after_size (hex_from (size_accum dec) hs) dec' \<and>
       chunk_bytes dec s = chunk_bytes dec' rest"
proof (induction s arbitrary: dec)
  case Nil
  then show ?case by (simp add: reaches_end_Nil)
next
  case (Cons c s)
  show ?case
  proof (cases "chunk_digit c")
    case (Some d)
    let ?d = "dec\<lparr>size_accum := 16 * size_accum dec + d, size_digits := size_digits dec + 1\<rparr>"
    have l: "size_digits dec < 16"
      using Cons.prems(1,3) Some by (auto simp: reaches_end_Cons chunk_byte_def chunk_size_def split: if_splits)
    note h = chunk_size_hex [OF Some Cons.prems(2) l]
    have b: "chunk_byte dec c = (?d, [])" using h(1) Cons.prems(1) by (simp add: chunk_byte_def)
    have "reaches_end ?d s" using Cons.prems(3) b by (simp add: reaches_end_Cons)
    from Cons.IH [OF _ h(2) this] Cons.prems(1) obtain hs ext rest dec' where e: "s = hs @ ext @ [CR, LF] @ rest" "list_all is_hex hs"
      "size_digits dec + 1 + length hs \<le> 16" "chunk_exts ext" "after_size (hex_from (16 * size_accum dec + d) hs) dec'"
      "chunk_bytes ?d s = chunk_bytes dec' rest" by auto
    with Some bytes_Cons [OF b, of s] show ?thesis
      by - (rule exI [of _ "c # hs"], rule exI [of _ ext], rule exI [of _ rest], rule exI [of _ dec'], simp add: is_hex_def [of c])
  next
    case None
    have k: "0 < size_digits dec" "c = CHR '';'' \<or> c = CR"
      using Cons.prems(1,3) None by (auto simp: reaches_end_Cons chunk_byte_def chunk_size_def split: if_splits)
    have d16: "size_digits dec \<le> 16" using Cons.prems(2) by (simp add: chunk_wf_def)
    show ?thesis
    proof (cases "c = CR")
      case True
      let ?d = "dec\<lparr>cstate := KL_HTTP1_CHUNK_SIZE_CR\<rparr>"
      have b: "chunk_byte dec c = (?d, [])" using Cons.prems(1) True k by (simp add: chunk_byte_def chunk_size_def)
      with Cons.prems(3) size_cr_sound [of ?d s] bytes_Cons [OF b, of s] obtain rest dec' where
        "s = LF # rest" "after_size (size_accum dec) dec'" "chunk_bytes dec (c # s) = chunk_bytes dec' rest"
        by (auto simp: reaches_end_Cons)
      with True k d16 show ?thesis
        by - (rule exI [of _ "[]"], rule exI [of _ "[]"], rule exI [of _ rest], rule exI [of _ dec'], simp add: chunk_exts_def)
    next
      case False
      then have c: "c = CHR '';''" using k by simp
      let ?d = "dec\<lparr>cstate := KL_HTTP1_CHUNK_EXT, meta_len := 0\<rparr>"
      have b: "chunk_byte dec c = (?d, [])" using Cons.prems(1) c k by (simp add: chunk_byte_def chunk_size_def)
      have "reaches_end ?d s" using Cons.prems(3) b by (simp add: reaches_end_Cons)
      from ext_sound [OF _ this] obtain es rest dec' where e: "s = es @ [CR, LF] @ rest" "list_all chunk_field_byte es"
        "length es \<le> KL_HTTP1_CHUNK_EXT_MAX" "after_size (size_accum dec) dec'" "chunk_bytes ?d s = chunk_bytes dec' rest" by auto
      with c k d16 bytes_Cons [OF b, of s] show ?thesis
        by - (rule exI [of _ "[]"], rule exI [of _ "c # es"], rule exI [of _ rest], rule exI [of _ dec'], simp add: chunk_exts_def)
    qed
  qed
qed

lemma size_line_sound:
  assumes "at_size dec" and "reaches_end dec s"
  shows "\<exists>n z rest dec'. s = z @ rest \<and> size_line n z \<and> after_size n dec' \<and> chunk_bytes dec s = chunk_bytes dec' rest"
proof -
  have "cstate dec = KL_HTTP1_CHUNK_SIZE" "chunk_wf dec" using assms(1) by (simp_all add: at_size_def chunk_wf_def)
  from size_sound [OF this assms(2)] assms(1) obtain hs ext rest dec' where e: "s = (hs @ ext @ [CR, LF]) @ rest"
    "list_all is_hex hs" "hs \<noteq> []" "length hs \<le> 16" "chunk_exts ext" "after_size (hex_from 0 hs) dec'" "chunk_bytes dec s = chunk_bytes dec' rest"
    by (auto simp: at_size_def)
  then have "size_line (hex_from 0 hs) (hs @ ext @ [CR, LF])" by (auto simp: size_line_def)
  with e show ?thesis by blast
qed

lemma data_sound:
  assumes "after_size n dec" and "0 < n" and "reaches_end dec s"
  shows "\<exists>d rest dec'. s = d @ [CR, LF] @ rest \<and> length d = n \<and> at_size dec' \<and> chunk_bytes dec (d @ [CR, LF]) = (dec', d) \<and> reaches_end dec' rest"
proof -
  have c: "cstate dec = KL_HTTP1_CHUNK_DATA" "chunk_remaining dec = n" using assms(1,2) by (simp_all add: after_size_def)
  have "n \<le> length s"
  proof (rule ccontr)
    assume "\<not> n \<le> length s"
    then have "cstate (fst (chunk_bytes dec s)) = KL_HTTP1_CHUNK_DATA"
      using c chunk_bytes_data [of dec s] by (cases s) (simp_all add: Let_def)
    with assms(3) show False by (simp add: reaches_end_def)
  qed
  then obtain d s' where s: "s = d @ s'" "length d = n" by (metis append_take_drop_id length_take min_absorb2)
  let ?d = "dec\<lparr>total_body := (total_body dec + length d) mod 2 ^ 64, chunk_remaining := 0, cstate := KL_HTTP1_CHUNK_DATA_CR, trailer_cr := False\<rparr>"
  have b: "chunk_bytes dec d = (?d, d)" using chunk_bytes_data [of dec d] c s(2) assms(2) by (simp add: Let_def)
  then have r: "reaches_end ?d s'" using assms(3) by (simp add: reaches_end_def s(1) chunk_bytes_append Let_def split: prod.splits)
  have "\<exists>rest. s' = CR # LF # rest"
    using r by (cases s'; cases "tl s'") (auto simp: reaches_end_Nil reaches_end_Cons chunk_byte_def split: if_splits)
  then obtain rest where rest: "s' = CR # LF # rest" by blast
  let ?e = "dec\<lparr>total_body := (total_body dec + length d) mod 2 ^ 64, chunk_remaining := 0, trailer_cr := False, cstate := KL_HTTP1_CHUNK_SIZE\<rparr>"
  have "chunk_bytes ?d [CR, LF] = (?e, [])" by (simp add: chunk_byte_def)
  from chunk_bytes_appendI [OF b this] have "chunk_bytes dec (d @ [CR, LF]) = (?e, d)" by simp
  moreover have "reaches_end ?e rest" using r by (simp add: rest reaches_end_Cons chunk_byte_def)
  moreover have "at_size ?e" using assms(1) by (simp add: after_size_def at_size_def)
  ultimately show ?thesis using s rest by - (rule exI [of _ d], rule exI [of _ rest], rule exI [of _ ?e], simp)
qed

lemma trailer_sound:
  "cstate dec = KL_HTTP1_CHUNK_TRAILER \<Longrightarrow> reaches_end dec s \<Longrightarrow>
     \<exists>t junk. s = t @ junk \<and> trailer_lines (trailer_cr dec) t \<and> meta_len dec + length t \<le> KL_HTTP1_CHUNK_TRAILER_MAX \<and> snd (chunk_bytes dec s) = []"
proof (induction s arbitrary: dec rule: length_induct)
  case (1 s)
  then obtain c s' where s: "s = c # s'" by (cases s) (auto simp: reaches_end_Nil)
  have m: "meta_len dec + 1 \<le> KL_HTTP1_CHUNK_TRAILER_MAX"
    using 1 s by (auto simp: reaches_end_Cons chunk_byte_def chunk_trailer_def Let_def split: if_splits)
  show ?case
  proof (cases "c = CR")
    case False
    let ?d = "dec\<lparr>meta_len := meta_len dec + 1, trailer_cr := False\<rparr>"
    have f: "chunk_field_byte c"
      using 1 s False by (auto simp: reaches_end_Cons chunk_byte_def chunk_trailer_def Let_def split: if_splits)
    with 1 m False have b: "chunk_byte dec c = (?d, [])" by (simp add: chunk_byte_def chunk_trailer_def Let_def)
    have "reaches_end ?d s'" using 1 b s by (simp add: reaches_end_Cons)
    with 1(1) [rule_format, of s' ?d] s 1(2) obtain t junk where "s' = t @ junk" "trailer_lines False t"
      "meta_len dec + 1 + length t \<le> KL_HTTP1_CHUNK_TRAILER_MAX" "snd (chunk_bytes ?d s') = []" by auto
    with f s bytes_Cons [OF b, of s'] show ?thesis
      by - (rule exI [of _ "c # t"], rule exI [of _ junk], simp add: trailer_char)
  next
    case True
    let ?d = "dec\<lparr>meta_len := meta_len dec + 1, cstate := KL_HTTP1_CHUNK_TRAILER_CR\<rparr>"
    have b: "chunk_byte dec c = (?d, [])" using 1 True m by (simp add: chunk_byte_def chunk_trailer_def Let_def)
    have r: "reaches_end ?d s'" using 1 b s by (simp add: reaches_end_Cons)
    then obtain s2 where s2: "s' = LF # s2" and m2: "meta_len dec + 2 \<le> KL_HTTP1_CHUNK_TRAILER_MAX"
      by (cases s') (auto simp: reaches_end_Nil reaches_end_Cons chunk_byte_def chunk_trailer_cr_def Let_def split: if_splits)
    show ?thesis
    proof (cases "trailer_cr dec")
      case t: True
      let ?e = "dec\<lparr>meta_len := meta_len dec + 2, cstate := KL_HTTP1_CHUNK_DONE\<rparr>"
      have "chunk_byte ?d LF = (?e, [])" using t m2 by (simp add: chunk_byte_def chunk_trailer_cr_def Let_def)
      then have "snd (chunk_bytes dec s) = []" using b by (simp add: s s2 Let_def chunk_bytes_over)
      with t m2 True s s2 show ?thesis by - (rule exI [of _ "[CR, LF]"], rule exI [of _ s2], simp add: trailer_end)
    next
      case t: False
      let ?e = "dec\<lparr>meta_len := meta_len dec + 2, trailer_cr := True\<rparr>"
      have b2: "chunk_byte ?d LF = (?e, [])" using t m2 1(2) by (simp add: chunk_byte_def chunk_trailer_cr_def Let_def)
      have "reaches_end ?e s2" using r b2 by (simp add: s2 reaches_end_Cons)
      with 1(1) [rule_format, of s2 ?e] s s2 1(2) obtain t junk where "s2 = t @ junk" "trailer_lines True t"
        "meta_len dec + 2 + length t \<le> KL_HTTP1_CHUNK_TRAILER_MAX" "snd (chunk_bytes ?e s2) = []" by auto
      with \<open>\<not> trailer_cr dec\<close> s s2 True bytes_Cons [OF b, of s'] bytes_Cons [OF b2, of s2] show ?thesis
        by - (rule exI [of _ "CR # LF # t"], rule exI [of _ junk], simp add: trailer_line)
    qed
  qed
qed

lemma bytes_sound:
  "at_size dec \<Longrightarrow> reaches_end dec s \<Longrightarrow> \<exists>w junk. s = w @ junk \<and> chunked_body w (snd (chunk_bytes dec s))"
proof (induction s arbitrary: dec rule: length_induct)
  case (1 s)
  from size_line_sound [OF 1(2,3)] obtain n z rest d where z: "s = z @ rest" "size_line n z" "after_size n d"
    "chunk_bytes dec s = chunk_bytes d rest" by blast
  have r: "reaches_end d rest" using 1(3) z(4) by (simp add: reaches_end_def)
  show ?case
  proof (cases "n = 0")
    case True
    then have "cstate d = KL_HTTP1_CHUNK_TRAILER" "trailer_cr d = True" "meta_len d = 0" using z(3) by (simp_all add: after_size_def)
    with trailer_sound [of d rest] r obtain t junk where "rest = t @ junk" "trailer_lines True t" "length t \<le> KL_HTTP1_CHUNK_TRAILER_MAX"
      "snd (chunk_bytes d rest) = []" by auto
    with z True show ?thesis by - (rule exI [of _ "z @ t"], rule exI [of _ junk], simp add: chunked_last)
  next
    case False
    from data_sound [OF z(3) _ r] False obtain x rest2 d2 where x: "rest = x @ [CR, LF] @ rest2" "length x = n" "at_size d2"
      "chunk_bytes d (x @ [CR, LF]) = (d2, x)" "reaches_end d2 rest2" by auto
    have "length rest2 < length s" using z(1) x(1) by simp
    with 1(1) x(3,5) obtain w junk where w: "rest2 = w @ junk" "chunked_body w (snd (chunk_bytes d2 rest2))" by blast
    have "snd (chunk_bytes dec s) = x @ snd (chunk_bytes d2 rest2)"
      unfolding z(4) x(1) append_assoc [symmetric] chunk_bytes_append [of d "x @ [CR, LF]"] x(4) by (simp add: Let_def split: prod.split)
    with w z x False show ?thesis
      by - (rule exI [of _ "z @ x @ [CR, LF] @ w"], rule exI [of _ junk], auto intro!: chunked_chunk [simplified])
  qed
qed

section \<open>Properties\<close>

lemma at_size_init: "at_size kl_http1_chunked_init"
  by (simp add: at_size_def kl_http1_chunked_init_def)

lemma bytes_grammar:
  "cstate (fst (chunk_bytes kl_http1_chunked_init s)) = KL_HTTP1_CHUNK_DONE \<and> snd (chunk_bytes kl_http1_chunked_init s) = b \<longleftrightarrow>
     (\<exists>w junk. s = w @ junk \<and> chunked_body w b)"
proof
  assume "cstate (fst (chunk_bytes kl_http1_chunked_init s)) = KL_HTTP1_CHUNK_DONE \<and> snd (chunk_bytes kl_http1_chunked_init s) = b"
  then show "\<exists>w junk. s = w @ junk \<and> chunked_body w b"
    using bytes_sound [OF at_size_init, of s] by (auto simp: reaches_end_def)
next
  assume "\<exists>w junk. s = w @ junk \<and> chunked_body w b"
  then obtain w junk where s: "s = w @ junk" and "chunked_body w b" by blast
  from bytes_complete [OF this(2) at_size_init] obtain d where
    d: "chunk_bytes kl_http1_chunked_init w = (d, b)" "cstate d = KL_HTTP1_CHUNK_DONE" by blast
  moreover have "chunk_bytes d junk = (d, [])" using d(2) by (simp add: chunk_bytes_over)
  ultimately show "cstate (fst (chunk_bytes kl_http1_chunked_init s)) = KL_HTTP1_CHUNK_DONE \<and> snd (chunk_bytes kl_http1_chunked_init s) = b"
    using chunk_bytes_appendI [OF d(1), of junk d "[]"] s by simp
qed

abbreviation buffer_reader :: "KlHttpBufReader reader" where
  "buffer_reader \<equiv> Some (buf_on_data (\<lambda>_. True))"

text \<open>
  C8. How a chunked body is cut into reads does not matter. Feeding it to the decoder and the buffer reader
  in any pieces gives the same result as feeding it at once: the same return value (0 for an incomplete
  body, 1 for the end, -1 for malformed framing or a body over the reader's limit), and unless it is -1
  the same decoder state and the same body.
\<close>

theorem chunked_fragments:
  assumes "buf_inv br"
    and "chunked_feed buffer_reader kl_http1_chunked_init fs br = (k, dec, br1)"
    and "kl_http1_chunked_decode buffer_reader kl_http1_chunked_init (concat fs) br = (k', dec', br2)"
  shows "k = k' \<and> (k \<noteq> -1 \<longrightarrow> dec = dec' \<and> br_data br1 = br_data br2)"
proof -
  note f = bbr.feed_code [OF assms(2) chunk_ready_init assms(1)]
  note c = bbr.decode_code [OF assms(3) chunk_ready_init assms(1)]
  have "k = k'" using f c by argo
  with f br.decode_ok [OF assms(3) chunk_ready_init assms(1)] show ?thesis by simp
qed

lemmas chunk_eval = chunk_iter_def chunk_data_def chunk_data_cr_def chunk_size_def chunk_size_cr_def chunk_ext_def
  chunk_trailer_def chunk_trailer_cr_def chunk_digit_def chunk_field_byte_def kl_http1_chunked_init_def buf_on_data_def
  KL_HTTP1_CHUNK_TRAILER_MAX_def KL_HTTP1_CHUNK_EXT_MAX_def SIZE_MAX_def Let_def

definition body_example :: KlHttpBufReader where
  "body_example = \<lparr>br_data = [], br_cap = 64, br_max_size = 64\<rparr>"

lemma body_example_inv: "buf_inv body_example"
  by (simp add: body_example_def buf_inv_def)

definition frags_example :: "string list" where
  "frags_example = [[CHR ''2'', CR, LF, CHR ''a''], [CHR ''b'', CR], [LF, CHR ''0'', CR, LF, CR, LF]]"

definition end_example :: KlHttp1ChunkedDecoder where
  "end_example = \<lparr>cstate = KL_HTTP1_CHUNK_DONE, chunk_remaining = 0, total_body = 2, size_accum = 0, size_digits = 0,
     trailer_cr = True, meta_len = 2\<rparr>"

lemma body_example_decode:
  "kl_http1_chunked_decode buffer_reader kl_http1_chunked_init (concat frags_example) body_example
     = (1, end_example, body_example\<lparr>br_data := ''ab''\<rparr>)"
  by (simp add: chunk_eval body_example_def frags_example_def end_example_def)

lemma body_example_feed:
  "chunked_feed buffer_reader kl_http1_chunked_init frags_example body_example
     = (1, end_example, body_example\<lparr>br_data := ''ab''\<rparr>)"
  by (simp add: chunk_eval body_example_def frags_example_def end_example_def)

theorem chunked_fragments_witness:
  "\<exists>k dec br1 k' dec' br2. chunked_feed buffer_reader kl_http1_chunked_init frags_example body_example = (k, dec, br1) \<and>
     kl_http1_chunked_decode buffer_reader kl_http1_chunked_init (concat frags_example) body_example = (k', dec', br2) \<and>
     k = 1 \<and> k = k' \<and> dec = dec' \<and> br_data br1 = br_data br2"
  using chunked_fragments [OF body_example_inv body_example_feed body_example_decode] body_example_feed body_example_decode by simp

text \<open>
  C3. The decoder accepts exactly the chunked bodies of the grammar and delivers the body the grammar gives
  them, however the input is cut into reads: it reports the end of the body with \<open>b\<close> appended to the
  reader exactly when the input starts with a chunked encoding of \<open>b\<close>. In particular a bare CR or LF, a
  control byte in an extension or trailer, an empty or 17-digit size, or an oversized extension or
  trailer section never frames a body, and what follows the body is left alone.
\<close>

theorem chunked_accepts_grammar:
  assumes "buf_inv br" and "br_max_size br = 0 \<or> length (br_data br) + length b \<le> br_max_size br"
    and "chunked_feed buffer_reader kl_http1_chunked_init fs br = (k, dec, br')"
  shows "k = 1 \<and> br_data br' = br_data br @ b \<longleftrightarrow> (\<exists>w junk. concat fs = w @ junk \<and> chunked_body w b)"
proof -
  let ?B = "chunk_bytes kl_http1_chunked_init (concat fs)"
  note f = bbr.feed_code [OF assms(3) chunk_ready_init assms(1)]
  have "k = 1 \<and> br_data br' = br_data br @ b \<longleftrightarrow> cstate (fst ?B) = KL_HTTP1_CHUNK_DONE \<and> snd ?B = b"
  proof
    assume k: "k = 1 \<and> br_data br' = br_data br @ b"
    with f have "chunk_code (fst ?B) = 1" by (auto split: if_splits)
    with f k show "cstate (fst ?B) = KL_HTTP1_CHUNK_DONE \<and> snd ?B = b" by (simp add: chunk_code_iff)
  next
    assume b: "cstate (fst ?B) = KL_HTTP1_CHUNK_DONE \<and> snd ?B = b"
    then have "buf_accepts br (length (snd ?B))" using assms(2) by (simp add: buf_accepts_def)
    with f b show "k = 1 \<and> br_data br' = br_data br @ b" by simp
  qed
  with bytes_grammar show ?thesis by simp
qed

theorem chunked_accepts_grammar_witness:
  "buf_inv body_example \<and> (\<exists>w junk. concat frags_example = w @ junk \<and> chunked_body w ''ab'')"
  using chunked_accepts_grammar [OF body_example_inv _ body_example_feed, of "''ab''"] body_example_inv
  by (simp add: body_example_def)

end
