(* ===== verification/Utf8.thy ===== *)
theory Utf8
  imports Keel_Prelude
begin

text \<open>
  The UTF-8 validator of \<open>src/utf8.h\<close>, a table-driven automaton that the WebSocket code runs over text
  messages as they arrive. It is proved to accept exactly the encodings of sequences of Unicode scalar
  values (RFC 3629: no overlong form, no surrogate, nothing above U+10FFFF), whatever the pieces it is fed.

  A table is a list; the automaton state is the \<open>uint32_t\<close> as a number, since it only ever indexes them.
\<close>

section \<open>The validator\<close>

definition KL_UTF8_ACCEPT :: nat where "KL_UTF8_ACCEPT = 0"

definition KL_UTF8_REJECT :: nat where "KL_UTF8_REJECT = 12"

definition kl_utf8_class :: "nat list" where
  "kl_utf8_class =
    [0,0,0,0,0,0,0,0,0,0,0,0,0,0,0,0,  0,0,0,0,0,0,0,0,0,0,0,0,0,0,0,0,
     0,0,0,0,0,0,0,0,0,0,0,0,0,0,0,0,  0,0,0,0,0,0,0,0,0,0,0,0,0,0,0,0,
     0,0,0,0,0,0,0,0,0,0,0,0,0,0,0,0,  0,0,0,0,0,0,0,0,0,0,0,0,0,0,0,0,
     0,0,0,0,0,0,0,0,0,0,0,0,0,0,0,0,  0,0,0,0,0,0,0,0,0,0,0,0,0,0,0,0,
     1,1,1,1,1,1,1,1,1,1,1,1,1,1,1,1,  9,9,9,9,9,9,9,9,9,9,9,9,9,9,9,9,
     7,7,7,7,7,7,7,7,7,7,7,7,7,7,7,7,  7,7,7,7,7,7,7,7,7,7,7,7,7,7,7,7,
     8,8,2,2,2,2,2,2,2,2,2,2,2,2,2,2,  2,2,2,2,2,2,2,2,2,2,2,2,2,2,2,2,
    10,3,3,3,3,3,3,3,3,3,3,3,3,4,3,3, 11,6,6,6,5,8,8,8,8,8,8,8,8,8,8,8]"

definition kl_utf8_trans :: "nat list" where
  "kl_utf8_trans =
    [ 0,12,24,36,60,96,84,12,12,12,48,72, 12,12,12,12,12,12,12,12,12,12,12,12,
     12, 0,12,12,12,12,12, 0,12, 0,12,12, 12,24,12,12,12,12,12,24,12,24,12,12,
     12,12,12,12,12,12,12,24,12,12,12,12, 12,24,12,12,12,12,12,12,12,24,12,12,
     12,12,12,12,12,12,12,36,12,36,12,12, 12,36,12,12,12,12,12,36,12,36,12,12,
     12,36,12,12,12,12,12,12,12,12,12,12]"

definition utf8_step :: "nat \<Rightarrow> byte \<Rightarrow> nat" where
  "utf8_step state b = kl_utf8_trans ! (state + kl_utf8_class ! unat b)"

text \<open>\<open>kl_utf8_validate\<close>: the value returned and \<open>*state\<close>, which are equal.\<close>

fun kl_utf8_validate :: "nat \<Rightarrow> byte list \<Rightarrow> nat" where
  "kl_utf8_validate state [] = state"
| "kl_utf8_validate state (b # bs) =
     (let s = utf8_step state b in if s = KL_UTF8_REJECT then KL_UTF8_REJECT else kl_utf8_validate s bs)"

section \<open>Reference\<close>

definition scalar :: "nat \<Rightarrow> bool" where
  "scalar c \<longleftrightarrow> c < 0xD800 \<or> 0xE000 \<le> c \<and> c \<le> 0x10FFFF"

definition utf8_encode :: "nat \<Rightarrow> nat list" where
  "utf8_encode c =
     (if c < 0x80 then [c]
      else if c < 0x800 then [0xC0 + c div 64, 0x80 + c mod 64]
      else if c < 0x10000 then [0xE0 + c div 4096, 0x80 + c div 64 mod 64, 0x80 + c mod 64]
      else [0xF0 + c div 262144, 0x80 + c div 4096 mod 64, 0x80 + c div 64 mod 64, 0x80 + c mod 64])"

section \<open>The automaton without its tables\<close>

text \<open>The table states 24, 36, 48, 60, 72, 84 and 96 wait for continuation bytes; the four states 48, 60, 72
  and 96, after the lead bytes E0, ED, F0 and F4, allow only part of the range for the first of them.\<close>

definition cont :: "nat \<Rightarrow> nat \<Rightarrow> nat \<Rightarrow> nat \<Rightarrow> nat" where
  "cont lo hi next n = (if lo \<le> n \<and> n \<le> hi then next else 12)"

definition lead :: "nat \<Rightarrow> nat" where
  "lead n = (if n < 128 then 0 else if n < 194 then 12 else if n < 224 then 24 else if n = 224 then 48
     else if n = 237 then 60 else if n < 240 then 36 else if n = 240 then 72 else if n < 244 then 84
     else if n = 244 then 96 else 12)"

fun nstep :: "nat \<Rightarrow> nat \<Rightarrow> nat" where
  "nstep s n =
     (if s = 0 then lead n else if s = 24 then cont 128 191 0 n else if s = 36 then cont 128 191 24 n
      else if s = 48 then cont 160 191 24 n else if s = 60 then cont 128 159 24 n
      else if s = 72 then cont 144 191 36 n else if s = 84 then cont 128 191 36 n
      else if s = 96 then cont 128 143 36 n else 12)"

abbreviation utf8_states :: "nat set" where "utf8_states \<equiv> {0, 12, 24, 36, 48, 60, 72, 84, 96}"

lemma utf8_class_eq:
  assumes "n < 256"
  shows "kl_utf8_class ! n =
     (if n < 128 then 0 else if n < 144 then 1 else if n < 160 then 9 else if n < 192 then 7 else if n < 194 then 8
      else if n < 224 then 2 else if n = 224 then 10 else if n = 237 then 4 else if n < 240 then 3 else if n = 240 then 11
      else if n < 244 then 6 else if n = 244 then 5 else 8)"
proof -
  have "list_all (\<lambda>n. kl_utf8_class ! n =
     (if n < 128 then 0 else if n < 144 then 1 else if n < 160 then 9 else if n < 192 then 7 else if n < 194 then 8
      else if n < 224 then 2 else if n = 224 then 10 else if n = 237 then 4 else if n < 240 then 3 else if n = 240 then 11
      else if n < 244 then 6 else if n = 244 then 5 else 8)) [0..<256]" by code_simp
  then show ?thesis using assms by (simp only: list_all_iff) simp
qed

lemma utf8_step_nstep:
  assumes "s \<in> utf8_states"
  shows "utf8_step s b = nstep s (unat b)"
proof -
  have "unat b < 256" using unsigned_less [of b, where ?'a = nat] by simp
  from assms show ?thesis
    unfolding utf8_step_def utf8_class_eq [OF \<open>unat b < 256\<close>]
    by (elim insertE emptyE) (simp_all add: kl_utf8_trans_def cont_def lead_def)
qed

lemma nstep_states: "s \<in> utf8_states \<Longrightarrow> nstep s n \<in> utf8_states"
  by (elim insertE emptyE) (simp_all add: cont_def lead_def)

declare nstep.simps [simp del]

fun nvalid :: "nat \<Rightarrow> nat list \<Rightarrow> nat" where
  "nvalid s [] = s"
| "nvalid s (n # ns) = nvalid (nstep s n) ns"

lemma nvalid_reject [simp]: "nvalid 12 ns = 12"
  by (induction ns) (simp_all add: nstep.simps)

lemma nvalid_append: "nvalid s (xs @ ys) = nvalid (nvalid s xs) ys"
  by (induction xs arbitrary: s) simp_all

lemma nvalid_states: "s \<in> utf8_states \<Longrightarrow> nvalid s ns \<in> utf8_states"
  by (induction ns arbitrary: s) (simp_all only: nvalid.simps nstep_states)

lemma kl_utf8_validate_nvalid: "s \<in> utf8_states \<Longrightarrow> kl_utf8_validate s bs = nvalid s (map unat bs)"
proof (induction bs arbitrary: s)
  case (Cons b bs)
  note st = utf8_step_nstep [OF Cons.prems] nstep_states [OF Cons.prems, of "unat b"]
  with Cons.IH [OF st(2)] show ?case by (simp add: Let_def KL_UTF8_REJECT_def)
qed simp

section \<open>Lemmas: one character\<close>

lemma digits64:
  fixes c :: nat
  shows "c = 4096 * (c div 4096) + 64 * (c div 64 mod 64) + c mod 64"
    and "c div 4096 = 64 * (c div 262144) + c div 4096 mod 64"
proof -
  have e: "c div 4096 = c div 64 div 64" "c div 262144 = c div 4096 div 64" by (simp_all flip: div_mult2_eq)
  show "c div 4096 = 64 * (c div 262144) + c div 4096 mod 64" unfolding e(2) by simp
  have "c div 64 = 64 * (c div 4096) + c div 64 mod 64" unfolding e(1) by simp
  moreover have "c = 64 * (c div 64) + c mod 64" by simp
  ultimately show "c = 4096 * (c div 4096) + 64 * (c div 64 mod 64) + c mod 64" by linarith
qed

lemma cont_in: "lo \<le> n \<Longrightarrow> n \<le> hi \<Longrightarrow> cont lo hi s n = s"
  by (simp add: cont_def)

lemma utf8_encode_accepted:
  assumes "scalar c"
  shows "nvalid 0 (utf8_encode c) = 0"
proof -
  define x y z w where "x = c mod 64" and "y = c div 64 mod 64" and "z = c div 4096 mod 64" and "w = c div 262144"
  have m: "x < 64" "y < 64" "z < 64" by (simp_all add: x_def y_def z_def)
  have c: "c = 4096 * (c div 4096) + 64 * y + x" "c div 4096 = 64 * w + z"
    using digits64 [of c] by (simp_all add: x_def y_def z_def w_def)
  consider "c < 128" | "128 \<le> c" "c < 2048" | "2048 \<le> c" "c < 65536" | "65536 \<le> c" by linarith
  then show ?thesis
  proof cases
    case 1
    then show ?thesis by (simp add: utf8_encode_def nstep.simps lead_def)
  next
    case 2
    then have "2 \<le> c div 64" "c div 64 < 32" by simp_all
    with 2 m(1) show ?thesis by (simp add: utf8_encode_def nstep.simps lead_def cont_def x_def)
  next
    case 3
    define a where "a = c div 4096"
    have a: "c = 4096 * a + 64 * y + x" "a < 16" using c 3 by (simp_all add: a_def)
    have e: "utf8_encode c = [224 + a, 128 + y, 128 + x]" using 3 by (simp add: utf8_encode_def a_def x_def y_def)
    consider "a = 0" | "a = 13" | "0 < a" "a \<noteq> 13" by blast
    then show ?thesis
    proof cases
      case 1
      then have "32 \<le> y" using a 3 m by linarith
      with 1 m show ?thesis by (simp add: e nstep.simps lead_def cont_in)
    next
      case 2
      then have "y < 32" using a assms m unfolding scalar_def by linarith
      with 2 m show ?thesis by (simp add: e nstep.simps lead_def cont_in)
    next
      case 3
      with a(2) m show ?thesis by (simp add: e nstep.simps lead_def cont_in)
    qed
  next
    case 4
    have a: "c = 262144 * w + 4096 * z + 64 * y + x" using c by linarith
    have "c \<le> 1114111" using assms 4 by (auto simp: scalar_def)
    then have w: "w \<le> 4" using a by linarith
    have e: "utf8_encode c = [240 + w, 128 + z, 128 + y, 128 + x]" using 4 by (simp add: utf8_encode_def x_def y_def z_def w_def)
    consider "w = 0" | "w = 4" | "0 < w" "w < 4" using w by linarith
    then show ?thesis
    proof cases
      case 1
      then have "16 \<le> z" using a 4 m by linarith
      with 1 m show ?thesis by (simp add: e nstep.simps lead_def cont_in)
    next
      case 2
      then have "z < 16" using a assms m unfolding scalar_def by linarith
      with 2 m show ?thesis by (simp add: e nstep.simps lead_def cont_in)
    next
      case 3
      with m show ?thesis by (simp add: e nstep.simps lead_def cont_in)
    qed
  qed
qed

lemma nvalid_waits:
  assumes "nvalid s ns = 0" and "\<And>n. nstep s n = cont lo hi next n" and "s \<noteq> 0"
  shows "\<exists>m r. ns = m # r \<and> lo \<le> m \<and> m \<le> hi \<and> nvalid next r = 0"
proof (cases ns)
  case Nil
  with assms show ?thesis by simp
next
  case (Cons m r)
  with assms(1) have "nvalid (cont lo hi next m) r = 0" by (simp add: assms(2))
  with Cons show ?thesis by (cases "lo \<le> m \<and> m \<le> hi") (auto simp: cont_def)
qed

lemma nvalid_waits1: "nvalid 24 ns = 0 \<Longrightarrow> \<exists>m r. ns = m # r \<and> 128 \<le> m \<and> m \<le> 191 \<and> nvalid 0 r = 0"
  by (rule nvalid_waits [of 24]) (simp_all add: nstep.simps)

lemma nvalid_waits2:
  assumes "nvalid s ns = 0" and "\<And>n. nstep s n = cont lo hi 24 n" and "s \<noteq> 0"
  shows "\<exists>m k r. ns = m # k # r \<and> lo \<le> m \<and> m \<le> hi \<and> 128 \<le> k \<and> k \<le> 191 \<and> nvalid 0 r = 0"
  using nvalid_waits [OF assms] nvalid_waits1 by blast

lemma nvalid_waits3:
  assumes "nvalid s ns = 0" and "\<And>n. nstep s n = cont lo hi 36 n" and "s \<noteq> 0"
  shows "\<exists>m k l r. ns = m # k # l # r \<and> lo \<le> m \<and> m \<le> hi \<and> 128 \<le> k \<and> k \<le> 191 \<and> 128 \<le> l \<and> l \<le> 191 \<and> nvalid 0 r = 0"
proof -
  have "nstep 36 n = cont 128 191 24 n" for n by (simp add: nstep.simps)
  with nvalid_waits [OF assms] nvalid_waits2 [of 36 _ 128 191] show ?thesis by fastforce
qed

lemma div_mod64: "x < 64 \<Longrightarrow> (64 * q + x) div 64 = q \<and> (64 * q + x) mod 64 = (x :: nat)"
  by simp

lemma utf8_encode2: "2 \<le> a \<Longrightarrow> a < 32 \<Longrightarrow> x < 64 \<Longrightarrow> utf8_encode (64 * a + x) = [192 + a, 128 + x]"
  by (simp add: utf8_encode_def)

lemma utf8_encode3:
  assumes "a < 16" and "y < 64" and "x < 64" and "a = 0 \<Longrightarrow> 32 \<le> y"
  shows "utf8_encode (4096 * a + 64 * y + x) = [224 + a, 128 + y, 128 + x]"
proof -
  let ?c = "4096 * a + 64 * y + x"
  have c: "?c = 64 * (64 * a + y) + x" by simp
  have d: "?c mod 64 = x" "?c div 64 = 64 * a + y" unfolding c using div_mod64 [OF assms(3)] by blast+
  have "?c div 4096 = ?c div 64 div 64" by (simp flip: div_mult2_eq)
  then have "?c div 4096 = a" "?c div 64 mod 64 = y" unfolding d(2) using div_mod64 [OF assms(2)] by simp_all
  moreover have "2048 \<le> ?c" "?c < 65536" using assms by (cases "a = 0"; simp)+
  ultimately show ?thesis using d(1) by (simp add: utf8_encode_def)
qed

lemma utf8_encode4:
  assumes "w \<le> 4" and "z < 64" and "y < 64" and "x < 64" and "w = 0 \<Longrightarrow> 16 \<le> z"
  shows "utf8_encode (262144 * w + 4096 * z + 64 * y + x) = [240 + w, 128 + z, 128 + y, 128 + x]"
proof -
  let ?c = "262144 * w + 4096 * z + 64 * y + x"
  have c: "?c = 64 * (64 * (64 * w + z) + y) + x" by simp
  have d: "?c mod 64 = x" "?c div 64 = 64 * (64 * w + z) + y" unfolding c using div_mod64 [OF assms(4)] by blast+
  have e: "?c div 64 mod 64 = y" "?c div 64 div 64 = 64 * w + z" unfolding d(2) using div_mod64 [OF assms(3)] by blast+
  have "?c div 4096 = ?c div 64 div 64" "?c div 262144 = ?c div 64 div 64 div 64" by (simp_all flip: div_mult2_eq)
  then have "?c div 4096 mod 64 = z" "?c div 262144 = w" unfolding e(2) using div_mod64 [OF assms(2)] by simp_all
  moreover have "65536 \<le> ?c" using assms by (cases "w = 0") simp_all
  ultimately show ?thesis using d(1) e(1) by (simp add: utf8_encode_def)
qed

text \<open>The automaton accepts a non-empty input only if it starts with the encoding of a scalar value.\<close>

lemma nvalid_first:
  assumes "nvalid 0 ns = 0" and "ns \<noteq> []"
  shows "\<exists>c r. scalar c \<and> ns = utf8_encode c @ r \<and> nvalid 0 r = 0"
proof -
  from assms obtain n t where ns: "ns = n # t" and t: "nvalid (lead n) t = 0" by (cases ns) (auto simp: nstep.simps)
  have three: "\<exists>c r. scalar c \<and> ns = utf8_encode c @ r \<and> nvalid 0 r = 0"
    if "t = m # k # r" "nvalid 0 r = 0" "224 \<le> n" "n < 240" "128 \<le> m" "m \<le> 191" "128 \<le> k" "k \<le> 191"
      "n = 224 \<Longrightarrow> 160 \<le> m" "n = 237 \<Longrightarrow> m \<le> 159" for m k r
  proof -
    let ?c = "4096 * (n - 224) + 64 * (m - 128) + (k - 128)"
    have "utf8_encode ?c = [224 + (n - 224), 128 + (m - 128), 128 + (k - 128)]"
      using that by (intro utf8_encode3) auto
    then have "ns = utf8_encode ?c @ r" using that ns by simp
    moreover have "scalar ?c"
    proof (cases "n < 237")
      case True
      then have "?c < 55296" using that by linarith
      then show ?thesis by (simp add: scalar_def)
    next
      case False
      then show ?thesis using that unfolding scalar_def by (cases "n = 237") linarith+
    qed
    ultimately show ?thesis using that by blast
  qed
  have four: "\<exists>c r. scalar c \<and> ns = utf8_encode c @ r \<and> nvalid 0 r = 0"
    if "t = m # k # l # r" "nvalid 0 r = 0" "240 \<le> n" "n \<le> 244" "128 \<le> m" "m \<le> 191" "128 \<le> k" "k \<le> 191" "128 \<le> l" "l \<le> 191"
      "n = 240 \<Longrightarrow> 144 \<le> m" "n = 244 \<Longrightarrow> m \<le> 143" for m k l r
  proof -
    let ?c = "262144 * (n - 240) + 4096 * (m - 128) + 64 * (k - 128) + (l - 128)"
    have "utf8_encode ?c = [240 + (n - 240), 128 + (m - 128), 128 + (k - 128), 128 + (l - 128)]"
      using that by (intro utf8_encode4) auto
    then have "ns = utf8_encode ?c @ r" using that ns by simp
    moreover have "57344 \<le> ?c" using that by (cases "n = 240") linarith+
    moreover have "?c \<le> 1114111" using that by (cases "n = 244") linarith+
    ultimately show ?thesis using that unfolding scalar_def by blast
  qed
  consider "n < 128" | "194 \<le> n" "n < 224" | "224 \<le> n" "n < 240" | "240 \<le> n" "n \<le> 244" | "lead n = 12"
    by (fastforce simp: lead_def)
  then show ?thesis
  proof cases
    case 1
    with t ns show ?thesis by (intro exI [of _ n] exI [of _ t]) (simp add: lead_def scalar_def utf8_encode_def)
  next
    case 2
    then have "nvalid 24 t = 0" using t by (simp add: lead_def)
    from nvalid_waits1 [OF this] obtain m r where m: "t = m # r" "128 \<le> m" "m \<le> 191" "nvalid 0 r = 0" by blast
    let ?c = "64 * (n - 192) + (m - 128)"
    have "utf8_encode ?c = [192 + (n - 192), 128 + (m - 128)]" using 2 m by (intro utf8_encode2) auto
    moreover have "scalar ?c" using 2 m unfolding scalar_def by linarith
    ultimately show ?thesis using 2 m ns by (intro exI [of _ ?c] exI [of _ r]) simp
  next
    case 3
    then have l: "lead n = (if n = 224 then 48 else if n = 237 then 60 else 36)" by (simp add: lead_def)
    consider "n = 224" "nvalid 48 t = 0" | "n = 237" "nvalid 60 t = 0" | "n \<noteq> 224" "n \<noteq> 237" "nvalid 36 t = 0"
      using t unfolding l by (auto split: if_splits)
    then show ?thesis
    proof cases
      case 1
      with nvalid_waits2 [of 48 t 160 191] three show ?thesis by (auto simp: nstep.simps)
    next
      case 2
      with nvalid_waits2 [of 60 t 128 159] three show ?thesis by (fastforce simp: nstep.simps)
    next
      case b: 3
      with nvalid_waits2 [of 36 t 128 191] three 3 show ?thesis by (auto simp: nstep.simps)
    qed
  next
    case 4
    then have l: "lead n = (if n = 240 then 72 else if n = 244 then 96 else 84)" by (simp add: lead_def)
    consider "n = 240" "nvalid 72 t = 0" | "n = 244" "nvalid 96 t = 0" | "n \<noteq> 240" "n \<noteq> 244" "nvalid 84 t = 0"
      using t unfolding l by (auto split: if_splits)
    then show ?thesis
    proof cases
      case 1
      with nvalid_waits3 [of 72 t 144 191] four show ?thesis by (auto simp: nstep.simps)
    next
      case 2
      with nvalid_waits3 [of 96 t 128 143] four show ?thesis by (fastforce simp: nstep.simps)
    next
      case b: 3
      with nvalid_waits3 [of 84 t 128 191] four 4 show ?thesis by (auto simp: nstep.simps)
    qed
  next
    case 5
    with t show ?thesis by simp
  qed
qed

lemma utf8_encode_ne [simp]: "utf8_encode c \<noteq> []"
  by (simp add: utf8_encode_def)

lemma nvalid_iff: "nvalid 0 ns = 0 \<longleftrightarrow> (\<exists>cs. list_all scalar cs \<and> ns = concat (map utf8_encode cs))"
proof
  show "nvalid 0 ns = 0 \<Longrightarrow> \<exists>cs. list_all scalar cs \<and> ns = concat (map utf8_encode cs)"
  proof (induction ns rule: length_induct)
    case (1 ns)
    show ?case
    proof (cases "ns = []")
      case True
      then show ?thesis by (intro exI [of _ "[]"]) simp
    next
      case False
      from nvalid_first [OF 1(2) False] obtain c r where c: "scalar c" "ns = utf8_encode c @ r" "nvalid 0 r = 0" by blast
      then have "length r < length ns" by simp
      with 1(1) c(3) obtain cs where "list_all scalar cs" "r = concat (map utf8_encode cs)" by blast
      with c show ?thesis by (intro exI [of _ "c # cs"]) simp
    qed
  qed
  assume "\<exists>cs. list_all scalar cs \<and> ns = concat (map utf8_encode cs)"
  then obtain cs where "list_all scalar cs" and ns: "ns = concat (map utf8_encode cs)" by blast
  then have "nvalid 0 (concat (map utf8_encode cs)) = 0"
    by (induction cs arbitrary: ns) (simp_all add: nvalid_append utf8_encode_accepted)
  with ns show "nvalid 0 ns = 0" by simp
qed

lemma foldl_validate: "s \<in> utf8_states \<Longrightarrow> foldl kl_utf8_validate s fs = nvalid s (map unat (concat fs))"
proof (induction fs arbitrary: s)
  case (Cons f fs)
  with nvalid_states [OF Cons.prems] show ?case by (simp add: kl_utf8_validate_nvalid nvalid_append)
qed simp

section \<open>Properties\<close>

text \<open>
  C12. The validator, run over a text message in the pieces in which it arrives with its state carried along,
  ends in the accepting state exactly when the whole message is the UTF-8 encoding of some sequence of
  Unicode scalar values.
\<close>

theorem kl_utf8_validate_iff:
  "foldl kl_utf8_validate KL_UTF8_ACCEPT fs = KL_UTF8_ACCEPT \<longleftrightarrow>
     (\<exists>cs. list_all scalar cs \<and> map unat (concat fs) = concat (map utf8_encode cs))"
  using foldl_validate [of 0 fs] nvalid_iff [of "map unat (concat fs)"] by (simp add: KL_UTF8_ACCEPT_def)

end
