(* ===== verification/Ws_Handshake.thy ===== *)
theory Ws_Handshake
  imports Cstr
begin

text \<open>
  The WebSocket handshake proof, \<open>Sec-WebSocket-Accept = Base64 (SHA-1 (key + GUID))\<close>: SHA-1 (\<open>src/sha1.h\<close>),
  the Base64 encoder (\<open>src/base64.h\<close>), and the checks of \<open>kl_ws_server_upgrade\<close>
  (\<open>protocols/websocket/http_server_ws.c\<close>) up to the response.

  SHA-1 works on 32-bit words, whose sums wrap. An output buffer is the list written to it.
\<close>

section \<open>SHA-1\<close>

definition sha1_rotl :: "u32 \<Rightarrow> nat \<Rightarrow> u32" where
  "sha1_rotl x n = push_bit n x OR drop_bit (32 - n) x"

abbreviation word_at :: "u32 list \<Rightarrow> nat \<Rightarrow> u32" where "word_at w i \<equiv> w ! i"

definition be32 :: "byte list \<Rightarrow> nat \<Rightarrow> u32" where
  "be32 block i = push_bit 24 (ucast (block ! (i * 4))) OR push_bit 16 (ucast (block ! (i * 4 + 1))) OR
     push_bit 8 (ucast (block ! (i * 4 + 2))) OR ucast (block ! (i * 4 + 3))"

text \<open>The message schedule: the 16 words of the block, then 64 more.\<close>

fun sha1_extend :: "nat \<Rightarrow> u32 list \<Rightarrow> u32 list" where
  "sha1_extend 0 w = w"
| "sha1_extend (Suc n) w =
     (let i = length w
      in sha1_extend n (w @ [sha1_rotl (w ! (i - 3) XOR w ! (i - 8) XOR w ! (i - 14) XOR w ! (i - 16)) 1]))"

definition sha1_schedule :: "byte list \<Rightarrow> u32 list" where
  "sha1_schedule block = sha1_extend 64 (map (be32 block) [0..<16])"

type_synonym sha1_state = "u32 \<times> u32 \<times> u32 \<times> u32 \<times> u32"

fun sha1_fk :: "nat \<Rightarrow> u32 \<Rightarrow> u32 \<Rightarrow> u32 \<Rightarrow> u32 \<times> u32" where
  "sha1_fk i b c d =
     (if i < 20 then ((b AND c) OR (NOT b AND d), 0x5A827999)
      else if i < 40 then (b XOR c XOR d, 0x6ED9EBA1)
      else if i < 60 then ((b AND c) OR (b AND d) OR (c AND d), 0x8F1BBCDC)
      else (b XOR c XOR d, 0xCA62C1D6))"

fun sha1_round :: "nat \<times> u32 \<Rightarrow> sha1_state \<Rightarrow> sha1_state" where
  "sha1_round (i, wi) (a, b, c, d, e) =
     (let (f, k) = sha1_fk i b c d; t = sha1_rotl a 5 + f + e + k + wi
      in (t, a, sha1_rotl b 30, c, d))"

fun sha1_add :: "sha1_state \<Rightarrow> sha1_state \<Rightarrow> sha1_state" where
  "sha1_add (a, b, c, d, e) (a', b', c', d', e') = (a + a', b + b', c + c', d + d', e + e')"

definition sha1_transform :: "sha1_state \<Rightarrow> byte list \<Rightarrow> sha1_state" where
  "sha1_transform st block = sha1_add st (fold sha1_round (zip [0..<80] (sha1_schedule block)) st)"

definition sha1_init :: sha1_state where
  "sha1_init = (0x67452301, 0xEFCDAB89, 0x98BADCFE, 0x10325476, 0xC3D2E1F0)"

text \<open>The loop over full blocks: the state and the rest of the input, shorter than a block.\<close>

function sha1_blocks :: "sha1_state \<Rightarrow> byte list \<Rightarrow> sha1_state \<times> byte list" where
  "sha1_blocks st p = (if length p \<ge> 64 then sha1_blocks (sha1_transform st (take 64 p)) (drop 64 p) else (st, p))"
  by pat_completeness auto
termination by (relation "measure (\<lambda>(st, p). length p)") auto

declare sha1_blocks.simps [simp del]

definition be64_bytes :: "u64 \<Rightarrow> byte list" where
  "be64_bytes n = map (\<lambda>k. ucast (drop_bit k n)) [56, 48, 40, 32, 24, 16, 8, 0]"

definition be32_bytes :: "u32 \<Rightarrow> byte list" where
  "be32_bytes n = map (\<lambda>k. ucast (drop_bit k n)) [24, 16, 8, 0]"

fun sha1_output :: "sha1_state \<Rightarrow> byte list" where
  "sha1_output (a, b, c, d, e) = concat (map be32_bytes [a, b, c, d, e])"

text \<open>The end of \<open>kl_sha1\<close>: the last bytes and the marker in a zeroed block, a second block when the
  length does not fit behind them, then the length in bits.\<close>

definition kl_sha1 :: "byte list \<Rightarrow> byte list" where
  "kl_sha1 data =
     (let (st, p) = sha1_blocks sha1_init data;
          block = (p @ replicate (64 - length p) 0)[length p := 0x80];
          (st, block) = (if length p \<ge> 56 then (sha1_transform st block, replicate 64 0) else (st, block));
          bits = of_nat (length data) * 8
      in sha1_output (sha1_transform st (take 56 block @ be64_bytes bits)))"

section \<open>Base64\<close>

definition kl_b64_table :: string where
  "kl_b64_table = ''ABCDEFGHIJKLMNOPQRSTUVWXYZabcdefghijklmnopqrstuvwxyz0123456789+/''"

definition b64_char :: "u32 \<Rightarrow> nat \<Rightarrow> char" where
  "b64_char v k = kl_b64_table ! unat (drop_bit k v AND 0x3F)"

fun kl_base64_encode :: "byte list \<Rightarrow> string" where
  "kl_base64_encode (a # b # c # rest) =
     (let v = push_bit 16 (ucast a) OR push_bit 8 (ucast b) OR ucast c
      in [b64_char v 18, b64_char v 12, b64_char v 6, b64_char v 0] @ kl_base64_encode rest)"
| "kl_base64_encode [a, b] =
     (let v = push_bit 16 (ucast a) OR push_bit 8 (ucast b)
      in [b64_char v 18, b64_char v 12, b64_char v 6, CHR ''=''])"
| "kl_base64_encode [a] = (let v = push_bit 16 (ucast a) in [b64_char v 18, b64_char v 12, CHR ''='', CHR ''=''])"
| "kl_base64_encode [] = []"

section \<open>The upgrade request\<close>

definition KL_WS_MAGIC_GUID :: string where "KL_WS_MAGIC_GUID = ''258EAFA5-E914-47DA-95CA-C5AB0DC85B11''"

abbreviation to_bytes :: "string \<Rightarrow> byte list" where "to_bytes s \<equiv> map (\<lambda>c. of_nat (uchar c)) s"

definition ws_accept_key :: "string \<Rightarrow> string" where
  "ws_accept_key key = kl_base64_encode (kl_sha1 (to_bytes (key @ KL_WS_MAGIC_GUID)))"

text \<open>One token of a comma- or space-separated header value, and whether some token is \<open>upgrade\<close>.\<close>

definition tok_sep :: "char \<Rightarrow> bool" where
  "tok_sep c \<longleftrightarrow> c = CHR '' '' \<or> c = CHR '','' \<or> c = CHR 0x09"

function connection_has_upgrade :: "string \<Rightarrow> bool" where
  "connection_has_upgrade p =
     (if p = [] then False
      else let q = dropWhile tok_sep p; tok = takeWhile (\<lambda>c. \<not> tok_sep c) q; rest = dropWhile (\<lambda>c. \<not> tok_sep c) q
           in if length tok = 7 \<and> kl_ascii_strncasecmp tok ''upgrade'' 7 = 0 then True else connection_has_upgrade rest)"
  by pat_completeness auto
termination
proof (relation "measure length", simp)
  fix p q tok rest :: string
  assume "p \<noteq> []" and q: "q = dropWhile tok_sep p" and r: "rest = dropWhile (\<lambda>c. \<not> tok_sep c) q"
  have "length rest \<le> length q" and "length q \<le> length p" by (simp_all add: q r length_dropWhile_le)
  moreover have "length rest < length p"
  proof (cases "tok_sep (hd p)")
    case True
    then have "length q < length p" using \<open>p \<noteq> []\<close> length_dropWhile_le [of tok_sep "tl p"] by (cases p) (auto simp: q)
    with \<open>length rest \<le> length q\<close> show ?thesis by simp
  next
    case False
    then have "q = p" using \<open>p \<noteq> []\<close> by (cases p) (auto simp: q)
    with False \<open>p \<noteq> []\<close> length_dropWhile_le [of "\<lambda>c. \<not> tok_sep c" "tl p"] show ?thesis by (cases p) (auto simp: r)
  qed
  ultimately show "(rest, p) \<in> measure length" by simp
qed

declare connection_has_upgrade.simps [simp del]

definition b64_key_char :: "char \<Rightarrow> bool" where
  "b64_key_char c \<longleftrightarrow>
     uchar CHR ''A'' \<le> uchar c \<and> uchar c \<le> uchar CHR ''Z'' \<or> uchar CHR ''a'' \<le> uchar c \<and> uchar c \<le> uchar CHR ''z'' \<or>
     uchar CHR ''0'' \<le> uchar c \<and> uchar c \<le> uchar CHR ''9'' \<or> c = CHR ''+'' \<or> c = CHR ''/'' \<or> c = CHR ''=''"

abbreviation (input) CRLF :: string where "CRLF \<equiv> [CHR 0x0D, CHR 0x0A]"

definition ws_101_response :: "string \<Rightarrow> string" where
  "ws_101_response accept =
     ''HTTP/1.1 101 Switching Protocols'' @ CRLF @ ''Upgrade: websocket'' @ CRLF @ ''Connection: Upgrade'' @ CRLF @
     ''Sec-WebSocket-Accept: '' @ accept @ CRLF @ CRLF"

text \<open>The header checks of \<open>kl_ws_server_upgrade\<close> and the response it builds in a buffer of 256 bytes; \<open>None\<close>
  is the 400 response. The arguments are the values of the four headers, \<open>None\<close> when absent.\<close>

definition ws_upgrade_response :: "string option \<Rightarrow> string option \<Rightarrow> string option \<Rightarrow> string option \<Rightarrow> string option" where
  "ws_upgrade_response conn_hdr upgrade_hdr version key =
     (case (conn_hdr, upgrade_hdr, version, key) of
        (Some conn, Some upgrade, Some ver, Some k) \<Rightarrow>
          if \<not> connection_has_upgrade conn then None
          else if length upgrade \<noteq> 9 \<or> kl_ascii_strncasecmp upgrade ''websocket'' 9 \<noteq> 0 then None
          else if length ver \<noteq> 2 \<or> ver \<noteq> ''13'' then None
          else if length k \<noteq> 24 then None
          else if \<not> list_all b64_key_char k then None
          else let resp = ws_101_response (ws_accept_key k)
               in if length resp \<ge> 256 then None else Some resp
      | _ \<Rightarrow> None)"

section \<open>Lemmas: SHA-1 in blocks\<close>

text \<open>FIPS 180-4: the message, the bit 1, zeros up to 8 bytes short of a block boundary, the length in bits.\<close>

definition sha1_pad :: "byte list \<Rightarrow> byte list" where
  "sha1_pad data = data @ 0x80 # replicate ((119 - length data mod 64) mod 64) 0 @ be64_bytes (of_nat (length data) * 8)"

lemma length_be64 [simp]: "length (be64_bytes n) = 8"
  by (simp add: be64_bytes_def)

lemma sha1_blocks_64: "length a = 64 \<Longrightarrow> sha1_blocks st (a @ b) = sha1_blocks (sha1_transform st a) b"
  by (subst sha1_blocks.simps) simp

lemma sha1_blocks_short: "length a < 64 \<Longrightarrow> sha1_blocks st a = (st, a)"
  by (subst sha1_blocks.simps) simp

lemma sha1_blocks_rest:
  "sha1_blocks st p = (st', r) \<Longrightarrow>
     length r < 64 \<and> length r = length p mod 64 \<and> (\<forall>x. sha1_blocks st (p @ x) = sha1_blocks st' (r @ x))"
proof (induction st p rule: sha1_blocks.induct)
  case (1 st p)
  show ?case
  proof (cases "64 \<le> length p")
    case True
    with "1.prems" have "sha1_blocks (sha1_transform st (take 64 p)) (drop 64 p) = (st', r)"
      by (simp add: sha1_blocks.simps [of st p])
    note ih = "1.IH" [OF True this]
    have "length (drop 64 p) mod 64 = length p mod 64" using True by (simp add: le_mod_geq)
    moreover have "sha1_blocks st (p @ x) = sha1_blocks (sha1_transform st (take 64 p)) (drop 64 p @ x)" for x
      using sha1_blocks_64 [of "take 64 p" st "drop 64 p @ x"] True by (simp flip: append.assoc)
    ultimately show ?thesis using ih by simp
  next
    case False
    with "1.prems" show ?thesis by (simp add: sha1_blocks.simps [of st p])
  qed
qed

lemma sha1_marker: "length p < 64 \<Longrightarrow> (p @ replicate (64 - length p) 0)[length p := (0x80 :: byte)] = p @ 0x80 # replicate (63 - length p) 0"
  by (cases "64 - length p") (auto simp: list_update_append simp flip: Suc_diff_Suc)

lemma kl_sha1_pad: "kl_sha1 data = sha1_output (fst (sha1_blocks sha1_init (sha1_pad data)))"
proof -
  obtain st p where b: "sha1_blocks sha1_init data = (st, p)" by fastforce
  note r = sha1_blocks_rest [OF b]
  let ?bits = "be64_bytes (of_nat (length data) * 8)" and ?m = "p @ 0x80 # replicate (63 - length p) 0"
  have pad: "sha1_blocks sha1_init (sha1_pad data) = sha1_blocks st (p @ 0x80 # replicate ((119 - length p) mod 64) 0 @ ?bits)"
    using r by (simp add: sha1_pad_def)
  have m: "(p @ replicate (64 - length p) 0)[length p := 0x80] = ?m" using sha1_marker [of p] r by simp
  show ?thesis
  proof (cases "56 \<le> length p")
    case True
    then have z: "(119 - length p) mod 64 = (63 - length p) + 56" using r by simp
    have e: "p @ 0x80 # replicate ((119 - length p) mod 64) 0 @ ?bits = ?m @ (replicate 56 0 @ ?bits) @ []"
      unfolding z replicate_add by simp
    have "sha1_blocks st (?m @ (replicate 56 0 @ ?bits) @ []) = (sha1_transform (sha1_transform st ?m) (replicate 56 0 @ ?bits), [])"
    proof -
      have "length ?m = 64" using r by simp
      then have "sha1_blocks st (?m @ (replicate 56 0 @ ?bits) @ []) = sha1_blocks (sha1_transform st ?m) ((replicate 56 0 @ ?bits) @ [])"
        by (rule sha1_blocks_64)
      also have "\<dots> = sha1_blocks (sha1_transform (sha1_transform st ?m) (replicate 56 0 @ ?bits)) []"
        by (rule sha1_blocks_64) simp
      finally show ?thesis by (simp add: sha1_blocks_short)
    qed
    then show ?thesis using True by (simp only: pad e) (simp add: kl_sha1_def b m)
  next
    case False
    then have z: "(119 - length p) mod 64 = 55 - length p" by (simp add: mod_if)
    have e: "p @ 0x80 # replicate ((119 - length p) mod 64) 0 @ ?bits = (p @ 0x80 # replicate (55 - length p) 0 @ ?bits) @ []"
      by (simp add: z)
    have "sha1_blocks st ((p @ 0x80 # replicate (55 - length p) 0 @ ?bits) @ []) =
        (sha1_transform st (p @ 0x80 # replicate (55 - length p) 0 @ ?bits), [])"
      using False by (subst sha1_blocks_64) (simp_all add: sha1_blocks_short)
    moreover have "take 56 ?m = p @ 0x80 # replicate (55 - length p) 0"
      using False by (simp add: take_Cons' min_def)
    ultimately show ?thesis using False by (simp only: pad e) (simp add: kl_sha1_def b m)
  qed
qed

section \<open>Lemmas: Base64\<close>

text \<open>The decoder of RFC 4648, for text made of groups of four characters.\<close>

definition sextet :: "char \<Rightarrow> nat" where
  "sextet c = (if c = CHR ''='' then 0 else length (takeWhile (\<lambda>d. d \<noteq> c) kl_b64_table))"

fun base64_decode :: "string \<Rightarrow> byte list" where
  "base64_decode (c1 # c2 # c3 # c4 # rest) =
     (let v = ((sextet c1 * 64 + sextet c2) * 64 + sextet c3) * 64 + sextet c4
      in map of_nat (if c3 = CHR ''='' then [v div 65536]
           else if c4 = CHR ''='' then [v div 65536, v div 256 mod 256]
           else [v div 65536, v div 256 mod 256, v mod 256]) @ base64_decode rest)"
| "base64_decode _ = []"

lemma sextet_table:
  assumes "i < 64"
  shows "sextet (kl_b64_table ! i) = i \<and> kl_b64_table ! i \<noteq> CHR ''=''"
proof -
  have "list_all (\<lambda>i. sextet (kl_b64_table ! i) = i \<and> kl_b64_table ! i \<noteq> CHR ''='') [0..<64]" by code_simp
  with assms show ?thesis by (simp only: list_all_iff) simp
qed

lemma unat_byte_less: "unat (a :: byte) < 256"
  using unsigned_less [of a, where ?'a = nat] by simp

lemma unat_group:
  "unat (push_bit 16 (ucast (a :: byte)) OR push_bit 8 (ucast (b :: byte)) OR (ucast (c :: byte)) :: u32) =
     65536 * unat a + 256 * unat b + unat c"
proof -
  note l = unat_byte_less [of a] unat_byte_less [of b] unat_byte_less [of c]
  have u: "unat (ucast x :: u32) = unat x" for x :: byte
    using unat_byte_less [of x] by (simp add: unsigned_ucast_eq take_bit_eq_mod)
  have p: "unat (push_bit k (ucast x :: u32)) = push_bit k (unat x)" if "k \<le> 16" for k and x :: byte
  proof -
    have "unat x * 2 ^ k < 2 ^ 8 * 2 ^ 16"
      using unat_byte_less [of x] that by (intro mult_less_le_imp_less power_increasing) simp_all
    then have "take_bit 32 (push_bit k (unat x)) = push_bit k (unat x)" by (simp add: take_bit_eq_mod push_bit_eq_mult)
    then show ?thesis by (simp add: unsigned_push_bit_eq u)
  qed
  have "unat (push_bit 8 (ucast b) OR ucast c :: u32) = push_bit 8 (unat b) OR unat c"
    by (simp add: unsigned_or_eq p u)
  then have bc: "unat (push_bit 8 (ucast b) OR ucast c :: u32) = 256 * unat b + unat c"
    using nat_or_push_bit [of "unat c" 8 "unat b"] l by simp
  have "unat (push_bit 16 (ucast a) OR (push_bit 8 (ucast b) OR ucast c) :: u32) = push_bit 16 (unat a) OR (256 * unat b + unat c)"
    unfolding bc [symmetric] unsigned_or_eq [of "push_bit 16 (ucast a)"] by (simp add: p)
  also have "\<dots> = 65536 * unat a + 256 * unat b + unat c"
    using nat_or_push_bit [of "256 * unat b + unat c" 16 "unat a"] l by simp
  finally show ?thesis by (simp add: or.assoc)
qed

lemma unat_sextet: "unat (drop_bit k (v :: u32) AND 0x3F) = unat v div 2 ^ k mod 64"
proof -
  have "unat (w AND 63) = unat w mod 64" for w :: u32
    using take_bit_eq_mask [of 6 w] unat_mod [of w 64] by (simp add: mask_eq_exp_minus_1 take_bit_eq_mod)
  moreover have "unat (drop_bit k v) = unat v div 2 ^ k" by (rule unat_drop_bit)
  ultimately show ?thesis by simp
qed

lemma digits_24:
  fixes v :: nat
  assumes "v < 16777216"
  shows "((v div 2 ^ 18 mod 64 * 64 + v div 2 ^ 12 mod 64) * 64 + v div 2 ^ 6 mod 64) * 64 + v div 2 ^ 0 mod 64 = v"
proof -
  have e: "v div 4096 = v div 64 div 64" "v div 262144 = v div 4096 div 64" by (simp_all flip: div_mult2_eq)
  have "v div 262144 mod 64 = v div 262144" using assms by (simp add: less_mult_imp_div_less)
  then have "v div 262144 mod 64 * 64 + v div 4096 mod 64 = v div 4096" unfolding e(2) by simp
  moreover have "v div 4096 * 64 + v div 64 mod 64 = v div 64" unfolding e(1) by simp
  ultimately show ?thesis by simp
qed

lemma bytes_24:
  fixes a b c :: nat
  assumes "b < 256" and "c < 256"
  shows "(65536 * a + 256 * b + c) div 65536 = a" and "(65536 * a + 256 * b + c) div 256 mod 256 = b"
    and "(65536 * a + 256 * b + c) mod 256 = c"
proof -
  have *: "(256 * q + x) div 256 = q \<and> (256 * q + x) mod 256 = x" if "x < 256" for q x :: nat using that by simp
  have v: "65536 * a + 256 * b + c = 256 * (256 * a + b) + c" by simp
  show "(65536 * a + 256 * b + c) mod 256 = c" unfolding v using * [OF assms(2)] by blast
  have d: "(65536 * a + 256 * b + c) div 256 = 256 * a + b" unfolding v using * [OF assms(2)] by blast
  show "(65536 * a + 256 * b + c) div 256 mod 256 = b" unfolding d using * [OF assms(1)] by blast
  have e: "x div 65536 = x div 256 div 256" for x :: nat by (simp flip: div_mult2_eq)
  show "(65536 * a + 256 * b + c) div 65536 = a" unfolding e d using * [OF assms(1)] by blast
qed

lemma sextet_b64_char: "sextet (b64_char v k) = unat v div 2 ^ k mod 64 \<and> b64_char v k \<noteq> CHR ''=''"
proof -
  have "unat v div 2 ^ k mod 64 < 64" by simp
  from sextet_table [OF this] show ?thesis by (simp add: b64_char_def unat_sextet)
qed

lemma base64_group:
  assumes "unat (v :: u32) < 16777216"
  shows "((sextet (b64_char v 18) * 64 + sextet (b64_char v 12)) * 64 + sextet (b64_char v 6)) * 64 + sextet (b64_char v 0) = unat v"
    and "b64_char v k \<noteq> CHR ''=''"
proof -
  show "((sextet (b64_char v 18) * 64 + sextet (b64_char v 12)) * 64 + sextet (b64_char v 6)) * 64 + sextet (b64_char v 0) = unat v"
    unfolding conjunct1 [OF sextet_b64_char] by (rule digits_24 [OF assms])
  show "b64_char v k \<noteq> CHR ''=''" using sextet_b64_char by blast
qed

lemma sextet_pad [simp]: "sextet CHR ''='' = 0"
  by (simp add: sextet_def)

lemma base64_roundtrip: "base64_decode (kl_base64_encode bs) = bs"
proof (induction bs rule: kl_base64_encode.induct)
  case (1 a b c rest)
  define v :: u32 where "v = push_bit 16 (ucast a) OR push_bit 8 (ucast b) OR ucast c"
  note l = unat_byte_less [of a] unat_byte_less [of b] unat_byte_less [of c]
  have u: "unat v = 65536 * unat a + 256 * unat b + unat c" by (simp add: v_def unat_group)
  then have "unat v < 16777216" using l by linarith
  note g = base64_group [OF this]
  have "unat v div 65536 = unat a" "unat v div 256 mod 256 = unat b" "unat v mod 256 = unat c"
    unfolding u using bytes_24 [OF l(2,3)] by blast+
  with g 1 show ?case by (simp add: v_def [symmetric] Let_def)
next
  case (2 a b)
  define v :: u32 where "v = push_bit 16 (ucast a) OR push_bit 8 (ucast b)"
  note l = unat_byte_less [of a] unat_byte_less [of b]
  have u: "unat v = 65536 * unat a + 256 * unat b" using unat_group [of a b 0] by (simp add: v_def)
  then have "unat v < 16777216" using l by linarith
  note g = base64_group [OF this]
  have "sextet (b64_char v 0) = 0" unfolding conjunct1 [OF sextet_b64_char] u by simp
  with g have "((sextet (b64_char v 18) * 64 + sextet (b64_char v 12)) * 64 + sextet (b64_char v 6)) * 64 = unat v" by simp
  moreover have "unat v div 65536 = unat a" "unat v div 256 mod 256 = unat b"
    unfolding u using bytes_24 [OF l(2), of 0 "unat a"] by simp_all
  ultimately show ?case using g by (simp add: v_def [symmetric] Let_def)
next
  case (3 a)
  define v :: u32 where "v = push_bit 16 (ucast a)"
  note l = unat_byte_less [of a]
  have u: "unat v = 65536 * unat a" using unat_group [of a 0 0] by (simp add: v_def)
  then have "unat v < 16777216" using l by linarith
  note g = base64_group [OF this]
  have "sextet (b64_char v 0) = 0" unfolding conjunct1 [OF sextet_b64_char] u by simp
  moreover have "sextet (b64_char v 6) = 0" unfolding conjunct1 [OF sextet_b64_char] u by simp
  ultimately have "((sextet (b64_char v 18) * 64 + sextet (b64_char v 12)) * 64) * 64 = unat v" using g by simp
  moreover have "unat v div 65536 = unat a" using l by (simp add: u)
  ultimately show ?case using g by (simp add: v_def [symmetric] Let_def)
qed simp

lemma length_base64: "length (kl_base64_encode bs) = 4 * ((length bs + 2) div 3)"
proof (induction bs rule: kl_base64_encode.induct)
  case (1 a b c rest)
  have "(length (a # b # c # rest) + 2) div 3 = Suc ((length rest + 2) div 3)" by simp
  with 1 show ?case by (simp add: Let_def)
qed (simp_all add: Let_def)

lemma length_sha1: "length (kl_sha1 data) = 20"
proof -
  have "length (sha1_output st) = 20" for st by (cases st) (simp add: be32_bytes_def)
  then show ?thesis by (simp add: kl_sha1_pad)
qed

lemma length_accept: "length (ws_accept_key k) = 28"
  by (simp add: ws_accept_key_def length_base64 length_sha1)

section \<open>Properties\<close>

text \<open>
  C36. Base64 text decodes to the bytes it was made from (with the decoder of RFC 4648 as the reference), and
  its length is the one the callers reserve, four characters for every three bytes begun.
\<close>

theorem kl_base64_encode_roundtrip:
  "base64_decode (kl_base64_encode bs) = bs \<and> length (kl_base64_encode bs) = 4 * ((length bs + 2) div 3)"
  by (simp add: base64_roundtrip length_base64)



end
