(* ===== verification/Ws_Frame.thy ===== *)
theory Ws_Frame
  imports Ws_Handshake
begin

text \<open>
  WebSocket framing: the incremental frame parser shared by server and client
  (\<open>src/protocols/websocket/websocket.c\<close>), the unmasking routine and the frame header of the server
  (\<open>http_server_ws.c\<close>), and the frame header and the masked payload of the client (\<open>websocket_client.c\<close>).

  The parser is the record \<open>KlWsFrameParser\<close>; \<open>header_buf\<close> holds the \<open>header_len\<close> bytes accumulated so
  far. The lemmas show that the parser stays within its header array, that cutting the input anywhere
  changes nothing, that it reads back every header server and client write, and that the unrolled
  unmasking loop is the byte-wise exclusive or of the RFC.
\<close>

section \<open>Frame parser\<close>

abbreviation (input) KL_WS_OP_CONTINUATION :: nat where "KL_WS_OP_CONTINUATION \<equiv> 0"
abbreviation (input) KL_WS_OP_TEXT :: nat where "KL_WS_OP_TEXT \<equiv> 1"
abbreviation (input) KL_WS_OP_BINARY :: nat where "KL_WS_OP_BINARY \<equiv> 2"
abbreviation (input) KL_WS_OP_CLOSE :: nat where "KL_WS_OP_CLOSE \<equiv> 8"
abbreviation (input) KL_WS_OP_PING :: nat where "KL_WS_OP_PING \<equiv> 9"
abbreviation (input) KL_WS_OP_PONG :: nat where "KL_WS_OP_PONG \<equiv> 10"

definition KL_WS_MASK_KEY_LEN :: nat where "KL_WS_MASK_KEY_LEN = 4"

definition KL_WS_FRAME_HEADER_MAX :: nat where "KL_WS_FRAME_HEADER_MAX = 14"

datatype KlWsFrameParseState = KL_WS_FRAME_HEADER | KL_WS_FRAME_PAYLOAD | KL_WS_FRAME_COMPLETE

record KlWsFrameParser =
  fr_state :: KlWsFrameParseState
  header_buf :: "byte list"
  header_need :: nat
  fin :: bool
  opcode :: nat
  masked :: bool
  mask_key :: "byte list"
  payload_len :: nat
  payload_read :: nat

definition kl_ws_frame_init :: KlWsFrameParser where
  "kl_ws_frame_init =
     \<lparr>fr_state = KL_WS_FRAME_HEADER, header_buf = [], header_need = 2, fin = False, opcode = 0,
      masked = False, mask_key = [0, 0, 0, 0], payload_len = 0, payload_read = 0\<rparr>"

text \<open>After the second header byte: the flags, the opcode and the size of the whole header.\<close>

definition ws_header_two :: "KlWsFrameParser \<Rightarrow> int \<times> KlWsFrameParser" where
  "ws_header_two fp =
     (let b0 = header_buf fp ! 0; b1 = header_buf fp ! 1;
          rsv = drop_bit 4 b0 AND 7;
          op = unat (b0 AND 0x0F);
          fp = fp\<lparr>fin := drop_bit 7 b0 AND 1 = 1, opcode := op, masked := drop_bit 7 b1 AND 1 = 1\<rparr>;
          len7 = b1 AND 0x7F
      in if rsv \<noteq> 0 then (-1, fp)
         else if 2 < op \<and> op < 8 \<or> 10 < op then (-1, fp)
         else (0, fp\<lparr>header_need := 2 + ((if len7 = 126 then 2 else if len7 = 127 then 8 else 0) +
                       (if masked fp then KL_WS_MASK_KEY_LEN else 0))\<rparr>))"

text \<open>The accumulation loop; the last component counts the bytes consumed.\<close>

fun ws_header_loop :: "KlWsFrameParser \<Rightarrow> byte list \<Rightarrow> nat \<Rightarrow> int \<times> KlWsFrameParser \<times> nat" where
  "ws_header_loop fp [] consumed = (0, fp, consumed)"
| "ws_header_loop fp (b # data) consumed =
     (if length (header_buf fp) < header_need fp then
        let fp = fp\<lparr>header_buf := header_buf fp @ [b]\<rparr>;
            (r, fp) = (if length (header_buf fp) = 2 then ws_header_two fp else (0, fp))
        in if r < 0 then (-1, fp, consumed + 1) else ws_header_loop fp data (consumed + 1)
      else (0, fp, consumed))"

text \<open>The payload length and the offset of the mask key in a complete header.\<close>

definition ws_header_len :: "byte list \<Rightarrow> (nat \<times> nat) option" where
  "ws_header_len h =
     (let len7 = h ! 1 AND 0x7F in
      if len7 < 126 then Some (unat len7, 2)
      else if len7 = 126 then Some (unat (push_bit 8 (ucast (h ! 2)) OR (ucast (h ! 3)) :: u64), 4)
      else let plen = foldl (\<lambda>plen i. push_bit 8 plen OR ucast (h ! (2 + i))) (0 :: u64) [0..<8]
           in if drop_bit 63 plen \<noteq> 0 then None
              else if unat plen > SIZE_MAX div 2 then None
              else Some (unat plen, 10))"

definition ws_header_done :: "KlWsFrameParser \<Rightarrow> int \<times> KlWsFrameParser" where
  "ws_header_done fp =
     (case ws_header_len (header_buf fp) of
        None \<Rightarrow> (-1, fp)
      | Some (plen, mask_offset) \<Rightarrow>
          let fp = fp\<lparr>payload_len := plen\<rparr>;
              fp = (if masked fp then fp\<lparr>mask_key := take KL_WS_MASK_KEY_LEN (drop mask_offset (header_buf fp))\<rparr> else fp)
          in if opcode fp \<ge> 8 \<and> payload_len fp > 125 then (-1, fp)
             else if opcode fp \<ge> 8 \<and> \<not> fin fp then (-1, fp)
             else (0, fp\<lparr>payload_read := 0,
                         fr_state := (if payload_len fp = 0 then KL_WS_FRAME_COMPLETE else KL_WS_FRAME_PAYLOAD)\<rparr>))"

definition ws_payload_phase :: "KlWsFrameParser \<Rightarrow> nat \<Rightarrow> nat \<Rightarrow> int \<times> KlWsFrameParser \<times> nat" where
  "ws_payload_phase fp avail consumed =
     (if fr_state fp = KL_WS_FRAME_COMPLETE then (1, fp, consumed)
      else if fr_state fp = KL_WS_FRAME_PAYLOAD then
        let remaining = payload_len fp - payload_read fp;
            tk = (if avail < remaining then avail else remaining);
            fp = fp\<lparr>payload_read := payload_read fp + tk\<rparr>
        in if payload_read fp \<ge> payload_len fp then (1, fp\<lparr>fr_state := KL_WS_FRAME_COMPLETE\<rparr>, consumed + tk)
           else (0, fp, consumed + tk)
      else (0, fp, consumed))"

definition kl_ws_frame_parse :: "KlWsFrameParser \<Rightarrow> byte list \<Rightarrow> int \<times> KlWsFrameParser \<times> nat" where
  "kl_ws_frame_parse fp data =
     (if fr_state fp = KL_WS_FRAME_HEADER then
        let (r, fp, consumed) = ws_header_loop fp data 0 in
        if r < 0 then (-1, fp, consumed)
        else if length (header_buf fp) < header_need fp then (0, fp, consumed)
        else let (r, fp) = ws_header_done fp in
          if r < 0 then (-1, fp, consumed)
          else ws_payload_phase fp (length data - consumed) consumed
      else ws_payload_phase fp (length data) 0)"

section \<open>Masking\<close>

text \<open>The three loops of \<open>ws_unmask\<close>, on the array with its index.\<close>

definition mask_byte :: "byte list \<Rightarrow> nat \<Rightarrow> nat \<Rightarrow> byte list \<Rightarrow> byte list" where
  "mask_byte key k i data = data[i := data ! i XOR key ! (k AND 3)]"

function unmask_prefix :: "byte list \<Rightarrow> nat \<Rightarrow> nat \<Rightarrow> byte list \<Rightarrow> nat \<times> byte list" where
  "unmask_prefix key start_offset i data =
     (if i < length data \<and> (start_offset + i) AND 3 \<noteq> 0
      then unmask_prefix key start_offset (i + 1) (mask_byte key (start_offset + i) i data)
      else (i, data))"
  by pat_completeness auto
termination by (relation "measure (\<lambda>(key, s, i, data). length data - i)") (auto simp: mask_byte_def)

function unmask_blocks :: "byte list \<Rightarrow> nat \<Rightarrow> nat \<Rightarrow> byte list \<Rightarrow> nat \<times> byte list" where
  "unmask_blocks key start_offset i data =
     (if i + 3 < length data then
        let base = (start_offset + i) AND 3;
            data = mask_byte key base i data;
            data = mask_byte key (base + 1) (i + 1) data;
            data = mask_byte key (base + 2) (i + 2) data;
            data = mask_byte key (base + 3) (i + 3) data
        in unmask_blocks key start_offset (i + 4) data
      else (i, data))"
  by pat_completeness auto
termination by (relation "measure (\<lambda>(key, s, i, data). length data - i)") (auto simp: mask_byte_def Let_def)

function unmask_rest :: "byte list \<Rightarrow> nat \<Rightarrow> nat \<Rightarrow> byte list \<Rightarrow> byte list" where
  "unmask_rest key start_offset i data =
     (if i < length data then unmask_rest key start_offset (i + 1) (mask_byte key (start_offset + i) i data)
      else data)"
  by pat_completeness auto
termination by (relation "measure (\<lambda>(key, s, i, data). length data - i)") (auto simp: mask_byte_def)

declare unmask_prefix.simps [simp del] unmask_blocks.simps [simp del] unmask_rest.simps [simp del]

definition ws_unmask :: "byte list \<Rightarrow> byte list \<Rightarrow> nat \<Rightarrow> byte list" where
  "ws_unmask data key offset =
     (let start_offset = offset AND 3;
          (i, data) = unmask_prefix key start_offset 0 data;
          (i, data) = (if start_offset = 0 \<or> i > 0 then unmask_blocks key start_offset i data else (i, data))
      in unmask_rest key start_offset i data)"

section \<open>Frame headers\<close>

text \<open>The length bytes server and client write, with \<open>bit\<close> the value of the MASK bit in the first of them.\<close>

definition ws_len_bytes :: "byte \<Rightarrow> nat \<Rightarrow> byte list" where
  "ws_len_bytes mbit len =
     (if len < 126 then [mbit OR of_nat len]
      else if len \<le> 65535 then [mbit OR 126, of_nat (drop_bit 8 len), of_nat len]
      else (mbit OR 127) # be64_bytes (of_nat len))"

definition ws_frame_header :: "nat \<Rightarrow> nat \<Rightarrow> byte list" where
  "ws_frame_header op len = (0x80 OR of_nat (op AND 0x0F)) # ws_len_bytes 0 len"

definition wsc_frame_header :: "nat \<Rightarrow> byte list \<Rightarrow> nat \<Rightarrow> byte list" where
  "wsc_frame_header op key len = (0x80 OR of_nat (op AND 0x0F)) # ws_len_bytes 0x80 len @ key"

text \<open>The client masks its payload in pieces of at most 4096 bytes.\<close>

function wsc_mask :: "byte list \<Rightarrow> nat \<Rightarrow> byte list \<Rightarrow> byte list list" where
  "wsc_mask key sent data =
     (if sent < length data then
        let chunk_len = (if length data - sent > 4096 then 4096 else length data - sent);
            chunk = map (\<lambda>i. data ! (sent + i) XOR key ! ((sent + i) AND 3)) [0..<chunk_len]
        in chunk # wsc_mask key (sent + chunk_len) data
      else [])"
  by pat_completeness auto
termination by (relation "measure (\<lambda>(key, sent, data). length data - sent)") (auto simp: Let_def)

declare wsc_mask.simps [simp del]

section \<open>Lemmas: masking\<close>

lemma nat_and_3: "(n :: nat) AND 3 = n mod 4"
  using take_bit_eq_mask [of 2 n] by (simp add: mask_eq_exp_minus_1 take_bit_eq_mod)

text \<open>Masking as RFC 6455 5.3 defines it: byte \<open>i\<close> is combined with byte \<open>i mod 4\<close> of the key.\<close>

definition xor_key :: "byte list \<Rightarrow> nat \<Rightarrow> byte list \<Rightarrow> byte list" where
  "xor_key key k data = map (\<lambda>i. data ! i XOR key ! ((k + i) mod 4)) [0..<length data]"

definition xor_upto :: "byte list \<Rightarrow> nat \<Rightarrow> nat \<Rightarrow> byte list \<Rightarrow> byte list" where
  "xor_upto key k n data = map (\<lambda>i. if i < n then data ! i XOR key ! ((k + i) mod 4) else data ! i) [0..<length data]"

lemma length_xor_key [simp]: "length (xor_key key k data) = length data"
  by (simp add: xor_key_def)

lemma xor_key_Nil [simp]: "xor_key key k [] = []"
  by (simp add: xor_key_def)

lemma xor_key_append: "xor_key key k (a @ b) = xor_key key k a @ xor_key key (k + length a) b"
proof (rule nth_equalityI)
  fix i
  assume "i < length (xor_key key k (a @ b))"
  moreover have "k + length a + (i - length a) = k + i" if "\<not> i < length a" using that by simp
  ultimately show "xor_key key k (a @ b) ! i = (xor_key key k a @ xor_key key (k + length a) b) ! i"
    by (cases "i < length a") (simp_all add: xor_key_def nth_append)
qed simp

lemma xor_key_mod: "xor_key key (k mod 4) data = xor_key key k data"
  by (simp add: xor_key_def mod_add_left_eq)

lemma xor_key_invol [simp]: "xor_key key k (xor_key key k data) = data"
  by (rule nth_equalityI) (simp_all add: xor_key_def xor.assoc)

lemma length_xor_upto [simp]: "length (xor_upto key k n data) = length data"
  by (simp add: xor_upto_def)

lemma xor_upto_0 [simp]: "xor_upto key k 0 data = data"
  by (rule nth_equalityI) (simp_all add: xor_upto_def)

lemma xor_upto_all [simp]: "xor_upto key k (length data) data = xor_key key k data"
  by (simp add: xor_upto_def xor_key_def)

lemma mask_byte_upto:
  "i < length data \<Longrightarrow> j mod 4 = (k + i) mod 4 \<Longrightarrow>
     mask_byte key j i (xor_upto key k i data) = xor_upto key k (Suc i) data"
  by (rule nth_equalityI) (auto simp: mask_byte_def xor_upto_def nat_and_3 nth_list_update less_Suc_eq)

lemma unmask_prefix_upto:
  assumes "i \<le> length data"
  shows "\<exists>j. i \<le> j \<and> j \<le> length data \<and> unmask_prefix key k i (xor_upto key k i data) = (j, xor_upto key k j data)"
  using assms
proof (induction "length data - i" arbitrary: i)
  case 0
  then show ?case by (subst unmask_prefix.simps) auto
next
  case (Suc n)
  then have i: "i < length data" by simp
  show ?case
  proof (cases "(k + i) AND 3 = 0")
    case False
    have "n = length data - Suc i" using Suc.hyps(2) by simp
    from Suc.hyps(1) [OF this] i obtain j where "Suc i \<le> j" "j \<le> length data"
      "unmask_prefix key k (Suc i) (xor_upto key k (Suc i) data) = (j, xor_upto key k j data)" by auto
    with i False show ?thesis
      by (subst unmask_prefix.simps) (auto simp: mask_byte_upto intro!: exI [of _ j])
  qed (use i in \<open>subst unmask_prefix.simps, auto\<close>)
qed

lemma unmask_blocks_upto:
  assumes "i \<le> length data"
  shows "\<exists>j. i \<le> j \<and> j \<le> length data \<and> unmask_blocks key k i (xor_upto key k i data) = (j, xor_upto key k j data)"
  using assms
proof (induction "length data - i" arbitrary: i rule: less_induct)
  case less
  show ?case
  proof (cases "i + 3 < length data")
    case True
    have "length data - (i + 4) < length data - i" using True by simp
    from less.hyps [OF this] True obtain j where j: "i + 4 \<le> j" "j \<le> length data"
      "unmask_blocks key k (i + 4) (xor_upto key k (i + 4) data) = (j, xor_upto key k j data)" by auto
    have m: "(((k + i) AND 3) + c) mod 4 = (k + (i + c)) mod 4" for c
      unfolding nat_and_3 by presburger
    have b: "mask_byte key (((k + i) AND 3) + c) (i + c) (xor_upto key k (i + c) data) = xor_upto key k (i + (c + 1)) data" if "c \<le> 3" for c
      using mask_byte_upto [of "i + c" data "((k + i) AND 3) + c" k key] m [of c] True that by simp
    have "unmask_blocks key k i (xor_upto key k i data) = (j, xor_upto key k j data)"
      using True j(3) b [of 0] b [of 1] b [of 2] b [of 3]
      by (subst unmask_blocks.simps) (simp add: Let_def)
    then show ?thesis using j(1,2) by (intro exI [of _ j]) simp
  qed (use less.prems in \<open>subst unmask_blocks.simps, auto\<close>)
qed

lemma unmask_rest_upto: "i \<le> length data \<Longrightarrow> unmask_rest key k i (xor_upto key k i data) = xor_key key k data"
proof (induction "length data - i" arbitrary: i)
  case (Suc n)
  then have "n = length data - Suc i" and i: "i < length data" by simp_all
  then have "unmask_rest key k (Suc i) (xor_upto key k (Suc i) data) = xor_key key k data" using Suc.hyps(1) by simp
  with i show ?case by (subst unmask_rest.simps) (simp add: mask_byte_upto)
qed (subst unmask_rest.simps, simp)

lemma ws_unmask_xor_key [simp]: "ws_unmask data key offset = xor_key key offset data"
proof -
  let ?k = "offset AND 3"
  obtain i where i: "i \<le> length data" "unmask_prefix key ?k 0 data = (i, xor_upto key ?k i data)"
    using unmask_prefix_upto [of 0 data key ?k] by auto
  obtain j where j: "j \<le> length data" "unmask_blocks key ?k i (xor_upto key ?k i data) = (j, xor_upto key ?k j data)"
    using unmask_blocks_upto [of i data key ?k] i by auto
  have "xor_key key ?k data = xor_key key offset data" by (simp add: nat_and_3 xor_key_mod)
  with i j unmask_rest_upto [of 0 data key ?k] show ?thesis by (simp add: ws_unmask_def unmask_rest_upto Let_def)
qed

lemma wsc_mask_xor: "concat (wsc_mask key k data) = drop k (xor_key key 0 data)"
proof (induction key k data rule: wsc_mask.induct)
  case (1 key sent data)
  show ?case
  proof (cases "sent < length data")
    case True
    let ?n = "if length data - sent > 4096 then 4096 else length data - sent"
    have n: "sent + ?n \<le> length data" using True by (cases "length data - sent > 4096") auto
    have c: "map (\<lambda>i. data ! (sent + i) XOR key ! ((sent + i) AND 3)) [0..<?n] = take ?n (drop sent (xor_key key 0 data))"
      by (rule nth_equalityI) (use n in \<open>auto simp: xor_key_def nat_and_3\<close>)
    have "concat (wsc_mask key (sent + ?n) data) = drop (sent + ?n) (xor_key key 0 data)"
      using "1.IH" True by (simp add: Let_def)
    moreover have "take n (drop sent x) @ drop (sent + n) x = drop sent x" for n and x :: "byte list"
      by (metis add.commute append_take_drop_id drop_drop)
    ultimately show ?thesis
      unfolding wsc_mask.simps [of key sent data] Let_def if_P [OF True] c concat.simps by (simp only:)
  qed (simp add: wsc_mask.simps [of key sent data])
qed

section \<open>Lemmas: cutting the input of the parser\<close>

lemma ws_header_loop_shift:
  "ws_header_loop fp data (n + k) = (case ws_header_loop fp data n of (r, fp', m) \<Rightarrow> (r, fp', m + k))"
proof (induction fp data n rule: ws_header_loop.induct)
  case (2 fp b data consumed)
  then show ?case by (auto simp: Let_def split: prod.splits if_splits)
qed simp

lemma ws_header_loop_append:
  assumes "ws_header_loop fp a n = (r, fp', m)"
  shows "(r < 0 \<longrightarrow> ws_header_loop fp (a @ b) n = (r, fp', m)) \<and>
    (\<not> r < 0 \<longrightarrow> r = 0 \<and> m \<le> n + length a \<and> fr_state fp' = fr_state fp \<and>
      (length (header_buf fp') < header_need fp' \<longrightarrow> m = n + length a) \<and>
      ws_header_loop fp (a @ b) n = ws_header_loop fp' (if m = n + length a then b else []) m)"
  using assms
proof (induction fp a n rule: ws_header_loop.induct)
  case (2 fp c a n)
  show ?case
  proof (cases "length (header_buf fp) < header_need fp")
    case True
    let ?fp = "fp\<lparr>header_buf := header_buf fp @ [c]\<rparr>"
    obtain r1 fp1 where s: "(if length (header_buf ?fp) = 2 then ws_header_two ?fp else (0, ?fp)) = (r1, fp1)" by fastforce
    have st: "fr_state fp1 = fr_state fp" using s by (auto simp: ws_header_two_def Let_def split: if_splits)
    show ?thesis
    proof (cases "r1 < 0")
      case True
      with "2.prems" s \<open>length (header_buf fp) < header_need fp\<close> show ?thesis by (auto simp: Let_def)
    next
      case False
      with "2.prems" s True have "ws_header_loop fp1 a (n + 1) = (r, fp', m)" by (simp add: Let_def)
      note ih = "2.IH" [OF True refl s [symmetric] refl False this]
      with s True False st show ?thesis by (simp add: Let_def)
    qed
  next
    case False
    with "2.prems" show ?thesis by auto
  qed
qed auto

lemma ws_payload_phase_append:
  assumes "ws_payload_phase fp k n = (r, fp', m)" and "fr_state fp \<noteq> KL_WS_FRAME_HEADER"
  shows "(r \<noteq> 0 \<longrightarrow> ws_payload_phase fp (k + j) n = (r, fp', m)) \<and>
    (r = 0 \<longrightarrow> m = n + k \<and> fr_state fp' = KL_WS_FRAME_PAYLOAD \<and>
       ws_payload_phase fp (k + j) n = ws_payload_phase fp' j m)"
  using assms by (cases "fr_state fp") (auto simp: ws_payload_phase_def Let_def split: if_splits)

lemma ws_payload_phase_shift:
  "ws_payload_phase fp k (n + j) = (case ws_payload_phase fp k n of (r, fp', m) \<Rightarrow> (r, fp', m + j))"
  by (simp add: ws_payload_phase_def Let_def)

lemma ws_header_done_state:
  "ws_header_done fp = (r, fp') \<Longrightarrow> r < 0 \<and> r \<noteq> 0 \<or> r = 0 \<and> fr_state fp' \<noteq> KL_WS_FRAME_HEADER"
  by (auto simp: ws_header_done_def Let_def split: option.splits if_splits)

lemma kl_ws_frame_parse_append:
  assumes "kl_ws_frame_parse fp a = (r, fp', m)"
  shows "if r = 0 then m = length a \<and> fr_state fp' \<noteq> KL_WS_FRAME_COMPLETE \<and>
       kl_ws_frame_parse fp (a @ b) = (case kl_ws_frame_parse fp' b of (r', fp'', k) \<Rightarrow> (r', fp'', k + length a))
     else kl_ws_frame_parse fp (a @ b) = (r, fp', m)"
proof (cases "fr_state fp = KL_WS_FRAME_HEADER")
  case False
  with assms have p: "ws_payload_phase fp (length a) 0 = (r, fp', m)" by (simp add: kl_ws_frame_parse_def)
  from ws_payload_phase_append [OF p False, of "length b"] ws_payload_phase_shift [of fp' "length b" 0 "length a"] False
  show ?thesis by (simp add: kl_ws_frame_parse_def)
next
  case True
  obtain r1 fp1 n where l: "ws_header_loop fp a 0 = (r1, fp1, n)" by (metis prod_cases3)
  note l' = ws_header_loop_append [OF l, of b]
  show ?thesis
  proof (cases "r1 < 0")
    case True
    with l l' assms \<open>fr_state fp = KL_WS_FRAME_HEADER\<close> show ?thesis by (simp add: kl_ws_frame_parse_def)
  next
    case False
    with l' True have r1: "r1 = 0" "n \<le> length a" "fr_state fp1 = KL_WS_FRAME_HEADER" by auto
    show ?thesis
    proof (cases "length (header_buf fp1) < header_need fp1")
      case inc: True
      then have n: "n = length a" using l' False by simp
      have "ws_header_loop fp1 b (length a) = (case ws_header_loop fp1 b 0 of (r, fp', m) \<Rightarrow> (r, fp', m + length a))"
        using ws_header_loop_shift [of fp1 b 0 "length a"] by simp
      then have ab: "ws_header_loop fp (a @ b) 0 = (case ws_header_loop fp1 b 0 of (r, fp', m) \<Rightarrow> (r, fp', m + length a))"
        using l' False n by simp
      obtain r2 fp2 m2 where b: "ws_header_loop fp1 b 0 = (r2, fp2, m2)" by (metis prod_cases3)
      have "r = 0 \<and> fp' = fp1 \<and> m = length a" using assms True l r1 inc n by (simp add: kl_ws_frame_parse_def)
      then show ?thesis using True ab b r1
        by (simp add: kl_ws_frame_parse_def ws_payload_phase_shift [where n = m2] add.commute split: prod.splits)
    next
      case full: False
      have "ws_header_loop fp1 x n = (0, fp1, n)" for x using full by (cases x) simp_all
      then have ab: "ws_header_loop fp (a @ b) 0 = (0, fp1, n)" using l' False by simp
      obtain r2 fp2 where d: "ws_header_done fp1 = (r2, fp2)" by fastforce
      show ?thesis
      proof (cases "r2 < 0")
        case True
        with assms l ab r1 d full \<open>fr_state fp = KL_WS_FRAME_HEADER\<close> show ?thesis by (auto simp: kl_ws_frame_parse_def)
      next
        case False
        then have s: "fr_state fp2 \<noteq> KL_WS_FRAME_HEADER" using ws_header_done_state [OF d] by auto
        have p: "ws_payload_phase fp2 (length a - n) n = (r, fp', m)"
          using assms l r1 d full False True by (simp add: kl_ws_frame_parse_def)
        have "kl_ws_frame_parse fp (a @ b) = ws_payload_phase fp2 (length a - n + length b) n"
          using ab d full False True r1 by (simp add: kl_ws_frame_parse_def)
        with ws_payload_phase_append [OF p s, of "length b"] ws_payload_phase_shift [of fp' "length b" 0 "length a"] r1
        show ?thesis by (auto simp: kl_ws_frame_parse_def)
      qed
    qed
  qed
qed

section \<open>Lemmas: reading back a header\<close>

text \<open>
  The header of RFC 6455 5.2, for any final flag and with or without a key; the headers server and client
  write are instances of it.
\<close>

definition ws_header :: "bool \<Rightarrow> nat \<Rightarrow> byte list option \<Rightarrow> nat \<Rightarrow> byte list" where
  "ws_header f op key len =
     ((if f then 0x80 else 0) OR of_nat op) #
       ws_len_bytes (case key of None \<Rightarrow> 0 | Some k \<Rightarrow> 0x80) len @ (case key of None \<Rightarrow> [] | Some k \<Rightarrow> k)"

definition ws_header_ok :: "bool \<Rightarrow> nat \<Rightarrow> byte list option \<Rightarrow> nat \<Rightarrow> bool" where
  "ws_header_ok f op key len \<longleftrightarrow>
     op \<in> {0, 1, 2, 8, 9, 10} \<and> (8 \<le> op \<longrightarrow> f \<and> len \<le> 125) \<and> len \<le> SIZE_MAX div 2 \<and>
     (case key of None \<Rightarrow> True | Some k \<Rightarrow> length k = 4)"

definition ws_header_fp :: "bool \<Rightarrow> nat \<Rightarrow> byte list option \<Rightarrow> nat \<Rightarrow> KlWsFrameParser" where
  "ws_header_fp f op key len =
     \<lparr>fr_state = (if len = 0 then KL_WS_FRAME_COMPLETE else KL_WS_FRAME_PAYLOAD),
      header_buf = ws_header f op key len, header_need = length (ws_header f op key len),
      fin = f, opcode = op, masked = (key \<noteq> None),
      mask_key = (case key of None \<Rightarrow> [0, 0, 0, 0] | Some k \<Rightarrow> k), payload_len = len, payload_read = 0\<rparr>"

lemma ws_first_byte:
  assumes "op \<in> {0, 1, 2, 8, 9, 10}"
  shows "drop_bit 4 (((if f then 0x80 else 0) :: byte) OR of_nat op) AND 7 = 0"
    and "(((if f then 0x80 else 0) :: byte) OR of_nat op) AND 0x0F = of_nat op"
    and "(drop_bit 7 (((if f then 0x80 else 0) :: byte) OR of_nat op) AND 1 = 1) = f"
  using assms by (cases f; auto)+

lemma ws_second_byte:
  assumes "l < 128"
  shows "(drop_bit 7 (((if m then 0x80 else 0) :: byte) OR of_nat l) AND 1 = 1) = m"
    and "(((if m then 0x80 else 0) :: byte) OR of_nat l) AND 0x7F = of_nat l"
proof -
  have "list_all (\<lambda>l. \<forall>m. (drop_bit 7 (((if m then 0x80 else 0) :: byte) OR of_nat l) AND 1 = 1) = m \<and>
      (((if m then 0x80 else 0) :: byte) OR of_nat l) AND 0x7F = of_nat l) [0..<128]"
    unfolding all_bool_eq by code_simp
  with assms show "(drop_bit 7 (((if m then 0x80 else 0) :: byte) OR of_nat l) AND 1 = 1) = m"
    and "(((if m then 0x80 else 0) :: byte) OR of_nat l) AND 0x7F = of_nat l"
    unfolding list_all_iff by simp_all
qed

lemma ws_header_loop_fill:
  "2 \<le> length (header_buf fp) \<Longrightarrow> length (header_buf fp) + length x = header_need fp \<Longrightarrow>
     ws_header_loop fp (x @ data) n = (0, fp\<lparr>header_buf := header_buf fp @ x\<rparr>, n + length x)"
proof (induction x arbitrary: fp n)
  case Nil
  then show ?case by (cases data) simp_all
next
  case (Cons b x)
  then show ?case using Cons.IH [of "fp\<lparr>header_buf := header_buf fp @ [b]\<rparr>" "n + 1"] by (simp add: Let_def)
qed

lemma be64_step:
  "push_bit 8 (drop_bit (k + 8) (n :: u64)) OR ucast (ucast (drop_bit k n) :: byte) = drop_bit k n"
  by (rule bit_eqI) (auto simp: bit_simps)

lemma be64_fold:
  "foldl (\<lambda>plen b. push_bit 8 plen OR ucast b) (0 :: u64) (be64_bytes n) = n"
proof -
  have "drop_bit 64 n = 0" by (rule bit_eqI) (auto simp: bit_simps dest: bit_imp_le_length)
  then have "push_bit 8 0 OR ucast (ucast (drop_bit 56 n) :: byte) = drop_bit 56 n" using be64_step [of 56 n] by simp
  note steps = this be64_step [of 48 n] be64_step [of 40 n] be64_step [of 32 n] be64_step [of 24 n] be64_step [of 16 n]
    be64_step [of 8 n] be64_step [of 0 n]
  have n: "48 + 8 = (56 :: nat)" "40 + 8 = (48 :: nat)" "32 + 8 = (40 :: nat)" "24 + 8 = (32 :: nat)"
    "16 + 8 = (24 :: nat)" "8 + 8 = (16 :: nat)" "0 + 8 = (8 :: nat)" by simp_all
  show ?thesis unfolding be64_bytes_def list.map foldl.simps steps [unfolded n] by simp
qed

lemma unat_be16: "unat (push_bit 8 (ucast (a :: byte)) OR ucast (b :: byte) :: u64) = 256 * unat a + unat b"
proof -
  have u: "unat (ucast x :: u64) = unat x" for x :: byte
    using unat_byte_less [of x] by (simp add: unsigned_ucast_eq take_bit_eq_mod)
  have "unat (push_bit 8 (ucast a :: u64)) = push_bit 8 (unat a)"
    using unat_byte_less [of a] by (simp add: unsigned_push_bit_eq u take_bit_eq_mod push_bit_eq_mult [of 8 "unat a"])
  then show ?thesis using nat_or_push_bit [of "unat b" 8 "unat a"] unat_byte_less [of b]
    by (simp add: unsigned_or_eq u)
qed

lemma ws_header_len_ok:
  assumes "len \<le> SIZE_MAX div 2" and "m = (0 :: byte) \<or> m = 0x80"
  shows "ws_header_len (b # ws_len_bytes m len @ x) = Some (len, 1 + length (ws_len_bytes m len))"
proof -
  obtain f where m: "m = (if f then 0x80 else 0)" using assms(2) by fastforce
  consider "len < 126" | "126 \<le> len" "len \<le> 65535" | "65535 < len" by linarith
  then show ?thesis
  proof cases
    case 1
    then have "unat (of_nat len :: byte) = len" by (simp add: unat_of_nat)
    moreover from this 1 have "(of_nat len :: byte) < 126" by (simp add: word_less_nat_alt)
    ultimately show ?thesis using 1 ws_second_byte(2) [of len f] by (simp add: ws_header_len_def ws_len_bytes_def m)
  next
    case 2
    have d: "unat (of_nat (drop_bit 8 len) :: byte) = len div 256" using 2 by (simp add: unat_of_nat drop_bit_eq_div)
    have l: "unat (of_nat len :: byte) = len mod 256" by (simp add: unat_of_nat)
    have "unat (push_bit 8 (ucast (of_nat (drop_bit 8 len) :: byte)) OR ucast (of_nat len :: byte) :: u64) = len"
      by (rule unat_be16 [of "of_nat (drop_bit 8 len)" "of_nat len", unfolded d l, simplified])
    then show ?thesis using 2 ws_second_byte(2) [of 126 f] by (simp add: ws_header_len_def ws_len_bytes_def m)
  next
    case 3
    have n: "unat (of_nat len :: u64) = len" using assms(1) by (simp add: SIZE_MAX_def unat_of_nat)
    have "foldl (\<lambda>plen i. push_bit 8 plen OR ucast ((b # c # be64_bytes (of_nat len) @ x) ! (2 + i))) (0 :: u64) [0..<8] =
        foldl (\<lambda>plen b. push_bit 8 plen OR ucast b) 0 (be64_bytes (of_nat len))" for c
      by (simp add: be64_bytes_def upt_rec)
    moreover have "drop_bit 63 (of_nat len :: u64) = 0"
    proof -
      have "unat (drop_bit 63 (of_nat len :: u64)) = 0" using assms(1) n by (simp add: unat_drop_bit SIZE_MAX_def)
      then show ?thesis by (simp only: unat_eq_zero)
    qed
    ultimately show ?thesis using 3 ws_second_byte(2) [of 127 f] n assms(1)
      by (simp add: ws_header_len_def ws_len_bytes_def m be64_fold Let_def)
  qed
qed

lemma ws_len_bytes_first:
  "\<exists>l xs. l < 128 \<and> ws_len_bytes m len = (m OR of_nat l) # xs \<and>
     length xs = (if l = 126 then 2 else if l = 127 then 8 else 0)"
  by (auto simp: ws_len_bytes_def intro: exI [of _ 126] exI [of _ 127] exI [of _ len])

lemma ws_header_two_ok:
  assumes "header_buf fp = [b0, b1]" and "drop_bit 4 b0 AND 7 = 0" and "b0 AND 0x0F = of_nat op" and "op \<in> {0, 1, 2, 8, 9, 10}"
    and "(drop_bit 7 b0 AND 1 = 1) = f" and "(drop_bit 7 b1 AND 1 = 1) = m" and "b1 AND 0x7F = l"
  shows "ws_header_two fp = (0, fp\<lparr>fin := f, opcode := op, masked := m,
    header_need := 2 + ((if l = 126 then 2 else if l = 127 then 8 else 0) + (if m then 4 else 0))\<rparr>)"
proof -
  have "unat (of_nat op :: byte) = op" and "\<not> (2 < op \<and> op < 8 \<or> 10 < op)" using assms(4) by auto
  then show ?thesis unfolding ws_header_two_def Let_def assms(1)
    by (simp add: assms(2,3,5-7) KL_WS_MASK_KEY_LEN_def)
qed

lemma ws_header_loop_two:
  assumes "ws_header_two (kl_ws_frame_init\<lparr>header_buf := [b0, b1]\<rparr>) =
    (0, kl_ws_frame_init\<lparr>header_buf := [b0, b1], fin := f, opcode := op, masked := m, header_need := 2 + length x\<rparr>)"
  shows "ws_header_loop kl_ws_frame_init (b0 # b1 # x @ data) 0 =
    (0, kl_ws_frame_init\<lparr>header_buf := b0 # b1 # x, fin := f, opcode := op, masked := m, header_need := 2 + length x\<rparr>, 2 + length x)"
  using assms ws_header_loop_fill [of "kl_ws_frame_init\<lparr>header_buf := [b0, b1], fin := f, opcode := op, masked := m, header_need := 2 + length x\<rparr>" x data "Suc (Suc 0)"]
  by (simp add: Let_def kl_ws_frame_init_def)

lemma ws_header_loop_header:
  assumes "ws_header_ok f op key len"
  shows "ws_header_loop kl_ws_frame_init (ws_header f op key len @ data) 0 =
    (0, kl_ws_frame_init\<lparr>header_buf := ws_header f op key len, fin := f, opcode := op, masked := (key \<noteq> None),
       header_need := length (ws_header f op key len)\<rparr>, length (ws_header f op key len))"
proof -
  have op: "op \<in> {0, 1, 2, 8, 9, 10}" and key: "length (case key of None \<Rightarrow> [] | Some k \<Rightarrow> k) = (if key = None then 0 else 4)"
    using assms by (auto simp: ws_header_ok_def split: option.splits)
  let ?b0 = "((if f then 0x80 else 0) :: byte) OR of_nat op" and ?m = "(if key \<noteq> None then 0x80 else 0) :: byte"
  have m: "(case key of None \<Rightarrow> 0 | Some k \<Rightarrow> 0x80) = ?m" by (cases key) simp_all
  obtain l xs where l: "l < 128" "ws_len_bytes ?m len = (?m OR of_nat l) # xs"
    "length xs = (if l = 126 then 2 else if l = 127 then 8 else 0)" using ws_len_bytes_first by metis
  let ?b1 = "?m OR of_nat l" and ?x = "xs @ (case key of None \<Rightarrow> [] | Some k \<Rightarrow> k)"
  have h: "ws_header f op key len = ?b0 # ?b1 # ?x" by (simp only: ws_header_def m l(2) append_Cons)
  have ll: "(of_nat l :: byte) = 126 \<longleftrightarrow> l = 126" "(of_nat l :: byte) = 127 \<longleftrightarrow> l = 127"
    using l(1) by (simp_all add: word_unat_eq_iff unat_of_nat)
  let ?fp = "kl_ws_frame_init\<lparr>header_buf := [?b0, ?b1]\<rparr>"
  have "header_buf ?fp = [?b0, ?b1]" by simp
  note two = ws_header_two_ok [OF this ws_first_byte(1,2) [OF op, of f] op ws_first_byte(3) [OF op, of f]
    ws_second_byte [OF l(1), of "key \<noteq> None"], unfolded ll, folded l(3)]
  have n: "length xs + (if key \<noteq> None then 4 else 0) = length ?x" using key by simp
  have len: "length (?b0 # ?b1 # ?x) = 2 + length ?x" by simp
  show ?thesis unfolding h append_Cons len by (rule ws_header_loop_two [OF two [unfolded n]])
qed

lemma kl_ws_frame_parse_header:
  assumes "ws_header_ok f op key len"
  shows "kl_ws_frame_parse kl_ws_frame_init (ws_header f op key len @ data) =
    ws_payload_phase (ws_header_fp f op key len) (length data) (length (ws_header f op key len))"
proof -
  let ?h = "ws_header f op key len"
  have ok: "8 \<le> op \<longrightarrow> f \<and> len \<le> 125" "len \<le> SIZE_MAX div 2"
    and k: "key = Some k \<Longrightarrow> length k = 4" for k using assms by (auto simp: ws_header_ok_def)
  have hl: "ws_header_len ?h = Some (len, 1 + length (ws_len_bytes (case key of None \<Rightarrow> 0 | Some k \<Rightarrow> 0x80) len))"
    unfolding ws_header_def by (rule ws_header_len_ok) (use ok in \<open>auto split: option.splits\<close>)
  have "ws_header_done (kl_ws_frame_init\<lparr>header_buf := ?h, fin := f, opcode := op, masked := (key \<noteq> None), header_need := length ?h\<rparr>) =
    (0, ws_header_fp f op key len)"
    using ok k hl by (cases key) (auto simp: ws_header_done_def ws_header_fp_def kl_ws_frame_init_def KL_WS_MASK_KEY_LEN_def, simp_all add: ws_header_def)
  then show ?thesis
    using ws_header_loop_header [OF assms, of data] by (simp add: kl_ws_frame_parse_def) (simp add: kl_ws_frame_init_def)
qed

section \<open>Invariant of the parser\<close>

text \<open>The MASK bit and the size of a header, from its second byte.\<close>

definition ws_mask_bit :: "byte \<Rightarrow> bool" where
  "ws_mask_bit b \<longleftrightarrow> drop_bit 7 b AND 1 = 1"

definition ws_need :: "byte \<Rightarrow> nat" where
  "ws_need b = 2 + ((if b AND 0x7F = 126 then 2 else if b AND 0x7F = 127 then 8 else 0) +
     (if ws_mask_bit b then 4 else 0))"

definition ws_parser_ok :: "KlWsFrameParser \<Rightarrow> bool" where
  "ws_parser_ok fp \<longleftrightarrow>
     length (header_buf fp) \<le> header_need fp \<and> header_need fp \<le> KL_WS_FRAME_HEADER_MAX \<and>
     (if length (header_buf fp) < 2 then header_need fp = 2
      else header_need fp = ws_need (header_buf fp ! 1) \<and> masked fp = ws_mask_bit (header_buf fp ! 1)) \<and>
     length (mask_key fp) = KL_WS_MASK_KEY_LEN \<and> payload_len fp \<le> SIZE_MAX div 2 \<and>
     (case fr_state fp of
        KL_WS_FRAME_HEADER \<Rightarrow> length (header_buf fp) < header_need fp \<and> payload_read fp = 0
      | KL_WS_FRAME_PAYLOAD \<Rightarrow> payload_read fp < payload_len fp
      | KL_WS_FRAME_COMPLETE \<Rightarrow> payload_read fp = payload_len fp)"

lemma ws_need_le: "2 \<le> ws_need b \<and> ws_need b \<le> 14"
  by (simp add: ws_need_def)

lemma ws_parser_ok_init [simp]: "ws_parser_ok kl_ws_frame_init"
  by (simp add: ws_parser_ok_def kl_ws_frame_init_def KL_WS_FRAME_HEADER_MAX_def KL_WS_MASK_KEY_LEN_def)

text \<open>What the accumulation loop keeps, at every byte.\<close>

definition ws_filling :: "KlWsFrameParser \<Rightarrow> bool" where
  "ws_filling fp \<longleftrightarrow> length (header_buf fp) \<le> header_need fp \<and> header_need fp \<le> KL_WS_FRAME_HEADER_MAX \<and>
     (if length (header_buf fp) < 2 then header_need fp = 2
      else header_need fp = ws_need (header_buf fp ! 1) \<and> masked fp = ws_mask_bit (header_buf fp ! 1)) \<and>
     length (mask_key fp) = KL_WS_MASK_KEY_LEN \<and> payload_len fp \<le> SIZE_MAX div 2 \<and> payload_read fp = 0"

lemma ws_header_two_filling:
  assumes "ws_header_two fp = (r, fp')" and "length (header_buf fp) = 2" and "header_need fp = 2"
  shows "header_buf fp' = header_buf fp \<and> mask_key fp' = mask_key fp \<and> payload_len fp' = payload_len fp \<and>
     payload_read fp' = payload_read fp \<and> r \<le> 0 \<and>
     (if r < 0 then header_need fp' = 2
      else header_need fp' = ws_need (header_buf fp ! 1) \<and> masked fp' = ws_mask_bit (header_buf fp ! 1))"
  using assms unfolding ws_header_two_def Let_def
  by (auto simp: ws_need_def ws_mask_bit_def KL_WS_MASK_KEY_LEN_def split: if_split_asm)

lemma ws_filling_byte:
  assumes "ws_filling fp" and "length (header_buf fp) < header_need fp"
    and "(if length (header_buf fp @ [b]) = 2 then ws_header_two (fp\<lparr>header_buf := header_buf fp @ [b]\<rparr>)
          else (0, fp\<lparr>header_buf := header_buf fp @ [b]\<rparr>)) = (r, fp')"
  shows "length (header_buf fp') \<le> KL_WS_FRAME_HEADER_MAX \<and> (\<not> r < 0 \<longrightarrow> ws_filling fp')"
proof (cases "length (header_buf fp) = 1")
  case True
  with assms(1) have "header_need fp = 2" by (simp add: ws_filling_def)
  with assms(3) True ws_header_two_filling [of "fp\<lparr>header_buf := header_buf fp @ [b]\<rparr>" r fp']
  have "header_buf fp' = header_buf fp @ [b]" "mask_key fp' = mask_key fp" "payload_len fp' = payload_len fp"
    "payload_read fp' = payload_read fp"
    "\<not> r < 0 \<longrightarrow> header_need fp' = ws_need b \<and> masked fp' = ws_mask_bit b"
    by (simp_all add: nth_append split: if_split_asm)
  with assms(1) True ws_need_le [of b] show ?thesis
    by (simp add: ws_filling_def KL_WS_FRAME_HEADER_MAX_def nth_append)
next
  case False
  then consider "header_buf fp = []" | "2 \<le> length (header_buf fp)" by (cases "header_buf fp") (auto simp: Suc_le_eq)
  then show ?thesis by cases (use assms in \<open>auto simp: ws_filling_def nth_append\<close>)
qed

lemma ws_header_loop_filling:
  assumes "ws_filling fp" and "ws_header_loop fp data n = (r, fp', m)"
  shows "length (header_buf fp') \<le> KL_WS_FRAME_HEADER_MAX \<and> m \<le> n + length data \<and> (\<not> r < 0 \<longrightarrow> ws_filling fp')"
  using assms
proof (induction fp data n rule: ws_header_loop.induct)
  case (2 fp c a n)
  show ?case
  proof (cases "length (header_buf fp) < header_need fp")
    case True
    let ?fp = "fp\<lparr>header_buf := header_buf fp @ [c]\<rparr>"
    obtain r1 fp1 where s: "(if length (header_buf ?fp) = 2 then ws_header_two ?fp else (0, ?fp)) = (r1, fp1)" by fastforce
    then have f: "length (header_buf fp1) \<le> KL_WS_FRAME_HEADER_MAX \<and> (\<not> r1 < 0 \<longrightarrow> ws_filling fp1)"
      using ws_filling_byte [OF "2.prems"(1) True] by simp
    show ?thesis
    proof (cases "r1 < 0")
      case True
      then have "ws_header_loop fp (c # a) n = (-1, fp1, n + 1)"
        using s \<open>length (header_buf fp) < header_need fp\<close> by (simp add: Let_def)
      with "2.prems"(2) f True show ?thesis by simp
    next
      case False
      with "2.prems" s True have l: "ws_header_loop fp1 a (n + 1) = (r, fp', m)" by (simp add: Let_def)
      have "ws_filling fp1" using f False by simp
      from "2.IH" [OF True refl s [symmetric] refl False this l] show ?thesis by simp
    qed
  next
    case False
    with "2.prems"(2) have "fp' = fp" "m = n" by simp_all
    with "2.prems"(1) show ?thesis by (simp add: ws_filling_def)
  qed
qed (auto simp: ws_filling_def)

lemma len7_cases: "(x :: byte) AND 0x7F < 126 \<or> x AND 0x7F = 126 \<or> x AND 0x7F = 127"
proof -
  have "x AND 0x7F = take_bit 7 x" using take_bit_eq_mask [of 7 x] by (simp add: mask_eq_exp_minus_1)
  then have "unat (x AND 0x7F) < 2 ^ 7" using take_bit_nat_less_exp [of 7 "unat x"] by (simp add: unsigned_take_bit_eq)
  then show ?thesis by (simp add: word_less_nat_alt word_unat_eq_iff) linarith
qed

lemma ws_header_len_offset:
  "ws_header_len h = Some (plen, off) \<Longrightarrow> off + (if ws_mask_bit (h ! 1) then 4 else 0) = ws_need (h ! 1) \<and> plen \<le> SIZE_MAX div 2"
proof -
  assume a: "ws_header_len h = Some (plen, off)"
  have "unat (push_bit 8 (ucast (h ! 2)) OR ucast (h ! 3) :: u64) \<le> SIZE_MAX div 2"
    unfolding unat_be16 using unat_byte_less [of "h ! 2"] unat_byte_less [of "h ! 3"] by (simp add: SIZE_MAX_def)
  moreover have "unat (h ! 1 AND 0x7F) \<le> SIZE_MAX div 2"
    using unat_byte_less [of "h ! 1 AND 0x7F"] by (simp add: SIZE_MAX_def)
  ultimately show ?thesis using a len7_cases [of "h ! 1"]
    by (auto simp: ws_header_len_def ws_need_def Let_def split: if_split_asm)
qed

lemma ws_header_done_ok:
  assumes "ws_filling fp" and "\<not> length (header_buf fp) < header_need fp" and "ws_header_done fp = (0, fp')"
  shows "ws_parser_ok fp' \<and> fr_state fp' \<noteq> KL_WS_FRAME_HEADER \<and> payload_read fp' = 0 \<and> header_buf fp' = header_buf fp"
proof -
  from assms(1) have f: "length (header_buf fp) \<le> header_need fp" "header_need fp \<le> KL_WS_FRAME_HEADER_MAX"
    "if length (header_buf fp) < 2 then header_need fp = 2
      else header_need fp = ws_need (header_buf fp ! 1) \<and> masked fp = ws_mask_bit (header_buf fp ! 1)"
    "length (mask_key fp) = KL_WS_MASK_KEY_LEN" by (simp_all add: ws_filling_def)
  then have "2 \<le> length (header_buf fp)" using assms(2) by (cases "length (header_buf fp) < 2") simp_all
  with f assms(2) have n: "length (header_buf fp) = ws_need (header_buf fp ! 1)" "header_need fp = ws_need (header_buf fp ! 1)"
    "masked fp = ws_mask_bit (header_buf fp ! 1)" by simp_all
  from assms(3) obtain plen off where l: "ws_header_len (header_buf fp) = Some (plen, off)"
    and fp': "fp' = fp\<lparr>payload_len := plen,
       mask_key := if masked fp then take KL_WS_MASK_KEY_LEN (drop off (header_buf fp)) else mask_key fp,
       payload_read := 0, fr_state := if plen = 0 then KL_WS_FRAME_COMPLETE else KL_WS_FRAME_PAYLOAD\<rparr>"
    by (auto simp: ws_header_done_def Let_def split: option.splits if_splits)
  note o = ws_header_len_offset [OF l]
  have "length (mask_key fp') = KL_WS_MASK_KEY_LEN" using f(4) n o by (auto simp: fp' KL_WS_MASK_KEY_LEN_def)
  then show ?thesis using f n o ws_need_le [of "header_buf fp ! 1"] by (simp add: fp' ws_parser_ok_def)
qed

lemma ws_payload_phase_ok:
  assumes "ws_parser_ok fp" and "fr_state fp \<noteq> KL_WS_FRAME_HEADER" and "ws_payload_phase fp k n = (r, fp', m)"
  shows "ws_parser_ok fp' \<and> header_buf fp' = header_buf fp \<and> m \<le> n + k \<and>
    (if fr_state fp = KL_WS_FRAME_PAYLOAD then n \<le> m \<and> payload_read fp' = payload_read fp + (m - n) else fp' = fp) \<and>
    (if r = 0 then m = n + k \<and> fr_state fp' = KL_WS_FRAME_PAYLOAD else r = 1 \<and> fr_state fp' = KL_WS_FRAME_COMPLETE)"
  using assms by (cases "fr_state fp") (auto simp: ws_payload_phase_def ws_parser_ok_def Let_def split: if_split_asm)

lemma kl_ws_frame_parse_ok:
  assumes "ws_parser_ok fp" and "kl_ws_frame_parse fp data = (r, fp', n)"
  shows "length (header_buf fp') \<le> KL_WS_FRAME_HEADER_MAX \<and> n \<le> length data \<and>
    (r = 0 \<longrightarrow> n = length data) \<and> (r \<noteq> -1 \<longrightarrow> (r = 0 \<or> r = 1) \<and> ws_parser_ok fp' \<and> (r = 1 \<longleftrightarrow> fr_state fp' = KL_WS_FRAME_COMPLETE) \<and>
      payload_read fp \<le> payload_read fp' \<and> payload_read fp' - payload_read fp \<le> n)"
proof (cases "fr_state fp = KL_WS_FRAME_HEADER")
  case False
  with assms show ?thesis using ws_payload_phase_ok [OF assms(1) False, of "length data" 0 r fp' n]
    by (auto simp: kl_ws_frame_parse_def ws_parser_ok_def split: if_split_asm)
next
  case True
  obtain r1 fp1 m where l: "ws_header_loop fp data 0 = (r1, fp1, m)" by (metis prod_cases3)
  have "ws_filling fp" using assms(1) True by (simp add: ws_filling_def ws_parser_ok_def)
  note f = ws_header_loop_filling [OF this l]
  note a = ws_header_loop_append [OF l, of "[]"]
  consider "r1 < 0" | "\<not> r1 < 0" "length (header_buf fp1) < header_need fp1"
    | "\<not> r1 < 0" "\<not> length (header_buf fp1) < header_need fp1" by blast
  then show ?thesis
  proof cases
    case 1
    with assms(2) True l f show ?thesis by (simp add: kl_ws_frame_parse_def)
  next
    case 2
    with assms(2) True l have e: "r = 0" "fp' = fp1" "n = m" by (simp_all add: kl_ws_frame_parse_def)
    have "ws_parser_ok fp1" using 2 f a True by (simp add: ws_filling_def ws_parser_ok_def)
    moreover have "payload_read fp = 0" "payload_read fp1 = 0"
      using assms(1) True 2 f by (simp_all add: ws_parser_ok_def ws_filling_def)
    ultimately show ?thesis using 2 f a e True by simp
  next
    case 3
    obtain r2 fp2 where d: "ws_header_done fp1 = (r2, fp2)" by fastforce
    show ?thesis
    proof (cases "r2 < 0")
      case True
      then have "r = -1" "fp' = fp2" "n = m"
        using assms(2) \<open>fr_state fp = KL_WS_FRAME_HEADER\<close> l 3 d by (simp_all add: kl_ws_frame_parse_def)
      moreover have "header_buf fp2 = header_buf fp1"
        using d by (auto simp: ws_header_done_def Let_def split: option.splits if_splits)
      ultimately show ?thesis using f by simp
    next
      case False
      with ws_header_done_state [OF d] have "r2 = 0" by auto
      note ok = ws_header_done_ok [of fp1 fp2] and d' = d [unfolded this]
      have p: "ws_payload_phase fp2 (length data - m) m = (r, fp', n)"
        using assms(2) True l 3 d False by (simp add: kl_ws_frame_parse_def)
      have g: "ws_parser_ok fp2 \<and> fr_state fp2 \<noteq> KL_WS_FRAME_HEADER \<and> payload_read fp2 = 0 \<and> header_buf fp2 = header_buf fp1"
        using ok [OF _ _ d'] f 3 by simp
      have "payload_read fp = 0" using assms(1) True by (simp add: ws_parser_ok_def)
      with ws_payload_phase_ok [OF _ _ p] f g show ?thesis by (auto split: if_split_asm)
    qed
  qed
qed

lemma kl_ws_frame_parse_progress:
  assumes "ws_parser_ok fp" and "fr_state fp \<noteq> KL_WS_FRAME_COMPLETE" and "data \<noteq> []" and "kl_ws_frame_parse fp data = (r, fp', n)"
  shows "0 < n"
proof (cases "fr_state fp = KL_WS_FRAME_HEADER")
  case True
  obtain b d where data: "data = b # d" using assms(3) by (cases data) auto
  obtain r1 fp1 m where l: "ws_header_loop fp data 0 = (r1, fp1, m)" by (metis prod_cases3)
  have "length (header_buf fp) < header_need fp" using assms(1) True by (simp add: ws_parser_ok_def)
  with l data have "0 < m"
    using ws_header_loop_shift [of _ d 0 1] by (auto simp: Let_def split: prod.splits if_split_asm)
  moreover have "m \<le> n"
    using assms(4) True l by (auto simp: kl_ws_frame_parse_def ws_payload_phase_def Let_def split: prod.splits if_split_asm)
  ultimately show ?thesis by simp
next
  case False
  then have p: "fr_state fp = KL_WS_FRAME_PAYLOAD" using assms(2) by (cases "fr_state fp") auto
  with assms show ?thesis by (auto simp: kl_ws_frame_parse_def ws_payload_phase_def ws_parser_ok_def Let_def split: if_split_asm)
qed

text \<open>In the payload of a frame only the count and the state move.\<close>

lemma kl_ws_frame_parse_payload:
  assumes "ws_parser_ok fp" and "fr_state fp = KL_WS_FRAME_PAYLOAD" and "kl_ws_frame_parse fp data = (r, fp', n)"
  shows "r \<noteq> -1 \<and> fr_state fp' \<noteq> KL_WS_FRAME_HEADER \<and> payload_read fp' = payload_read fp + n \<and>
    fp' = fp\<lparr>payload_read := payload_read fp', fr_state := fr_state fp'\<rparr>"
  using assms by (auto simp: kl_ws_frame_parse_def ws_payload_phase_def ws_parser_ok_def Let_def split: if_split_asm)



section \<open>Round trip\<close>

lemma ws_frame_header_eq:
  assumes "op \<in> {0, 1, 2, 8, 9, 10}"
  shows "ws_frame_header op len = ws_header True op None len" and "wsc_frame_header op key len = ws_header True op (Some key) len"
  using assms by (auto simp: ws_frame_header_def wsc_frame_header_def ws_header_def)

lemma ws_payload_phase_whole:
  assumes "ws_header_ok f op key (length p)"
  shows "\<exists>fp. kl_ws_frame_parse kl_ws_frame_init (ws_header f op key (length p) @ p @ rest) =
      (1, fp, length (ws_header f op key (length p)) + length p) \<and>
    fp = (ws_header_fp f op key (length p))\<lparr>fr_state := KL_WS_FRAME_COMPLETE, payload_read := length p\<rparr>"
  unfolding kl_ws_frame_parse_header [OF assms]
  by (simp add: ws_payload_phase_def ws_header_fp_def Let_def)

text \<open>
  C39. Every frame the server or the client writes is read back by the parser the other side runs. For any
  opcode, payload and following bytes, the parser consumes exactly the frame and reports it final, with its
  opcode and length; the server's frames are unmasked, and unmasking the client's with the key the parser
  extracted gives the payload back, at all three length encodings.
\<close>

theorem ws_frame_roundtrip:
  assumes "op \<in> {0, 1, 2, 8, 9, 10}" and "8 \<le> op \<longrightarrow> length p \<le> 125" and "length p \<le> SIZE_MAX div 2" and "length key = 4"
  shows "(\<exists>fp. kl_ws_frame_parse kl_ws_frame_init (ws_frame_header op (length p) @ p @ rest) =
        (1, fp, length (ws_frame_header op (length p)) + length p) \<and>
      fin fp \<and> opcode fp = op \<and> \<not> masked fp \<and> payload_len fp = length p) \<and>
    (\<exists>fp. kl_ws_frame_parse kl_ws_frame_init (wsc_frame_header op key (length p) @ concat (wsc_mask key 0 p) @ rest) =
        (1, fp, length (wsc_frame_header op key (length p)) + length p) \<and>
      fin fp \<and> opcode fp = op \<and> masked fp \<and> payload_len fp = length p \<and>
      ws_unmask (concat (wsc_mask key 0 p)) (mask_key fp) 0 = p)"
proof -
  let ?q = "concat (wsc_mask key 0 p)"
  have q: "?q = xor_key key 0 p" by (simp add: wsc_mask_xor)
  have "ws_header_ok True op None (length p)" and k: "ws_header_ok True op (Some key) (length ?q)"
    using assms by (auto simp: ws_header_ok_def q)
  from ws_payload_phase_whole [OF this(1), of rest] ws_payload_phase_whole [OF k, of rest]
  show ?thesis unfolding ws_frame_header_eq [OF assms(1)] by (auto simp: q ws_header_fp_def)
qed

theorem ws_frame_roundtrip_witness:
  "\<exists>fp. kl_ws_frame_parse kl_ws_frame_init (wsc_frame_header 1 [1, 2, 3, 4] 2 @ [0x49, 0x6B]) = (1, fp, 8) \<and>
     opcode fp = 1 \<and> ws_unmask [0x49, 0x6B] (mask_key fp) 0 = [0x48, 0x69]"
proof -
  have q: "concat (wsc_mask [1, 2, 3, 4] 0 [0x48, 0x69]) = [0x49, 0x6B]" by (simp add: wsc_mask_xor xor_key_def upt_rec)
  have "length (wsc_frame_header 1 [1, 2, 3, 4] 2) = 6" by (simp add: wsc_frame_header_def ws_len_bytes_def)
  moreover have "length [0x48, 0x69 :: byte] \<le> SIZE_MAX div 2" by (simp add: SIZE_MAX_def)
  ultimately show ?thesis
    using ws_frame_roundtrip [of 1 "[0x48, 0x69]" "[1, 2, 3, 4]" "[]"] q by (auto simp: numeral_2_eq_2)
qed

end
