(* ===== verification/Ws_Server.thy ===== *)
theory Ws_Server
  imports Ws_Frame Utf8 Drain
begin

text \<open>
  The WebSocket server (\<open>src/protocols/websocket/http_server_ws.c\<close>, \<open>ws_close.h\<close>,
  \<open>websocket_server_internal.h\<close>): sending frames directly or through a drain, reassembling and delivering
  messages, control frames, the closing handshake, and the keep-alive.

  A connection is the record \<open>KlWsServerConn\<close>. The environment \<open>'e\<close> is everything below and around it: the
  HTTP connection with its transport, the allocator, the clock and the application. It is reached through
  the functions of a \<open>ws_hooks\<close> record; \<open>app\<close> is the application's reaction to a callback, which may call
  back into the connection. Two ghost fields, which no operation reads, record the bytes the direct path
  has put on the transport (\<open>ws_out\<close>) and the callbacks made (\<open>events\<close>).
\<close>

section \<open>State\<close>

datatype ws_event =
  On_open
| On_message "byte list" bool
| On_close nat "byte list"
| On_ping "byte list"

datatype ws_ret = KL_HTTP_CONN_CLOSED | KL_HTTP_CONN_WEBSOCKET

record KlWsServerConfig =
  cb_open :: bool
  cb_message :: bool
  cb_close :: bool
  cb_ping :: bool
  max_message_size :: nat
  max_frame_size :: nat
  close_timeout_ms :: nat
  ping_interval_ms :: nat

record KlWsServerConn =
  config :: KlWsServerConfig
  frame :: KlWsFrameParser
  ctrl_buf :: "byte list"
  msg_buf :: "byte list"
  msg_cap :: nat
  msg_opcode :: nat
  utf8_state :: nat
  close_sent :: bool
  close_received :: bool
  close_deadline_ms :: u64
  next_ping_ms :: u64
  ping_unanswered :: bool
  ping_behind :: bool
  ping_progress :: u64
  ping_sent_ms :: u64
  drain_moved :: u64
  pong_buf :: "byte list"
  pong_owed :: bool
  ws_drain :: kl_drain
  drain_enabled :: bool
  ws_out :: "byte list"
  events :: "ws_event list"

record 'e ws_hooks =
  conn_write :: "byte list \<Rightarrow> 'e \<Rightarrow> int \<times> 'e"
  conn_read :: "nat \<Rightarrow> 'e \<Rightarrow> (int \<times> byte list) \<times> 'e"
  has_tls :: bool
  tls_pending :: "'e \<Rightarrow> int"
  out_would_block :: "nat \<Rightarrow> 'e \<Rightarrow> bool"
  write_window :: "nat \<Rightarrow> 'e \<Rightarrow> nat"
  sock_would_block :: "'e \<Rightarrow> bool"
  request_write :: "'e \<Rightarrow> 'e"
  set_last_active :: "u64 \<Rightarrow> 'e \<Rightarrow> 'e"
  send_progress :: "'e \<Rightarrow> u64"
  out_pending :: "'e \<Rightarrow> bool"
  monotonic_ms :: "'e \<Rightarrow> u64 \<times> 'e"
  sizeof_conn :: nat
  ws_alloc :: "nat \<Rightarrow> 'e \<Rightarrow> bool \<times> 'e"
  app :: "ws_event \<Rightarrow> KlWsServerConn \<Rightarrow> 'e \<Rightarrow> KlWsServerConn \<times> 'e"

definition WS_DEFAULT_MAX_MESSAGE :: nat where "WS_DEFAULT_MAX_MESSAGE = 1024 * 1024"

definition WS_DEFAULT_MAX_FRAME :: nat where "WS_DEFAULT_MAX_FRAME = 64 * 1024"

definition WS_DEFAULT_CLOSE_TIMEOUT :: nat where "WS_DEFAULT_CLOSE_TIMEOUT = 5000"

definition KL_HTTP_CONN_WRITE_SPIN_MAX :: nat where "KL_HTTP_CONN_WRITE_SPIN_MAX = 256"

definition KL_HTTP_CONN_READ_BUF_SIZE :: nat where "KL_HTTP_CONN_READ_BUF_SIZE = 8192"

abbreviation (input) KL_WS_GOING_AWAY :: nat where "KL_WS_GOING_AWAY \<equiv> 1001"
abbreviation (input) KL_WS_PROTOCOL_ERROR :: nat where "KL_WS_PROTOCOL_ERROR \<equiv> 1002"
abbreviation (input) KL_WS_TOO_BIG :: nat where "KL_WS_TOO_BIG \<equiv> 1009"

definition kl_ws_server_config_init :: KlWsServerConfig where
  "kl_ws_server_config_init =
     \<lparr>cb_open = False, cb_message = False, cb_close = False, cb_ping = False,
      max_message_size = 0, max_frame_size = 0, close_timeout_ms = 0, ping_interval_ms = 0\<rparr>"

definition ws_max_message :: "KlWsServerConfig \<Rightarrow> nat" where
  "ws_max_message cfg = (if max_message_size cfg \<noteq> 0 then max_message_size cfg else WS_DEFAULT_MAX_MESSAGE)"

definition ws_max_frame :: "KlWsServerConfig \<Rightarrow> nat" where
  "ws_max_frame cfg = (if max_frame_size cfg \<noteq> 0 then max_frame_size cfg else WS_DEFAULT_MAX_FRAME)"

definition ws_close_timeout :: "KlWsServerConfig \<Rightarrow> nat" where
  "ws_close_timeout cfg = (if close_timeout_ms cfg \<noteq> 0 then close_timeout_ms cfg else WS_DEFAULT_CLOSE_TIMEOUT)"

text \<open>Calling the application back.\<close>

definition ws_notify :: "'e ws_hooks \<Rightarrow> ws_event \<Rightarrow> KlWsServerConn \<Rightarrow> 'e \<Rightarrow> KlWsServerConn \<times> 'e" where
  "ws_notify H ev ws e = app H ev (ws\<lparr>events := events ws @ [ev]\<rparr>) e"

section \<open>Sending\<close>

definition ws_drain_writer :: "'e ws_hooks \<Rightarrow> byte list \<Rightarrow> 'e \<Rightarrow> int \<times> 'e" where
  "ws_drain_writer H data e =
     (let (nw, e) = conn_write H (take (write_window H (length data) e) data) e in
      if nw < 0 then if \<not> has_tls H \<and> sock_would_block H e then (0, e) else (-1, e)
      else (nw, e))"

text \<open>The connection installs neither of the drain's callbacks.\<close>

definition ws_dh :: "'e ws_hooks \<Rightarrow> 'e drain_hooks" where
  "ws_dh H = \<lparr>wfn = ws_drain_writer H, dr_realloc = ws_alloc H, cb_writable = (\<lambda>d e. (d, e)), cb_drain = (\<lambda>d e. (d, e))\<rparr>"

definition kl_ws_server_enable_drain :: "nat \<Rightarrow> KlWsServerConn \<Rightarrow> int \<times> KlWsServerConn" where
  "kl_ws_server_enable_drain max_sz ws =
     (if drain_enabled ws then
        (0, if max_sz > 0 then ws\<lparr>ws_drain := kl_drain_set_max_size max_sz (ws_drain ws)\<rparr> else ws)
      else let d = kl_drain_init; d = (if max_sz > 0 then kl_drain_set_max_size max_sz d else d)
           in (0, ws\<lparr>ws_drain := d, drain_enabled := True\<rparr>))"

text \<open>
  \<open>conn_write_all\<close>: the last result is what the transport took, for the ghost field. A write never reports
  more bytes than it was given.
\<close>

function conn_write_all :: "'e ws_hooks \<Rightarrow> byte list \<Rightarrow> nat \<Rightarrow> 'e \<Rightarrow> int \<times> byte list \<times> 'e" where
  "conn_write_all H data spins e =
     (if data \<noteq> [] then
        let (nw, e) = conn_write H data e in
        if nw < 0 then (-1, [], e)
        else if nw = 0 then
          if out_would_block H (length data) e then (-1, [], e)
          else if spins + 1 > KL_HTTP_CONN_WRITE_SPIN_MAX then (-1, [], e)
          else conn_write_all H data (spins + 1) e
        else let (r, out, e) = conn_write_all H (drop (nat nw) data) 0 e in (r, take (nat nw) data @ out, e)
      else (0, [], e))"
  by pat_completeness auto
termination
  by (relation "measures [\<lambda>(H, data, spins, e). length data, \<lambda>(H, data, spins, e). KL_HTTP_CONN_WRITE_SPIN_MAX - spins]") auto

declare conn_write_all.simps [simp del]

text \<open>
  The two paths of \<open>ws_send_frame\<close>. A failed write stops all sending and makes the connection due for
  closing.
\<close>

definition ws_send_failed :: "'e ws_hooks \<Rightarrow> KlWsServerConn \<Rightarrow> 'e \<Rightarrow> int \<times> KlWsServerConn \<times> 'e" where
  "ws_send_failed H ws e =
     (let (now, e) = monotonic_ms H e in (-1, ws\<lparr>close_sent := True, close_deadline_ms := now\<rparr>, e))"

definition ws_send_drained :: "'e ws_hooks \<Rightarrow> nat \<Rightarrow> byte list \<Rightarrow> KlWsServerConn \<Rightarrow> 'e \<Rightarrow> int \<times> KlWsServerConn \<times> 'e" where
  "ws_send_drained H op data ws e =
     (if close_sent ws \<and> op \<noteq> KL_WS_OP_CLOSE then (-1, ws, e)
      else let was_pending = kl_drain_pending (ws_drain ws);
               (r, d, e) = kl_drain_write (ws_dh H) (ws_frame_header op (length data)) (ws_drain ws) e;
               (r, d, e) = (if r < 0 then (r, d, e)
                            else if length data > 0 then kl_drain_write (ws_dh H) data d e else (0, d, e));
               ws = ws\<lparr>ws_drain := d\<rparr>
           in if r < 0 then ws_send_failed H ws e
              else (0, ws, if was_pending = 0 \<and> kl_drain_pending (ws_drain ws) \<noteq> 0 then request_write H e else e))"

definition ws_send_direct :: "'e ws_hooks \<Rightarrow> nat \<Rightarrow> byte list \<Rightarrow> KlWsServerConn \<Rightarrow> 'e \<Rightarrow> int \<times> KlWsServerConn \<times> 'e" where
  "ws_send_direct H op data ws e =
     (let (r, out, e) = conn_write_all H (ws_frame_header op (length data)) 0 e;
          ws = ws\<lparr>ws_out := ws_out ws @ out\<rparr>
      in if r < 0 then ws_send_failed H ws e
         else if length data > 0 then
           let (r, out, e) = conn_write_all H data 0 e; ws = ws\<lparr>ws_out := ws_out ws @ out\<rparr>
           in if r < 0 then ws_send_failed H ws e else (0, ws, e)
         else (0, ws, e))"

text \<open>
  \<open>ws_drain_backlog\<close> and \<open>ws_send_frame\<close> call each other: moving the backlog may send the PONG that is
  owed, and a send first moves the backlog. The recursion ends because the PONG is owed once.
\<close>

function ws_drain_backlog :: "'e ws_hooks \<Rightarrow> KlWsServerConn \<Rightarrow> 'e \<Rightarrow> int \<times> KlWsServerConn \<times> 'e"
  and ws_send_frame :: "'e ws_hooks \<Rightarrow> nat \<Rightarrow> byte list \<Rightarrow> KlWsServerConn \<Rightarrow> 'e \<Rightarrow> int \<times> KlWsServerConn \<times> 'e" where
  "ws_drain_backlog H ws e =
     (let before = kl_drain_buffered (ws_drain ws);
          (r, d, e) = kl_drain_flush (ws_dh H) (ws_drain ws) e;
          after = kl_drain_buffered d;
          moved = (if after < before then drain_moved ws + of_nat (before - after) else drain_moved ws)
      in if r = 0 \<and> pong_owed ws then
           if \<not> close_sent ws then
             let (_, ws, e) = ws_send_frame H KL_WS_OP_PONG (pong_buf ws) (ws\<lparr>ws_drain := d, drain_moved := moved, pong_owed := False\<rparr>) e
             in (r, ws, e)
           else (r, ws\<lparr>ws_drain := d, drain_moved := moved, pong_owed := False\<rparr>, e)
         else (r, ws\<lparr>ws_drain := d, drain_moved := moved\<rparr>, e))"
| "ws_send_frame H op data ws e =
     (if drain_enabled ws then
        if kl_drain_pending (ws_drain ws) \<noteq> 0 then
          let (r, ws, e) = ws_drain_backlog H ws e in
          if r < 0 then ws_send_failed H ws e else ws_send_drained H op data ws e
        else ws_send_drained H op data ws e
      else ws_send_direct H op data ws e)"
  by pat_completeness auto
termination
  by (relation "measure (\<lambda>x. case x of Inl (H, ws, e) \<Rightarrow> 2 * of_bool (pong_owed ws)
      | Inr (H, op, data, ws, e) \<Rightarrow> 2 * of_bool (pong_owed ws) + 1)") auto

declare ws_drain_backlog.simps [simp del] ws_send_frame.simps [simp del]

definition kl_ws_server_send_text :: "'e ws_hooks \<Rightarrow> byte list \<Rightarrow> KlWsServerConn \<Rightarrow> 'e \<Rightarrow> int \<times> KlWsServerConn \<times> 'e" where
  "kl_ws_server_send_text H data ws e =
     (if close_sent ws then (-1, ws, e) else ws_send_frame H KL_WS_OP_TEXT data ws e)"

definition kl_ws_server_send_binary :: "'e ws_hooks \<Rightarrow> byte list \<Rightarrow> KlWsServerConn \<Rightarrow> 'e \<Rightarrow> int \<times> KlWsServerConn \<times> 'e" where
  "kl_ws_server_send_binary H data ws e =
     (if close_sent ws then (-1, ws, e) else ws_send_frame H KL_WS_OP_BINARY data ws e)"

definition kl_ws_server_send_ping :: "'e ws_hooks \<Rightarrow> byte list \<Rightarrow> KlWsServerConn \<Rightarrow> 'e \<Rightarrow> int \<times> KlWsServerConn \<times> 'e" where
  "kl_ws_server_send_ping H data ws e =
     (if close_sent ws then (-1, ws, e)
      else if length data > 125 then (-1, ws, e)
      else ws_send_frame H KL_WS_OP_PING data ws e)"

definition ws_close_payload :: "nat \<Rightarrow> byte list \<Rightarrow> byte list" where
  "ws_close_payload code reason =
     (if code \<noteq> 0 then [of_nat (drop_bit 8 code), of_nat code] @ take 123 reason else [])"

definition kl_ws_server_close :: "'e ws_hooks \<Rightarrow> nat \<Rightarrow> byte list \<Rightarrow> KlWsServerConn \<Rightarrow> 'e \<Rightarrow> int \<times> KlWsServerConn \<times> 'e" where
  "kl_ws_server_close H code reason ws e =
     (if close_sent ws then (0, ws, e)
      else let (now, e) = monotonic_ms H e;
               ws = ws\<lparr>close_sent := True, close_deadline_ms := now + of_nat (ws_close_timeout (config ws))\<rparr>
           in ws_send_frame H KL_WS_OP_CLOSE (ws_close_payload code reason) ws e)"

section \<open>Receiving\<close>

definition kl_ws_close_payload_check :: "byte list \<Rightarrow> nat" where
  "kl_ws_close_payload_check p =
     (if length p = 0 then 0
      else if length p = 1 then KL_WS_PROTOCOL_ERROR
      else let code = unat (push_bit 8 (ucast (p ! 0)) OR (ucast (p ! 1)) :: u32) in
        if \<not> (1000 \<le> code \<and> code \<le> 1003 \<or> 1007 \<le> code \<and> code \<le> 1014 \<or> 3000 \<le> code \<and> code \<le> 4999)
        then KL_WS_PROTOCOL_ERROR
        else if kl_utf8_validate KL_UTF8_ACCEPT (drop 2 p) = KL_UTF8_ACCEPT then 0 else 1007)"

abbreviation invalid_utf8 :: "byte list" where "invalid_utf8 \<equiv> to_bytes ''Invalid UTF-8''"

text \<open>A call that fails the connection with a status and returns \<open>KL_HTTP_CONN_CLOSED\<close>.\<close>

definition ws_fail :: "'e ws_hooks \<Rightarrow> nat \<Rightarrow> byte list \<Rightarrow> KlWsServerConn \<Rightarrow> 'e \<Rightarrow> ws_ret option \<times> KlWsServerConn \<times> 'e" where
  "ws_fail H code reason ws e =
     (let (_, ws, e) = kl_ws_server_close H code reason ws e in (Some KL_HTTP_CONN_CLOSED, ws, e))"

definition ws_deliver_message :: "'e ws_hooks \<Rightarrow> KlWsServerConn \<Rightarrow> 'e \<Rightarrow> ws_ret option \<times> KlWsServerConn \<times> 'e" where
  "ws_deliver_message H ws e =
     (let is_binary = (msg_opcode ws = KL_WS_OP_BINARY) in
      if \<not> is_binary \<and> utf8_state ws \<noteq> KL_UTF8_ACCEPT then ws_fail H 1007 invalid_utf8 ws e
      else let (ws, e) = (if cb_message (config ws) then ws_notify H (On_message (msg_buf ws) is_binary) ws e else (ws, e))
           in (None, ws\<lparr>msg_buf := [], msg_opcode := 0, utf8_state := KL_UTF8_ACCEPT\<rparr>, e))"

definition ws_msg_grow :: "'e ws_hooks \<Rightarrow> nat \<Rightarrow> KlWsServerConn \<Rightarrow> 'e \<Rightarrow> int \<times> KlWsServerConn \<times> 'e" where
  "ws_msg_grow H additional ws e =
     (if additional > SIZE_MAX - length (msg_buf ws) then (-1, ws, e)
      else let needed = length (msg_buf ws) + additional in
      if needed > ws_max_message (config ws) then (-1, ws, e)
      else if needed > msg_cap ws then
        let new_cap = (if msg_cap ws \<noteq> 0 then msg_cap ws * 2 else 4096);
            new_cap = (if new_cap < needed then needed else new_cap);
            new_cap = (if new_cap > ws_max_message (config ws) then ws_max_message (config ws) else new_cap)
        in if new_cap > SIZE_MAX div 2 then (-1, ws, e)
           else let (ok, e) = ws_alloc H new_cap e in
             if \<not> ok then (-1, ws, e) else (0, ws\<lparr>msg_cap := new_cap\<rparr>, e)
      else (0, ws, e))"

definition ws_handle_close :: "'e ws_hooks \<Rightarrow> byte list \<Rightarrow> KlWsServerConn \<Rightarrow> 'e \<Rightarrow> ws_ret option \<times> KlWsServerConn \<times> 'e" where
  "ws_handle_close H payload ws e =
     (let ws = ws\<lparr>close_received := True\<rparr>;
          bad = kl_ws_close_payload_check payload;
          code = (if bad \<noteq> 0 then bad
                  else if length payload \<ge> 2 then unat (push_bit 8 (ucast (payload ! 0)) OR (ucast (payload ! 1)) :: u16)
                  else 1005);
          reason = (if bad = 0 then drop 2 payload else []);
          (_, ws, e) = (if bad \<noteq> 0 then kl_ws_server_close H code [] ws e
                        else if \<not> close_sent ws
                        then kl_ws_server_close H (if length payload \<ge> 2 then code else 0) reason ws e
                        else (0, ws, e));
          (ws, e) = (if cb_close (config ws) then ws_notify H (On_close code reason) ws e else (ws, e))
      in (Some KL_HTTP_CONN_CLOSED, ws, e))"

definition ws_handle_ping :: "'e ws_hooks \<Rightarrow> byte list \<Rightarrow> KlWsServerConn \<Rightarrow> 'e \<Rightarrow> KlWsServerConn \<times> 'e" where
  "ws_handle_ping H payload ws e =
     (if cb_ping (config ws) then ws_notify H (On_ping payload) ws e
      else if \<not> close_sent ws then
        if drain_enabled ws \<and> kl_drain_pending (ws_drain ws) \<noteq> 0
        then (ws\<lparr>pong_buf := take 125 payload, pong_owed := True\<rparr>, e)
        else let (_, ws, e) = ws_send_frame H KL_WS_OP_PONG payload ws e in (ws, e)
      else (ws, e))"

text \<open>
  The payload bytes one parse call consumed. \<open>frame_start\<close>: none of the frame's payload came before;
  \<open>rc\<close> is the parser's verdict, 1 when these bytes complete the frame.
\<close>

definition ws_control_chunk :: "'e ws_hooks \<Rightarrow> int \<Rightarrow> bool \<Rightarrow> byte list \<Rightarrow> KlWsServerConn \<Rightarrow> 'e \<Rightarrow> ws_ret option \<times> KlWsServerConn \<times> 'e" where
  "ws_control_chunk H rc frame_start chunk ws e =
     (let op = opcode (frame ws);
          ws = (if frame_start then ws\<lparr>ctrl_buf := []\<rparr> else ws);
          ws = ws\<lparr>ctrl_buf := ctrl_buf ws @ chunk\<rparr>
      in if rc = 1 then
           if op = KL_WS_OP_CLOSE then ws_handle_close H (ctrl_buf ws) ws e
           else if op = KL_WS_OP_PING then
             let (ws, e) = ws_handle_ping H (ctrl_buf ws) ws e in (None, ws, e)
           else (None, ws, e)
         else (None, ws, e))"

definition ws_append_chunk :: "'e ws_hooks \<Rightarrow> int \<Rightarrow> byte list \<Rightarrow> KlWsServerConn \<Rightarrow> 'e \<Rightarrow> ws_ret option \<times> KlWsServerConn \<times> 'e" where
  "ws_append_chunk H rc chunk ws e =
     (let (r, ws, e) = ws_msg_grow H (length chunk) ws e in
      if r < 0 then ws_fail H KL_WS_TOO_BIG [] ws e
      else let ws = ws\<lparr>msg_buf := msg_buf ws @ chunk\<rparr>;
               ws = (if msg_opcode ws = KL_WS_OP_TEXT then ws\<lparr>utf8_state := kl_utf8_validate (utf8_state ws) chunk\<rparr> else ws)
           in if msg_opcode ws = KL_WS_OP_TEXT \<and> utf8_state ws = KL_UTF8_REJECT then ws_fail H 1007 invalid_utf8 ws e
              else if rc = 1 \<and> fin (frame ws) then ws_deliver_message H ws e
              else (None, ws, e))"

text \<open>Opening a message, or checking that one is open; \<open>None\<close> is the protocol error.\<close>

definition ws_open_message :: "KlWsServerConn \<Rightarrow> KlWsServerConn option" where
  "ws_open_message ws =
     (if opcode (frame ws) \<noteq> KL_WS_OP_CONTINUATION then
        if msg_opcode ws \<noteq> 0 then None
        else Some (ws\<lparr>msg_opcode := opcode (frame ws), msg_buf := [], utf8_state := KL_UTF8_ACCEPT\<rparr>)
      else if msg_opcode ws = 0 then None else Some ws)"

definition ws_data_chunk :: "'e ws_hooks \<Rightarrow> int \<Rightarrow> bool \<Rightarrow> byte list \<Rightarrow> KlWsServerConn \<Rightarrow> 'e \<Rightarrow> ws_ret option \<times> KlWsServerConn \<times> 'e" where
  "ws_data_chunk H rc frame_start chunk ws e =
     (case (if frame_start then ws_open_message ws else Some ws) of
        None \<Rightarrow> ws_fail H KL_WS_PROTOCOL_ERROR [] ws e
      | Some ws \<Rightarrow> ws_append_chunk H rc chunk ws e)"

text \<open>A frame completed without payload in this call.\<close>

definition ws_empty_frame :: "'e ws_hooks \<Rightarrow> KlWsServerConn \<Rightarrow> 'e \<Rightarrow> ws_ret option \<times> KlWsServerConn \<times> 'e" where
  "ws_empty_frame H ws e =
     (let op = opcode (frame ws) in
      if op = KL_WS_OP_CLOSE then ws_handle_close H [] ws e
      else if op = KL_WS_OP_PING then let (ws, e) = ws_handle_ping H [] ws e in (None, ws, e)
      else if op < 8 \<and> payload_len (frame ws) = 0 then
        case ws_open_message ws of
          None \<Rightarrow> ws_fail H KL_WS_PROTOCOL_ERROR [] ws e
        | Some ws \<Rightarrow> if fin (frame ws) then ws_deliver_message H ws e else (None, ws, e)
      else if op < 8 \<and> fin (frame ws) \<and> msg_opcode ws \<noteq> 0 then ws_deliver_message H ws e
      else (None, ws, e))"

text \<open>One turn of the loop of \<open>kl_ws_server_on_readable_data\<close>: a return value or \<open>None\<close>, and the bytes consumed.\<close>

definition ws_frame_turn :: "'e ws_hooks \<Rightarrow> byte list \<Rightarrow> KlWsServerConn \<Rightarrow> 'e \<Rightarrow> nat \<times> ws_ret option \<times> KlWsServerConn \<times> 'e" where
  "ws_frame_turn H data ws e =
     (let payload_before = payload_read (frame ws);
          (rc, fp, consumed) = kl_ws_frame_parse (frame ws) data;
          ws = ws\<lparr>frame := fp\<rparr>
      in if rc < 0 then (consumed, ws_fail H KL_WS_PROTOCOL_ERROR [] ws e)
         else if fr_state fp \<noteq> KL_WS_FRAME_HEADER \<and> \<not> masked fp then (consumed, ws_fail H KL_WS_PROTOCOL_ERROR [] ws e)
         else
           let payload_consumed = payload_read fp - payload_before;
               (ret, ws, e) =
                 (if payload_consumed > 0 \<and> fr_state fp \<noteq> KL_WS_FRAME_HEADER then
                    let chunk = take payload_consumed (drop (consumed - payload_consumed) data);
                        chunk = (if masked fp then ws_unmask chunk (mask_key fp) payload_before else chunk)
                    in if payload_len fp > ws_max_frame (config ws) then ws_fail H KL_WS_TOO_BIG [] ws e
                       else if opcode fp \<ge> 8 then ws_control_chunk H rc (payload_before = 0) chunk ws e
                       else ws_data_chunk H rc (payload_before = 0) chunk ws e
                  else if rc = 1 then ws_empty_frame H ws e
                  else (None, ws, e))
           in case ret of
                Some r \<Rightarrow> (consumed, Some r, ws, e)
              | None \<Rightarrow> (consumed, None, if rc = 1 then ws\<lparr>frame := kl_ws_frame_init\<rparr> else ws, e))"

definition ws_readable_done :: "KlWsServerConn \<Rightarrow> 'e \<Rightarrow> ws_ret \<times> KlWsServerConn \<times> 'e" where
  "ws_readable_done ws e =
     (if close_sent ws \<and> close_received ws then KL_HTTP_CONN_CLOSED else KL_HTTP_CONN_WEBSOCKET, ws, e)"

function ws_frame_loop :: "'e ws_hooks \<Rightarrow> byte list \<Rightarrow> KlWsServerConn \<Rightarrow> 'e \<Rightarrow> ws_ret \<times> KlWsServerConn \<times> 'e" where
  "ws_frame_loop H data ws e =
     (if data \<noteq> [] then
        case ws_frame_turn H data ws e of
          (consumed, Some r, ws, e) \<Rightarrow> (r, ws, e)
        | (consumed, None, ws, e) \<Rightarrow>
            if consumed = 0 then ws_readable_done ws e else ws_frame_loop H (drop consumed data) ws e
      else ws_readable_done ws e)"
  by pat_completeness auto
termination by (relation "measure (\<lambda>(H, data, ws, e). length data)") auto

declare ws_frame_loop.simps [simp del]

definition kl_ws_server_on_readable_data :: "'e ws_hooks \<Rightarrow> byte list \<Rightarrow> KlWsServerConn \<Rightarrow> 'e \<Rightarrow> ws_ret \<times> KlWsServerConn \<times> 'e" where
  "kl_ws_server_on_readable_data H data ws e =
     ws_frame_loop H data (if length data > 0 then ws\<lparr>ping_unanswered := False\<rparr> else ws) e"

section \<open>Events of the connection\<close>

text \<open>The loop of \<open>kl_ws_server_on_readable\<close> runs at most 256 times; \<open>drains\<close> counts down.\<close>

fun ws_read_more :: "'e ws_hooks \<Rightarrow> nat \<Rightarrow> KlWsServerConn \<Rightarrow> 'e \<Rightarrow> ws_ret \<times> KlWsServerConn \<times> 'e" where
  "ws_read_more H 0 ws e = (KL_HTTP_CONN_WEBSOCKET, ws, e)"
| "ws_read_more H (Suc drains) ws e =
     (let ((nr, buf), e) = conn_read H KL_HTTP_CONN_READ_BUF_SIZE e in
      if nr = 0 \<and> has_tls H then (KL_HTTP_CONN_WEBSOCKET, ws, e)
      else if nr \<le> 0 then (KL_HTTP_CONN_CLOSED, ws, e)
      else let (st, ws, e) = kl_ws_server_on_readable_data H (take (nat nr) buf) ws e in
        if st = KL_HTTP_CONN_WEBSOCKET \<and> has_tls H \<and> tls_pending H e > 0 then ws_read_more H drains ws e
        else (st, ws, e))"

definition kl_ws_server_on_readable :: "'e ws_hooks \<Rightarrow> KlWsServerConn \<Rightarrow> 'e \<Rightarrow> ws_ret \<times> KlWsServerConn \<times> 'e" where
  "kl_ws_server_on_readable H ws e =
     (let (now, e) = monotonic_ms H e in ws_read_more H 256 ws (set_last_active H now e))"

definition kl_ws_server_on_writable :: "'e ws_hooks \<Rightarrow> KlWsServerConn \<Rightarrow> 'e \<Rightarrow> ws_ret \<times> KlWsServerConn \<times> 'e" where
  "kl_ws_server_on_writable H ws e =
     (if \<not> drain_enabled ws then (KL_HTTP_CONN_WEBSOCKET, ws, e)
      else let (r, ws, e) = ws_drain_backlog H ws e in
        (if r < 0 then KL_HTTP_CONN_CLOSED else KL_HTTP_CONN_WEBSOCKET, ws, e))"

definition kl_ws_server_drain_pending :: "KlWsServerConn \<Rightarrow> int" where
  "kl_ws_server_drain_pending ws = (if \<not> drain_enabled ws then 0 else kl_drain_pending (ws_drain ws))"

text \<open>What is left of the connection when its memory is released.\<close>

definition kl_ws_server_cleanup :: "'e ws_hooks \<Rightarrow> KlWsServerConn \<Rightarrow> 'e \<Rightarrow> KlWsServerConn \<times> 'e" where
  "kl_ws_server_cleanup H ws e =
     (let ws = ws\<lparr>close_sent := True\<rparr>;
          (ws, e) = (if \<not> close_received ws \<and> cb_close (config ws) then ws_notify H (On_close 1006 []) ws e else (ws, e));
          ws = (if drain_enabled ws then ws\<lparr>ws_drain := kl_drain_free (ws_drain ws)\<rparr> else ws)
      in (ws, e))"

definition kl_ws_server_drain_close :: "'e ws_hooks \<Rightarrow> KlWsServerConn \<Rightarrow> 'e \<Rightarrow> KlWsServerConn \<times> 'e" where
  "kl_ws_server_drain_close H ws e =
     (if close_sent ws then (ws, e)
      else let (_, ws, e) = kl_ws_server_close H KL_WS_GOING_AWAY (to_bytes ''Server shutting down'') ws e in (ws, e))"

definition kl_ws_server_check_close_timeout :: "KlWsServerConn \<Rightarrow> u64 \<Rightarrow> bool" where
  "kl_ws_server_check_close_timeout ws now \<longleftrightarrow> close_sent ws \<and> \<not> close_received ws \<and> now \<ge> close_deadline_ms ws"

definition ws_out_progress :: "'e ws_hooks \<Rightarrow> KlWsServerConn \<Rightarrow> 'e \<Rightarrow> u64" where
  "ws_out_progress H ws e = send_progress H e + drain_moved ws"

definition ws_out_pending :: "'e ws_hooks \<Rightarrow> KlWsServerConn \<Rightarrow> 'e \<Rightarrow> bool" where
  "ws_out_pending H ws e \<longleftrightarrow> out_pending H e \<or> drain_enabled ws \<and> kl_drain_pending (ws_drain ws) \<noteq> 0"

text \<open>The second half of \<open>kl_ws_server_auto_ping\<close>: a new interval begins.\<close>

definition ws_ping_interval :: "'e ws_hooks \<Rightarrow> u64 \<Rightarrow> KlWsServerConn \<Rightarrow> 'e \<Rightarrow> int \<times> KlWsServerConn \<times> 'e" where
  "ws_ping_interval H now ws e =
     (let ws = ws\<lparr>ping_behind := ws_out_pending H ws e\<rparr>;
          (sent, ws, e) = (if \<not> ping_behind ws then
                             let (_, ws, e) = kl_ws_server_send_ping H [] ws e in (1, ws, e)
                           else (0, ws, e))
      in (sent, ws\<lparr>ping_progress := ws_out_progress H ws e, ping_sent_ms := now, ping_unanswered := True,
                  next_ping_ms := now + of_nat (ping_interval_ms (config ws))\<rparr>, e))"

definition kl_ws_server_auto_ping :: "'e ws_hooks \<Rightarrow> u64 \<Rightarrow> u64 \<Rightarrow> KlWsServerConn \<Rightarrow> 'e \<Rightarrow> int \<times> KlWsServerConn \<times> 'e" where
  "kl_ws_server_auto_ping H now stall_ms ws e =
     (if next_ping_ms ws = 0 then (0, ws, e)
      else if close_sent ws \<or> close_received ws then (0, ws, e)
      else if now < next_ping_ms ws then (0, ws, e)
      else if ping_unanswered ws then
        if ping_behind ws \<and> ws_out_progress H ws e \<noteq> ping_progress ws
        then ws_ping_interval H now (ws\<lparr>ping_unanswered := False\<rparr>) e
        else if ping_behind ws \<and> now - ping_sent_ms ws < stall_ms
        then (0, ws\<lparr>next_ping_ms := now + of_nat (ping_interval_ms (config ws))\<rparr>, e)
        else let (_, ws, e) = kl_ws_server_close H KL_WS_GOING_AWAY [] ws e
             in (0, ws\<lparr>close_deadline_ms := now\<rparr>, e)
      else ws_ping_interval H now ws e)"

text \<open>
  The rest of \<open>kl_ws_server_upgrade\<close>, after the handshake of \<open>ws_upgrade_response\<close> accepted the request.
  \<open>None\<close> for the connection is a failure before the callbacks.
\<close>

definition ws_new_conn :: "KlWsServerConfig \<Rightarrow> KlWsServerConn" where
  "ws_new_conn cfg =
     \<lparr>config = cfg, frame = kl_ws_frame_init, ctrl_buf = [], msg_buf = [], msg_cap = 0, msg_opcode = 0,
      utf8_state = KL_UTF8_ACCEPT, close_sent = False, close_received = False, close_deadline_ms = 0,
      next_ping_ms = 0, ping_unanswered = False, ping_behind = False, ping_progress = 0, ping_sent_ms = 0,
      drain_moved = 0, pong_buf = [], pong_owed = False, ws_drain = kl_drain_init, drain_enabled = False,
      ws_out = [], events = []\<rparr>"

definition ws_upgrade_finish :: "'e ws_hooks \<Rightarrow> KlWsServerConfig \<Rightarrow> string \<Rightarrow> byte list \<Rightarrow> 'e \<Rightarrow> ws_ret \<times> KlWsServerConn option \<times> 'e" where
  "ws_upgrade_finish H cfg resp leftover e =
     (let (r, _, e) = conn_write_all H (to_bytes resp) 0 e in
      if r < 0 then (KL_HTTP_CONN_CLOSED, None, e)
      else let (ok, e) = ws_alloc H (sizeof_conn H) e in
      if \<not> ok then (KL_HTTP_CONN_CLOSED, None, e)
      else let ws = ws_new_conn cfg;
               (ws, e) = (if ping_interval_ms cfg > 0 then
                            let (now, e) = monotonic_ms H e in (ws\<lparr>next_ping_ms := now + of_nat (ping_interval_ms cfg)\<rparr>, e)
                          else (ws, e));
               (ws, e) = (if cb_open cfg then ws_notify H On_open ws e else (ws, e))
           in if length leftover > 0 then
                let (st, ws, e) = kl_ws_server_on_readable_data H leftover ws e in (st, Some ws, e)
              else (KL_HTTP_CONN_WEBSOCKET, Some ws, e))"

end
