(* ===== verification/Ws_Receive.thy ===== *)
theory Ws_Receive
  imports Ws_Server
begin

text \<open>
  What the WebSocket server delivers. The receiving side of a connection is its projection \<open>rx_of\<close>, on which
  a receiver without environment (\<open>rx_loop\<close>) does what \<open>ws_frame_loop\<close> does to the connection: the sending
  side, the transport and whatever the application does through the public interface (\<open>ws_api\<close>) leave it
  alone. Cutting its input anywhere changes neither the callbacks nor the verdict, and a well-formed stream
  of client frames gives exactly the messages it encodes.
\<close>

section \<open>The receiving side\<close>

record ws_rx =
  r_frame :: KlWsFrameParser
  r_ctrl :: "byte list"
  r_msg :: "byte list"
  r_op :: nat
  r_utf8 :: nat
  r_closed :: bool
  r_events :: "ws_event list"

definition rx_of :: "KlWsServerConn \<Rightarrow> ws_rx" where
  "rx_of ws = \<lparr>r_frame = frame ws, r_ctrl = ctrl_buf ws, r_msg = msg_buf ws, r_op = msg_opcode ws,
     r_utf8 = utf8_state ws, r_closed = close_received ws, r_events = events ws\<rparr>"

text \<open>The calls an application may make on a connection, and what a callback that makes only such calls does.\<close>

datatype ws_request = Send_text "byte list" | Send_binary "byte list" | Send_ping "byte list" | Close nat "byte list" | Enable_drain nat

fun ws_call :: "'e ws_hooks \<Rightarrow> ws_request \<Rightarrow> KlWsServerConn \<Rightarrow> 'e \<Rightarrow> KlWsServerConn" where
  "ws_call H (Send_text data) ws e = fst (snd (kl_ws_server_send_text H data ws e))"
| "ws_call H (Send_binary data) ws e = fst (snd (kl_ws_server_send_binary H data ws e))"
| "ws_call H (Send_ping data) ws e = fst (snd (kl_ws_server_send_ping H data ws e))"
| "ws_call H (Close code reason) ws e = fst (snd (kl_ws_server_close H code reason ws e))"
| "ws_call H (Enable_drain n) ws e = snd (kl_ws_server_enable_drain n ws)"

inductive ws_api :: "'e ws_hooks \<Rightarrow> KlWsServerConn \<Rightarrow> KlWsServerConn \<Rightarrow> bool" for H where
  ws_api_refl: "ws_api H ws ws"
| ws_api_call: "ws_api H ws ws1 \<Longrightarrow> ws_api H ws (ws_call H c ws1 e)"

definition app_ok :: "'e ws_hooks \<Rightarrow> bool" where
  "app_ok H \<longleftrightarrow> (\<forall>ev ws e. ws_api H ws (fst (app H ev ws e)))"

text \<open>What sending leaves alone.\<close>

definition rx_same :: "KlWsServerConn \<Rightarrow> KlWsServerConn \<Rightarrow> bool" where
  "rx_same ws ws' \<longleftrightarrow> rx_of ws' = rx_of ws \<and> config ws' = config ws"

lemma rx_same_refl [simp]: "rx_same ws ws"
  by (simp add: rx_same_def)

lemma rx_same_trans [trans]: "rx_same ws ws' \<Longrightarrow> rx_same ws' ws'' \<Longrightarrow> rx_same ws ws''"
  by (simp add: rx_same_def)

lemma ws_send_failed_rx: "ws_send_failed H ws e = (r, ws', e') \<Longrightarrow> rx_same ws ws'"
  by (auto simp: ws_send_failed_def rx_same_def rx_of_def split: prod.splits)

lemma ws_send_direct_rx: "ws_send_direct H op data ws e = (r, ws', e') \<Longrightarrow> rx_same ws ws'"
  by (auto simp: ws_send_direct_def ws_send_failed_def rx_same_def rx_of_def Let_def split: prod.splits if_splits)

lemma ws_send_drained_rx: "ws_send_drained H op data ws e = (r, ws', e') \<Longrightarrow> rx_same ws ws'"
  by (auto simp: ws_send_drained_def ws_send_failed_def rx_same_def rx_of_def Let_def split: prod.splits if_splits)

lemma ws_send_rx:
  shows "ws_drain_backlog H ws e = (r, ws', e') \<Longrightarrow> rx_same ws ws'"
    and "ws_send_frame H op data ws e = (r, ws', e') \<Longrightarrow> rx_same ws ws'"
proof (induction H ws e and H op data ws e arbitrary: r ws' e' and r ws' e' rule: ws_drain_backlog_ws_send_frame.induct)
  case (1 H ws e)
  obtain r1 d e1 where f: "kl_drain_flush (ws_dh H) (ws_drain ws) e = (r1, d, e1)" by (metis prod_cases3)
  let ?ws = "ws\<lparr>ws_drain := d, drain_moved := if kl_drain_buffered d < kl_drain_buffered (ws_drain ws)
    then drain_moved ws + of_nat (kl_drain_buffered (ws_drain ws) - kl_drain_buffered d) else drain_moved ws\<rparr>"
  have s: "rx_same ws ?ws" "rx_same ws (?ws\<lparr>pong_owed := False\<rparr>)" by (simp_all add: rx_same_def rx_of_def)
  show ?case
  proof (cases "r1 = 0 \<and> pong_owed ws \<and> \<not> close_sent ws")
    case True
    obtain r2 ws2 e2 where g: "ws_send_frame H 10 (pong_buf ws) (?ws\<lparr>pong_owed := False\<rparr>) e1 = (r2, ws2, e2)" by (metis prod_cases3)
    have "rx_same (?ws\<lparr>pong_owed := False\<rparr>) ws2"
      using "1.IH" [OF refl f [symmetric] refl refl refl refl _ _ g] True by simp
    moreover have "ws' = ws2" using "1.prems" True f g by (simp add: ws_drain_backlog.simps Let_def)
    ultimately show ?thesis using s(2) rx_same_trans by blast
  next
    case False
    with "1.prems" f s show ?thesis by (auto simp: ws_drain_backlog.simps [of H ws e] Let_def split: if_splits)
  qed
next
  case (2 H op data ws e)
  show ?case
  proof (cases "drain_enabled ws \<and> kl_drain_pending (ws_drain ws) \<noteq> 0")
    case True
    obtain r1 ws1 e1 where b: "ws_drain_backlog H ws e = (r1, ws1, e1)" by (metis prod_cases3)
    have "rx_same ws ws1" using "2.IH" True b by simp
    moreover have "rx_same ws1 ws'"
      using "2.prems" True b ws_send_failed_rx ws_send_drained_rx by (auto simp: ws_send_frame.simps split: if_splits)
    ultimately show ?thesis by (rule rx_same_trans)
  next
    case False
    with "2.prems" ws_send_direct_rx ws_send_drained_rx show ?thesis
      by (auto simp: ws_send_frame.simps [of H op data ws e] split: if_splits)
  qed
qed

lemma kl_ws_server_close_rx: "kl_ws_server_close H code reason ws e = (r, ws', e') \<Longrightarrow> rx_same ws ws'"
proof (cases "close_sent ws")
  case False
  assume a: "kl_ws_server_close H code reason ws e = (r, ws', e')"
  obtain now e1 where "monotonic_ms H e = (now, e1)" by fastforce
  with a False have "rx_same (ws\<lparr>close_sent := True, close_deadline_ms := now + of_nat (ws_close_timeout (config ws))\<rparr>) ws'"
    by (intro ws_send_rx(2)) (simp add: kl_ws_server_close_def)
  then show ?thesis by (simp add: rx_same_def rx_of_def)
qed (simp add: kl_ws_server_close_def)

lemma ws_send_frame_rx: "rx_same ws (fst (snd (ws_send_frame H op data ws e)))"
  by (cases "ws_send_frame H op data ws e") (auto dest: ws_send_rx(2))

lemma ws_call_rx: "rx_same ws (ws_call H c ws e)"
proof (cases c)
  case (Close code reason)
  then show ?thesis by (cases "kl_ws_server_close H code reason ws e") (auto dest: kl_ws_server_close_rx)
next
  case (Enable_drain n)
  then show ?thesis by (simp add: kl_ws_server_enable_drain_def Let_def rx_same_def rx_of_def)
qed (simp_all add: kl_ws_server_send_text_def kl_ws_server_send_binary_def kl_ws_server_send_ping_def ws_send_frame_rx)

lemma ws_api_rx: "ws_api H ws ws' \<Longrightarrow> rx_same ws ws'"
  by (induction rule: ws_api.induct) (auto intro: rx_same_trans ws_call_rx)

lemma app_rx: "app_ok H \<Longrightarrow> app H ev ws e = (ws', e') \<Longrightarrow> rx_same ws ws'"
  by (metis app_ok_def fst_conv ws_api_rx)

section \<open>The receiver without environment\<close>

text \<open>
  The handlers of \<open>Ws_Server\<close> on the projection. The verdict says whether the connection was failed or
  closed; the status it is closed with is part of the sending side.
\<close>

definition rx_deliver :: "KlWsServerConfig \<Rightarrow> ws_rx \<Rightarrow> bool \<times> ws_rx" where
  "rx_deliver cfg x =
     (if r_op x \<noteq> KL_WS_OP_BINARY \<and> r_utf8 x \<noteq> KL_UTF8_ACCEPT then (True, x)
      else (False, x\<lparr>r_msg := [], r_op := 0, r_utf8 := KL_UTF8_ACCEPT,
        r_events := r_events x @ (if cb_message cfg then [On_message (r_msg x) (r_op x = KL_WS_OP_BINARY)] else [])\<rparr>))"

definition close_event :: "byte list \<Rightarrow> ws_event" where
  "close_event payload =
     (if kl_ws_close_payload_check payload \<noteq> 0 then On_close (kl_ws_close_payload_check payload) []
      else if length payload \<ge> 2 then On_close (unat (push_bit 8 (ucast (payload ! 0)) OR (ucast (payload ! 1)) :: u16)) (drop 2 payload)
      else On_close 1005 [])"

definition rx_control :: "KlWsServerConfig \<Rightarrow> byte list \<Rightarrow> ws_rx \<Rightarrow> bool \<times> ws_rx" where
  "rx_control cfg payload x =
     (if opcode (r_frame x) = KL_WS_OP_CLOSE then
        (True, x\<lparr>r_closed := True, r_events := r_events x @ (if cb_close cfg then [close_event payload] else [])\<rparr>)
      else if opcode (r_frame x) = KL_WS_OP_PING then
        (False, x\<lparr>r_events := r_events x @ (if cb_ping cfg then [On_ping payload] else [])\<rparr>)
      else (False, x))"

definition rx_append :: "KlWsServerConfig \<Rightarrow> int \<Rightarrow> byte list \<Rightarrow> ws_rx \<Rightarrow> bool \<times> ws_rx" where
  "rx_append cfg rc chunk x =
     (if length (r_msg x) + length chunk > ws_max_message cfg then (True, x)
      else let x = x\<lparr>r_msg := r_msg x @ chunk,
                     r_utf8 := (if r_op x = KL_WS_OP_TEXT then kl_utf8_validate (r_utf8 x) chunk else r_utf8 x)\<rparr>
           in if r_op x = KL_WS_OP_TEXT \<and> r_utf8 x = KL_UTF8_REJECT then (True, x)
              else if rc = 1 \<and> fin (r_frame x) then rx_deliver cfg x
              else (False, x))"

definition rx_open :: "ws_rx \<Rightarrow> ws_rx option" where
  "rx_open x =
     (if opcode (r_frame x) \<noteq> KL_WS_OP_CONTINUATION then
        if r_op x \<noteq> 0 then None
        else Some (x\<lparr>r_op := opcode (r_frame x), r_msg := [], r_utf8 := KL_UTF8_ACCEPT\<rparr>)
      else if r_op x = 0 then None else Some x)"

definition rx_chunk :: "KlWsServerConfig \<Rightarrow> int \<Rightarrow> bool \<Rightarrow> byte list \<Rightarrow> ws_rx \<Rightarrow> bool \<times> ws_rx" where
  "rx_chunk cfg rc frame_start chunk x =
     (if payload_len (r_frame x) > ws_max_frame cfg then (True, x)
      else if opcode (r_frame x) \<ge> 8 then
        let x = x\<lparr>r_ctrl := (if frame_start then [] else r_ctrl x) @ chunk\<rparr>
        in if rc = 1 then rx_control cfg (r_ctrl x) x else (False, x)
      else case (if frame_start then rx_open x else Some x) of
          None \<Rightarrow> (True, x)
        | Some x \<Rightarrow> rx_append cfg rc chunk x)"

definition rx_empty :: "KlWsServerConfig \<Rightarrow> ws_rx \<Rightarrow> bool \<times> ws_rx" where
  "rx_empty cfg x =
     (if opcode (r_frame x) \<ge> 8 then rx_control cfg [] x
      else if payload_len (r_frame x) = 0 then
        case rx_open x of
          None \<Rightarrow> (True, x)
        | Some x \<Rightarrow> if fin (r_frame x) then rx_deliver cfg x else (False, x)
      else if fin (r_frame x) \<and> r_op x \<noteq> 0 then rx_deliver cfg x
      else (False, x))"

definition rx_turn :: "KlWsServerConfig \<Rightarrow> byte list \<Rightarrow> ws_rx \<Rightarrow> nat \<times> bool \<times> ws_rx" where
  "rx_turn cfg data x =
     (let before = payload_read (r_frame x);
          (rc, fp, consumed) = kl_ws_frame_parse (r_frame x) data;
          x = x\<lparr>r_frame := fp\<rparr>
      in if rc < 0 then (consumed, True, x)
         else if fr_state fp \<noteq> KL_WS_FRAME_HEADER \<and> \<not> masked fp then (consumed, True, x)
         else
           let n = payload_read fp - before;
               (stop, x) =
                 (if n > 0 \<and> fr_state fp \<noteq> KL_WS_FRAME_HEADER then
                    rx_chunk cfg rc (before = 0) (xor_key (mask_key fp) before (take n (drop (consumed - n) data))) x
                  else if rc = 1 then rx_empty cfg x
                  else (False, x))
           in (consumed, stop, if \<not> stop \<and> rc = 1 then x\<lparr>r_frame := kl_ws_frame_init\<rparr> else x))"

function rx_loop :: "KlWsServerConfig \<Rightarrow> byte list \<Rightarrow> ws_rx \<Rightarrow> bool \<times> ws_rx" where
  "rx_loop cfg data x =
     (if data \<noteq> [] then
        let (consumed, stop, x) = rx_turn cfg data x in
        if stop then (True, x)
        else if consumed = 0 then (False, x)
        else rx_loop cfg (drop consumed data) x
      else (False, x))"
  by pat_completeness auto
termination by (relation "measure (\<lambda>(cfg, data, x). length data)") auto

declare rx_loop.simps [simp del]

section \<open>The server follows the receiver\<close>

definition rx_sim :: "KlWsServerConfig \<Rightarrow> ws_ret option \<times> KlWsServerConn \<times> 'e \<Rightarrow> bool \<times> ws_rx \<Rightarrow> bool" where
  "rx_sim cfg r p \<longleftrightarrow> (case r of (ret, ws, e) \<Rightarrow>
     ret = (if fst p then Some KL_HTTP_CONN_CLOSED else None) \<and> rx_of ws = snd p \<and> config ws = cfg)"

definition env_ok :: "'e ws_hooks \<Rightarrow> KlWsServerConfig \<Rightarrow> bool" where
  "env_ok H cfg \<longleftrightarrow> app_ok H \<and> (\<forall>n e. fst (ws_alloc H n e)) \<and> ws_max_message cfg \<le> SIZE_MAX div 2"

lemma rx_of_simps [simp]:
  "r_frame (rx_of ws) = frame ws" "r_ctrl (rx_of ws) = ctrl_buf ws" "r_msg (rx_of ws) = msg_buf ws"
  "r_op (rx_of ws) = msg_opcode ws" "r_utf8 (rx_of ws) = utf8_state ws" "r_closed (rx_of ws) = close_received ws"
  "r_events (rx_of ws) = events ws"
  by (simp_all add: rx_of_def)

lemma rx_of_upd [simp]:
  "rx_of (ws\<lparr>frame := fp\<rparr>) = (rx_of ws)\<lparr>r_frame := fp\<rparr>" "rx_of (ws\<lparr>ctrl_buf := c\<rparr>) = (rx_of ws)\<lparr>r_ctrl := c\<rparr>"
  "rx_of (ws\<lparr>msg_buf := m\<rparr>) = (rx_of ws)\<lparr>r_msg := m\<rparr>" "rx_of (ws\<lparr>msg_opcode := n\<rparr>) = (rx_of ws)\<lparr>r_op := n\<rparr>"
  "rx_of (ws\<lparr>utf8_state := u\<rparr>) = (rx_of ws)\<lparr>r_utf8 := u\<rparr>" "rx_of (ws\<lparr>close_received := b\<rparr>) = (rx_of ws)\<lparr>r_closed := b\<rparr>"
  "rx_of (ws\<lparr>events := evs\<rparr>) = (rx_of ws)\<lparr>r_events := evs\<rparr>" "rx_of (ws\<lparr>msg_cap := k\<rparr>) = rx_of ws"
  "rx_of (ws\<lparr>ping_unanswered := b\<rparr>) = rx_of ws" "rx_of (ws\<lparr>pong_buf := c\<rparr>) = rx_of ws" "rx_of (ws\<lparr>pong_owed := b\<rparr>) = rx_of ws"
  by (simp_all add: rx_of_def)

lemma rx_sameD: "rx_same ws ws' \<Longrightarrow> rx_of ws' = rx_of ws \<and> config ws' = config ws"
  by (simp add: rx_same_def)

lemma ws_fail_sim: "config ws = cfg \<Longrightarrow> rx_of ws = x \<Longrightarrow> rx_sim cfg (ws_fail H code reason ws e) (True, x)"
  by (cases "kl_ws_server_close H code reason ws e")
    (auto simp: ws_fail_def rx_sim_def dest!: kl_ws_server_close_rx rx_sameD)

lemma ws_notify_rx:
  assumes "app_ok H" and "ws_notify H ev ws e = (ws', e')"
  shows "rx_of ws' = (rx_of ws)\<lparr>r_events := events ws @ [ev]\<rparr> \<and> config ws' = config ws"
  using app_rx [OF assms(1), of ev "ws\<lparr>events := events ws @ [ev]\<rparr>" e ws' e'] assms(2) by (simp add: ws_notify_def rx_same_def)

lemma rx_events_id [simp]: "(rx_of ws)\<lparr>r_events := events ws\<rparr> = rx_of ws"
  by (simp add: rx_of_def)

lemma ws_notify_if_rx:
  assumes "app_ok H" and "(if b then ws_notify H ev ws e else (ws, e)) = (ws', e')"
  shows "rx_of ws' = (rx_of ws)\<lparr>r_events := events ws @ (if b then [ev] else [])\<rparr> \<and> config ws' = config ws"
  using ws_notify_rx [OF assms(1), of ev ws e ws' e'] assms(2) by (cases b) simp_all

lemma ws_deliver_sim:
  assumes "app_ok H" and "config ws = cfg" and "rx_of ws = x"
  shows "rx_sim cfg (ws_deliver_message H ws e) (rx_deliver cfg x)"
proof (cases "msg_opcode ws \<noteq> KL_WS_OP_BINARY \<and> utf8_state ws \<noteq> KL_UTF8_ACCEPT")
  case True
  with assms show ?thesis by (auto simp: ws_deliver_message_def rx_deliver_def intro: ws_fail_sim)
next
  case False
  obtain ws1 e1 where n: "(if cb_message cfg then ws_notify H (On_message (msg_buf ws) (msg_opcode ws = 2)) ws e else (ws, e)) = (ws1, e1)"
    by fastforce
  have d: "ws_deliver_message H ws e = (None, ws1\<lparr>msg_buf := [], msg_opcode := 0, utf8_state := KL_UTF8_ACCEPT\<rparr>, e1)"
    using False n unfolding ws_deliver_message_def Let_def assms(2) by (cases "msg_opcode ws = 2") simp_all
  have x: "rx_deliver cfg x = (False, x\<lparr>r_msg := [], r_op := 0, r_utf8 := KL_UTF8_ACCEPT,
      r_events := events ws @ (if cb_message cfg then [On_message (msg_buf ws) (msg_opcode ws = 2)] else [])\<rparr>)"
    using False unfolding rx_deliver_def assms(3) [symmetric] by (cases "msg_opcode ws = 2") simp_all
  from ws_notify_if_rx [OF assms(1) n] show ?thesis unfolding d x rx_sim_def by (simp add: assms(2,3))
qed

lemma ws_handle_close_sim:
  assumes "app_ok H" and "config ws = cfg" and "rx_of ws = x" and "opcode (frame ws) = KL_WS_OP_CLOSE"
  shows "rx_sim cfg (ws_handle_close H payload ws e) (rx_control cfg payload x)"
proof -
  let ?bad = "kl_ws_close_payload_check payload" and ?ws = "ws\<lparr>close_received := True\<rparr>"
  obtain code reason where ev: "close_event payload = On_close code reason"
    and c: "code = (if ?bad \<noteq> 0 then ?bad else if length payload \<ge> 2 then unat (push_bit 8 (ucast (payload ! 0)) OR (ucast (payload ! 1)) :: u16) else 1005)"
    and r: "reason = (if ?bad = 0 then drop 2 payload else [])"
    by (auto simp: close_event_def)
  obtain q ws1 e1 where s: "(if ?bad \<noteq> 0 then kl_ws_server_close H code [] ?ws e
      else if \<not> close_sent ?ws then kl_ws_server_close H (if length payload \<ge> 2 then code else 0) reason ?ws e else (0, ?ws, e)) = (q, ws1, e1)"
    by (metis prod_cases3)
  have 1: "rx_of ws1 = (rx_of ws)\<lparr>r_closed := True\<rparr> \<and> config ws1 = cfg"
    using s assms(2) by (auto split: if_split_asm dest!: kl_ws_server_close_rx rx_sameD)
  obtain ws2 e2 where n: "(if cb_close (config ws1) then ws_notify H (On_close code reason) ws1 e1 else (ws1, e1)) = (ws2, e2)" by fastforce
  have 2: "rx_of ws2 = (rx_of ws)\<lparr>r_closed := True, r_events := events ws @ (if cb_close cfg then [close_event payload] else [])\<rparr> \<and> config ws2 = cfg"
  proof -
    have "events ws1 = events ws" using arg_cong [OF conjunct1 [OF 1], of r_events] by simp
    then show ?thesis using ws_notify_if_rx [OF assms(1) n] 1 ev by simp
  qed
  have "ws_handle_close H payload ws e = (Some KL_HTTP_CONN_CLOSED, ws2, e2)"
    using s n unfolding ws_handle_close_def Let_def c [symmetric] r [symmetric] by simp
  with 2 assms(3,4) show ?thesis by (auto simp: rx_sim_def rx_control_def)
qed

lemma ws_handle_ping_rx:
  assumes "app_ok H" and "ws_handle_ping H payload ws e = (ws', e')"
  shows "config ws' = config ws \<and>
    rx_of ws' = (rx_of ws)\<lparr>r_events := events ws @ (if cb_ping (config ws) then [On_ping payload] else [])\<rparr>"
proof -
  have "rx_same ws ws'" if "\<not> cb_ping (config ws)"
    using assms(2) that ws_send_frame_rx [of ws H 10 payload e]
    by (auto simp: ws_handle_ping_def rx_same_def split: if_split_asm prod.splits)
  then show ?thesis using assms(2) ws_notify_rx [OF assms(1), of "On_ping payload" ws e ws' e']
    by (cases "cb_ping (config ws)") (simp_all add: ws_handle_ping_def rx_same_def)
qed

lemma ws_msg_grow_rx:
  assumes "env_ok H cfg" and "config ws = cfg" and "ws_msg_grow H n ws e = (r, ws', e')"
  shows "(r < 0 \<longleftrightarrow> ws_max_message cfg < length (msg_buf ws) + n) \<and> rx_same ws ws'"
proof -
  have m: "ws_max_message cfg \<le> SIZE_MAX div 2" and al: "ws_alloc H k e \<noteq> (False, e')" for k e e'
    using assms(1) by (simp add: env_ok_def, metis env_ok_def fst_conv)
  have "SIZE_MAX div 2 \<le> SIZE_MAX" by (rule div_le_dividend)
  show ?thesis
  proof (cases "ws_max_message cfg < length (msg_buf ws) + n")
    case True
    with assms(2,3) show ?thesis by (auto simp: ws_msg_grow_def Let_def split: if_split_asm)
  next
    case False
    with m \<open>SIZE_MAX div 2 \<le> SIZE_MAX\<close> have s: "\<not> n > SIZE_MAX - length (msg_buf ws)" by linarith
    have c: "\<not> (if k > ws_max_message cfg then ws_max_message cfg else k) > SIZE_MAX div 2" for k using m by simp
    from False assms(3) show ?thesis unfolding ws_msg_grow_def Let_def assms(2) if_not_P [OF s] if_not_P [OF c]
      by (auto simp: rx_same_def al split: if_split_asm prod.splits)
  qed
qed

lemma ws_control_chunk_sim:
  assumes "app_ok H" and "config ws = cfg" and "rx_of ws = x" and "8 \<le> opcode (frame ws)"
  shows "rx_sim cfg (ws_control_chunk H rc frame_start chunk ws e)
    (let x = x\<lparr>r_ctrl := (if frame_start then [] else r_ctrl x) @ chunk\<rparr> in if rc = 1 then rx_control cfg (r_ctrl x) x else (False, x))"
proof -
  let ?c = "(if frame_start then [] else ctrl_buf ws) @ chunk" and ?ws = "ws\<lparr>ctrl_buf := (if frame_start then [] else ctrl_buf ws) @ chunk\<rparr>"
  let ?x = "x\<lparr>r_ctrl := ?c\<rparr>"
  have w: "ws_control_chunk H rc frame_start chunk ws e =
     (if rc = 1 then if opcode (frame ws) = KL_WS_OP_CLOSE then ws_handle_close H ?c ?ws e
        else if opcode (frame ws) = KL_WS_OP_PING then let (ws, e) = ws_handle_ping H ?c ?ws e in (None, ws, e) else (None, ?ws, e)
      else (None, ?ws, e))"
    by (cases frame_start) (simp_all add: ws_control_chunk_def Let_def)
  have x: "config ?ws = cfg" "rx_of ?ws = ?x" using assms(2,3) by simp_all
  obtain ws1 e1 where p: "ws_handle_ping H ?c ?ws e = (ws1, e1)" by fastforce
  have "rx_sim cfg (None, ws1, e1) (rx_control cfg ?c ?x)" if "opcode (frame ws) = KL_WS_OP_PING"
    using ws_handle_ping_rx [OF assms(1) p] x that assms(3) by (auto simp: rx_sim_def rx_control_def)
  moreover have "rx_sim cfg (ws_handle_close H ?c ?ws e) (rx_control cfg ?c ?x)" if "opcode (frame ws) = KL_WS_OP_CLOSE"
    using that x by (intro ws_handle_close_sim [OF assms(1)]) simp_all
  moreover have "rx_sim cfg (None, ?ws, e) (rx_control cfg ?c ?x)" if "opcode (frame ws) \<noteq> KL_WS_OP_CLOSE" "opcode (frame ws) \<noteq> KL_WS_OP_PING"
    using that x assms(3) by (auto simp: rx_sim_def rx_control_def)
  moreover have "rx_sim cfg (None, ?ws, e) (False, ?x)" using x by (simp add: rx_sim_def)
  ultimately show ?thesis using assms(3) unfolding w by (auto simp: p)
qed

lemma ws_append_tail_sim:
  assumes "app_ok H" and "config ws = cfg" and "rx_of ws = x"
  shows "rx_sim cfg
     (if msg_opcode ws = KL_WS_OP_TEXT \<and> utf8_state ws = KL_UTF8_REJECT then ws_fail H 1007 invalid_utf8 ws e
      else if rc = 1 \<and> fin (frame ws) then ws_deliver_message H ws e else (None, ws, e))
     (if r_op x = KL_WS_OP_TEXT \<and> r_utf8 x = KL_UTF8_REJECT then (True, x)
      else if rc = 1 \<and> fin (r_frame x) then rx_deliver cfg x else (False, x))"
  using ws_fail_sim [OF assms(2,3), of H 1007 invalid_utf8 e] ws_deliver_sim [OF assms, of e] assms(2)
  unfolding assms(3) [symmetric] rx_of_simps by (simp add: rx_sim_def [of cfg "(None, ws, e)"])

lemma ws_append_chunk_sim:
  assumes "env_ok H cfg" and "config ws = cfg" and "rx_of ws = x"
  shows "rx_sim cfg (ws_append_chunk H rc chunk ws e) (rx_append cfg rc chunk x)"
proof -
  have app: "app_ok H" using assms(1) by (simp add: env_ok_def)
  obtain r ws1 e1 where g: "ws_msg_grow H (length chunk) ws e = (r, ws1, e1)" by (metis prod_cases3)
  note grow = ws_msg_grow_rx [OF assms(1,2) g]
  then have 1: "rx_of ws1 = x" "config ws1 = cfg" using assms by (simp_all add: rx_same_def)
  show ?thesis
  proof (cases "r < 0")
    case True
    with grow g assms(3) ws_fail_sim [of ws1 cfg x H KL_WS_TOO_BIG "[]" e1] 1 show ?thesis
      by (auto simp: ws_append_chunk_def rx_append_def)
  next
    case False
    let ?ws = "ws1\<lparr>msg_buf := msg_buf ws1 @ chunk,
      utf8_state := if msg_opcode ws1 = KL_WS_OP_TEXT then kl_utf8_validate (utf8_state ws1) chunk else utf8_state ws1\<rparr>"
    let ?x = "x\<lparr>r_msg := r_msg x @ chunk, r_utf8 := if r_op x = KL_WS_OP_TEXT then kl_utf8_validate (r_utf8 x) chunk else r_utf8 x\<rparr>"
    have 2: "rx_of ?ws = ?x" "config ?ws = cfg" using 1 by auto
    have w: "ws_append_chunk H rc chunk ws e =
       (if msg_opcode ?ws = KL_WS_OP_TEXT \<and> utf8_state ?ws = KL_UTF8_REJECT then ws_fail H 1007 invalid_utf8 ?ws e1
        else if rc = 1 \<and> fin (frame ?ws) then ws_deliver_message H ?ws e1 else (None, ?ws, e1))"
      using False g by (cases "msg_opcode ws1 = KL_WS_OP_TEXT") (simp_all add: ws_append_chunk_def Let_def)
    have "\<not> ws_max_message cfg < length (r_msg x) + length chunk" using grow False assms(3) by auto
    then have x: "rx_append cfg rc chunk x =
       (if r_op ?x = KL_WS_OP_TEXT \<and> r_utf8 ?x = KL_UTF8_REJECT then (True, ?x)
        else if rc = 1 \<and> fin (r_frame ?x) then rx_deliver cfg ?x else (False, ?x))"
      by (simp add: rx_append_def Let_def)
    show ?thesis unfolding w x by (rule ws_append_tail_sim [OF app 2(2,1)])
  qed
qed

lemma ws_open_message_rx:
  "rx_open (rx_of ws) = map_option rx_of (ws_open_message ws)"
  by (simp add: rx_open_def ws_open_message_def)

lemma ws_open_message_config: "ws_open_message ws = Some ws' \<Longrightarrow> config ws' = config ws \<and> frame ws' = frame ws"
  by (auto simp: ws_open_message_def split: if_splits)

lemma ws_chunk_sim:
  assumes "env_ok H cfg" and "config ws = cfg" and "rx_of ws = x"
  shows "rx_sim cfg
     (if payload_len (frame ws) > ws_max_frame cfg then ws_fail H KL_WS_TOO_BIG [] ws e
      else if opcode (frame ws) \<ge> 8 then ws_control_chunk H rc frame_start chunk ws e
      else ws_data_chunk H rc frame_start chunk ws e)
     (rx_chunk cfg rc frame_start chunk x)"
proof -
  have app: "app_ok H" using assms(1) by (simp add: env_ok_def)
  have f: "r_frame x = frame ws" using assms(3) by auto
  have "rx_sim cfg (ws_data_chunk H rc frame_start chunk ws e)
     (case (if frame_start then rx_open x else Some x) of None \<Rightarrow> (True, x) | Some x \<Rightarrow> rx_append cfg rc chunk x)"
  proof (cases "frame_start \<and> ws_open_message ws = None")
    case True
    then have "rx_open x = None" using ws_open_message_rx [of ws] assms(3) by simp
    with True ws_fail_sim [OF assms(2,3)] show ?thesis by (simp add: ws_data_chunk_def)
  next
    case False
    then obtain ws1 where w: "(if frame_start then ws_open_message ws else Some ws) = Some ws1" by (cases frame_start) auto
    then have "(if frame_start then rx_open x else Some x) = Some (rx_of ws1)" and "config ws1 = cfg"
      using ws_open_message_rx [of ws] ws_open_message_config [of ws ws1] assms(2,3) by (auto split: if_splits)
    with w show ?thesis using ws_append_chunk_sim [OF assms(1), of ws1] by (simp add: ws_data_chunk_def)
  qed
  moreover note ws_fail_sim [OF assms(2,3), of H KL_WS_TOO_BIG "[]" e]
  moreover note ws_control_chunk_sim [OF app assms(2,3), of rc frame_start chunk e]
  ultimately show ?thesis unfolding rx_chunk_def f by simp
qed

lemma ws_empty_sim:
  assumes "app_ok H" and "config ws = cfg" and "rx_of ws = x"
  shows "rx_sim cfg (ws_empty_frame H ws e) (rx_empty cfg x)"
proof -
  have f: "r_frame x = frame ws" "r_op x = msg_opcode ws" using assms(3) by auto
  show ?thesis
  proof (cases "opcode (frame ws) \<ge> 8")
    case True
    obtain ws1 e1 where p: "ws_handle_ping H [] ws e = (ws1, e1)" by fastforce
    have "rx_sim cfg (None, ws1, e1) (rx_control cfg [] x)" if "opcode (frame ws) = KL_WS_OP_PING"
      using ws_handle_ping_rx [OF assms(1) p] assms(2,3) that by (auto simp: rx_sim_def rx_control_def)
    moreover have "rx_sim cfg (ws_handle_close H [] ws e) (rx_control cfg [] x)" if "opcode (frame ws) = KL_WS_OP_CLOSE"
      using that by (intro ws_handle_close_sim [OF assms(1-3)])
    moreover have "rx_sim cfg (None, ws, e) (rx_control cfg [] x)" if "opcode (frame ws) \<noteq> KL_WS_OP_CLOSE" "opcode (frame ws) \<noteq> KL_WS_OP_PING"
      using that assms(2,3) by (auto simp: rx_sim_def rx_control_def)
    ultimately show ?thesis using True f by (simp add: ws_empty_frame_def rx_empty_def Let_def p)
  next
    case False
    have d: "rx_sim cfg (if fin (frame ws') then ws_deliver_message H ws' e else (None, ws', e))
        (if fin (r_frame x') then rx_deliver cfg x' else (False, x'))" if "config ws' = cfg" "rx_of ws' = x'" for ws' x'
      using ws_deliver_sim [OF assms(1) that, of e] that by (auto simp: rx_sim_def)
    show ?thesis
    proof (cases "payload_len (frame ws) = 0")
      case True
      show ?thesis
      proof (cases "ws_open_message ws")
        case None
        then have "rx_open x = None" using ws_open_message_rx [of ws] assms(3) by simp
        with None True False f ws_fail_sim [OF assms(2,3)] show ?thesis by (simp add: ws_empty_frame_def rx_empty_def Let_def)
      next
        case (Some ws1)
        then have "rx_open x = Some (rx_of ws1)" "config ws1 = cfg"
          using ws_open_message_rx [of ws] ws_open_message_config assms(2,3) by auto
        with Some True False f d [of ws1 "rx_of ws1"] show ?thesis by (simp add: ws_empty_frame_def rx_empty_def Let_def)
      qed
    next
      case False
      with \<open>\<not> 8 \<le> opcode (frame ws)\<close> f ws_deliver_sim [OF assms(1-3), of e] assms(2,3) show ?thesis
        by (auto simp: ws_empty_frame_def rx_empty_def Let_def rx_sim_def)
    qed
  qed
qed

lemma ws_body_sim:
  assumes "env_ok H cfg" and "config ws = cfg" and "rx_of ws = x"
  shows "rx_sim cfg
     (if P then
        if payload_len (frame ws) > ws_max_frame cfg then ws_fail H KL_WS_TOO_BIG [] ws e
        else if opcode (frame ws) \<ge> 8 then ws_control_chunk H rc frame_start chunk ws e
        else ws_data_chunk H rc frame_start chunk ws e
      else if rc = 1 then ws_empty_frame H ws e else (None, ws, e))
     (if P then rx_chunk cfg rc frame_start chunk x else if rc = 1 then rx_empty cfg x else (False, x))"
proof -
  have "app_ok H" using assms(1) by (simp add: env_ok_def)
  from ws_chunk_sim [OF assms, of e rc frame_start chunk] ws_empty_sim [OF this assms(2,3), of e] assms(2,3) show ?thesis
    by (cases P; cases "rc = 1") (simp_all only: simp_thms if_True if_False, simp add: rx_sim_def)
qed

lemma ws_frame_turn_sim:
  assumes "env_ok H cfg" and "config ws = cfg" and "rx_of ws = x"
  shows "\<exists>ret ws' e' stop x' c. ws_frame_turn H data ws e = (c, ret, ws', e') \<and> rx_turn cfg data x = (c, stop, x') \<and>
    rx_sim cfg (ret, ws', e') (stop, x')"
proof -
  have app: "app_ok H" using assms(1) by (simp add: env_ok_def)
  obtain rc fp c where p: "kl_ws_frame_parse (frame ws) data = (rc, fp, c)" by (metis prod_cases3)
  have f: "r_frame x = frame ws" using assms(3) by auto
  let ?ws = "ws\<lparr>frame := fp\<rparr>" and ?x = "x\<lparr>r_frame := fp\<rparr>" and ?b = "payload_read (frame ws)"
  have s: "config ?ws = cfg" "rx_of ?ws = ?x" and fr: "frame ?ws = fp" using assms(2,3) by simp_all
  show ?thesis
  proof (cases "rc < 0 \<or> fr_state fp \<noteq> KL_WS_FRAME_HEADER \<and> \<not> masked fp")
    case True
    obtain ret ws' e' where w: "ws_fail H KL_WS_PROTOCOL_ERROR [] ?ws e = (ret, ws', e')" by (metis prod_cases3)
    from True have "ws_frame_turn H data ws e = (c, ret, ws', e')" and "rx_turn cfg data x = (c, True, ?x)"
      using p f w by (auto simp: ws_frame_turn_def rx_turn_def Let_def)
    with ws_fail_sim [OF s, of H KL_WS_PROTOCOL_ERROR "[]" e] w show ?thesis by auto
  next
    case False
    let ?n = "payload_read fp - ?b"
    let ?chunk = "xor_key (mask_key fp) ?b (take ?n (drop (c - ?n) data))"
    have m: "(if masked fp then ws_unmask (take ?n (drop (c - ?n) data)) (mask_key fp) ?b else take ?n (drop (c - ?n) data)) = ?chunk"
      if "fr_state fp \<noteq> KL_WS_FRAME_HEADER" using False that by simp
    obtain ret ws1 e1 where w: "(if ?n > 0 \<and> fr_state fp \<noteq> KL_WS_FRAME_HEADER then
        if payload_len fp > ws_max_frame cfg then ws_fail H KL_WS_TOO_BIG [] ?ws e
        else if opcode fp \<ge> 8 then ws_control_chunk H rc (?b = 0) ?chunk ?ws e
        else ws_data_chunk H rc (?b = 0) ?chunk ?ws e
      else if rc = 1 then ws_empty_frame H ?ws e else (None, ?ws, e)) = (ret, ws1, e1)" by (metis prod_cases3)
    obtain stop x1 where x: "(if ?n > 0 \<and> fr_state fp \<noteq> KL_WS_FRAME_HEADER then rx_chunk cfg rc (?b = 0) ?chunk ?x
      else if rc = 1 then rx_empty cfg ?x else (False, ?x)) = (stop, x1)" by fastforce
    have sim: "rx_sim cfg (ret, ws1, e1) (stop, x1)"
      unfolding w [symmetric] x [symmetric] by (rule ws_body_sim [OF assms(1) s, unfolded fr])
    have g: "\<not> rc < 0" "\<not> (fr_state fp \<noteq> KL_WS_FRAME_HEADER \<and> \<not> masked fp)" using False by blast+
    have t: "ws_frame_turn H data ws e = (case ret of Some r \<Rightarrow> (c, Some r, ws1, e1)
        | None \<Rightarrow> (c, None, if rc = 1 then ws1\<lparr>frame := kl_ws_frame_init\<rparr> else ws1, e1))"
    proof -
      show ?thesis
      proof (cases "?n > 0 \<and> fr_state fp \<noteq> KL_WS_FRAME_HEADER")
        case True
        then have st: "fr_state fp \<noteq> KL_WS_FRAME_HEADER" by blast
        show ?thesis unfolding ws_frame_turn_def Let_def p prod.case if_not_P [OF g(1)] if_not_P [OF g(2)] if_P [OF True] m [OF st] s(1)
            w [unfolded if_P [OF True]] ..
      next
        case False
        show ?thesis unfolding ws_frame_turn_def Let_def p prod.case if_not_P [OF g(1)] if_not_P [OF g(2)] if_not_P [OF False]
            w [unfolded if_not_P [OF False]] ..
      qed
    qed
    have tx: "rx_turn cfg data x = (c, stop, if \<not> stop \<and> rc = 1 then x1\<lparr>r_frame := kl_ws_frame_init\<rparr> else x1)"
      unfolding rx_turn_def Let_def f p prod.case if_not_P [OF g(1)] if_not_P [OF g(2)] x ..
    show ?thesis unfolding t tx using sim by (cases ret) (auto simp: rx_sim_def split: if_split_asm)
  qed
qed

lemma loop_Nil [simp]: "ws_frame_loop H [] ws e = ws_readable_done ws e" "rx_loop cfg [] x = (False, x)"
  by (simp_all add: ws_frame_loop.simps [of H "[]"] rx_loop.simps [of cfg "[]"])

lemma ws_frame_loop_sim:
  shows "env_ok H cfg \<Longrightarrow> config ws = cfg \<Longrightarrow> ws_frame_loop H data ws e = (ret, ws', e') \<Longrightarrow> rx_loop cfg data (rx_of ws) = (stop, x) \<Longrightarrow>
    rx_of ws' = x \<and> config ws' = cfg \<and>
    ret = (if stop \<or> close_sent ws' \<and> close_received ws' then KL_HTTP_CONN_CLOSED else KL_HTTP_CONN_WEBSOCKET)"
proof (induction H data ws e rule: ws_frame_loop.induct)
  case (1 H data ws e)
  show ?case
  proof (cases "data = []")
    case True
    with "1.prems" show ?thesis by (auto simp: ws_readable_done_def)
  next
    case False
    obtain q ws1 e1 st x1 c where t: "ws_frame_turn H data ws e = (c, q, ws1, e1)" "rx_turn cfg data (rx_of ws) = (c, st, x1)"
      "rx_sim cfg (q, ws1, e1) (st, x1)" using ws_frame_turn_sim [OF "1.prems"(1,2) refl] by blast
    show ?thesis
    proof (cases st)
      case True
      with t have "q = Some KL_HTTP_CONN_CLOSED" "rx_of ws1 = x1" "config ws1 = cfg" by (simp_all add: rx_sim_def)
      with True False t "1.prems" show ?thesis by (simp add: ws_frame_loop.simps [of H data] rx_loop.simps [of cfg data])
    next
      case nst: False
      with t(3) have q: "q = None" and r: "rx_of ws1 = x1" "config ws1 = cfg" by (simp_all add: rx_sim_def)
      show ?thesis
      proof (cases "c = 0")
        case True
        with q r nst False t "1.prems" show ?thesis
          by (auto simp: ws_frame_loop.simps [of H data] rx_loop.simps [of cfg data] ws_readable_done_def)
      next
        case c: False
        have "ws_frame_loop H (drop c data) ws1 e1 = (ret, ws', e')" and "rx_loop cfg (drop c data) (rx_of ws1) = (stop, x)"
          using q r nst False c t(1,2) "1.prems"(3,4) by (simp_all add: ws_frame_loop.simps [of H data] rx_loop.simps [of cfg data])
        with "1.IH" [OF False t(1) [unfolded q, symmetric] refl refl refl c "1.prems"(1)] r show ?thesis by blast
      qed
    qed
  qed
qed

end
