(* ===== verification/Ws_Messages.thy ===== *)
theory Ws_Messages
  imports Ws_Receive
begin

text \<open>
  What the receiver of \<open>Ws_Receive\<close> makes of its input: independence of how the bytes are cut into reads, and
  the messages of a well-formed stream of client frames. The two theorems are about the server's own
  \<open>kl_ws_server_on_readable_data\<close>, fed read by read (\<open>ws_reads\<close>).
\<close>

section \<open>Merging two chunks of one frame\<close>

lemma utf8_validate_append: "kl_utf8_validate s a \<noteq> KL_UTF8_REJECT \<Longrightarrow> kl_utf8_validate s (a @ b) = kl_utf8_validate (kl_utf8_validate s a) b"
  by (induction a arbitrary: s) (auto simp: Let_def split: if_splits)

lemma utf8_validate_reject: "kl_utf8_validate s a = KL_UTF8_REJECT \<Longrightarrow> a \<noteq> [] \<Longrightarrow> kl_utf8_validate s (a @ b) = KL_UTF8_REJECT"
proof (induction a arbitrary: s)
  case (Cons c a)
  then show ?case by (cases "a = []") (auto simp: Let_def split: if_splits)
qed simp

text \<open>Two outcomes an observer cannot tell apart: the same verdict and callbacks, and the same state unless closed.\<close>

definition rx_eq :: "bool \<times> ws_rx \<Rightarrow> bool \<times> ws_rx \<Rightarrow> bool" where
  "rx_eq p q \<longleftrightarrow> fst p = fst q \<and> r_events (snd p) = r_events (snd q) \<and> (\<not> fst p \<longrightarrow> p = q)"

lemma rx_eq_refl [simp]: "rx_eq p p"
  by (simp add: rx_eq_def)

lemma rx_eq_trans: "rx_eq p q \<Longrightarrow> rx_eq q r \<Longrightarrow> rx_eq p r"
  unfolding rx_eq_def by metis

lemma rx_eq_sym: "rx_eq p q \<Longrightarrow> rx_eq q p"
  unfolding rx_eq_def by metis

lemma rx_eq_stop: "r_events x = r_events y \<Longrightarrow> rx_eq (True, x) (True, y)"
  by (simp add: rx_eq_def)

definition rx_then :: "(ws_rx \<Rightarrow> bool \<times> ws_rx) \<Rightarrow> bool \<times> ws_rx \<Rightarrow> bool \<times> ws_rx" where
  "rx_then f p = (if fst p then p else f (snd p))"

lemma rx_append_merge:
  assumes "a \<noteq> []"
  shows "rx_eq (rx_append cfg rc (a @ b) x) (rx_then (rx_append cfg rc b) (rx_append cfg 0 a x))"
proof (cases "length (r_msg x) + length a > ws_max_message cfg")
  case True
  then show ?thesis by (simp add: rx_append_def rx_then_def)
next
  case a: False
  let ?u = "kl_utf8_validate (r_utf8 x) a"
  show ?thesis
  proof (cases "r_op x = KL_WS_OP_TEXT \<and> ?u = KL_UTF8_REJECT")
    case True
    then have "kl_utf8_validate (r_utf8 x) (a @ b) = KL_UTF8_REJECT" using utf8_validate_reject assms by blast
    with True a show ?thesis by (auto simp: rx_append_def rx_then_def Let_def intro: rx_eq_stop)
  next
    case False
    let ?x = "x\<lparr>r_msg := r_msg x @ a, r_utf8 := if r_op x = KL_WS_OP_TEXT then ?u else r_utf8 x\<rparr>"
    have 1: "rx_append cfg 0 a x = (False, ?x)" using a False by (simp add: rx_append_def Let_def)
    have "rx_eq (rx_append cfg rc (a @ b) x) (rx_append cfg rc b ?x)"
    proof (cases "length (r_msg x) + (length a + length b) > ws_max_message cfg")
      case True
      then show ?thesis by (simp add: rx_append_def rx_eq_def)
    next
      case ok: False
      show ?thesis
      proof (cases "r_op x = KL_WS_OP_TEXT")
        case True
        then have "kl_utf8_validate (r_utf8 x) (a @ b) = kl_utf8_validate ?u b" using False utf8_validate_append by blast
        with True ok show ?thesis by (simp add: rx_append_def Let_def)
      next
        case False
        with ok show ?thesis by (simp add: rx_append_def Let_def)
      qed
    qed
    with 1 show ?thesis by (simp add: rx_then_def)
  qed
qed

text \<open>The handlers read the opcode, the final flag and the length of the frame, which are fixed by its header.\<close>

definition same_head :: "KlWsFrameParser \<Rightarrow> KlWsFrameParser \<Rightarrow> bool" where
  "same_head fp fp' \<longleftrightarrow> opcode fp' = opcode fp \<and> fin fp' = fin fp \<and> payload_len fp' = payload_len fp \<and>
     masked fp' = masked fp \<and> mask_key fp' = mask_key fp"

definition with_frame :: "KlWsFrameParser \<Rightarrow> bool \<times> ws_rx \<Rightarrow> bool \<times> ws_rx" where
  "with_frame fp p = (fst p, (snd p)\<lparr>r_frame := fp\<rparr>)"

lemma rx_append_frame:
  "same_head (r_frame x) fp \<Longrightarrow> rx_append cfg rc c (x\<lparr>r_frame := fp\<rparr>) = with_frame fp (rx_append cfg rc c x)"
  by (simp add: rx_append_def rx_deliver_def with_frame_def Let_def same_head_def)

lemma rx_chunk_merge:
  assumes "a \<noteq> []" and "same_head (r_frame x) fp"
  shows "rx_eq (rx_chunk cfg rc frame_start (a @ b) (x\<lparr>r_frame := fp\<rparr>))
    (rx_then (\<lambda>y. rx_chunk cfg rc False b (y\<lparr>r_frame := fp\<rparr>)) (rx_chunk cfg 0 frame_start a x))"
proof -
  have h: "opcode fp = opcode (r_frame x)" "payload_len fp = payload_len (r_frame x)" "fin fp = fin (r_frame x)"
    using assms(2) by (simp_all add: same_head_def)
  consider "payload_len fp > ws_max_frame cfg" | "\<not> payload_len fp > ws_max_frame cfg" "opcode fp \<ge> 8"
    | "\<not> payload_len fp > ws_max_frame cfg" "\<not> opcode fp \<ge> 8" by blast
  then show ?thesis
  proof cases
    case 1
    with h show ?thesis by (simp add: rx_chunk_def rx_then_def rx_eq_def)
  next
    case 2
    with h show ?thesis by (simp add: rx_chunk_def rx_then_def Let_def)
  next
    case 3
    let ?o = "\<lambda>x. if frame_start then rx_open x else Some x"
    have of: "?o (x\<lparr>r_frame := fp\<rparr>) = map_option (\<lambda>y. y\<lparr>r_frame := fp\<rparr>) (?o x)" using h by (simp add: rx_open_def)
    have c: "rx_chunk cfg rc' fs c y = (case (if fs then rx_open y else Some y) of None \<Rightarrow> (True, y) | Some y \<Rightarrow> rx_append cfg rc' c y)"
      if "same_head (r_frame x) (r_frame y)" for rc' fs c y
      using 3 h that by (simp add: rx_chunk_def same_head_def)
    have xx: "same_head (r_frame x) (r_frame x)" by (simp add: same_head_def)
    show ?thesis
    proof (cases "?o x")
      case None
      then show ?thesis using of c [of x] c [of "x\<lparr>r_frame := fp\<rparr>"] assms(2) xx by (simp add: rx_then_def rx_eq_def)
    next
      case (Some y)
      then have y: "r_frame y = r_frame x" by (auto simp: rx_open_def split: if_splits)
      obtain st z where z: "rx_append cfg 0 a y = (st, z)" by fastforce
      have 1: "rx_chunk cfg rc frame_start (a @ b) (x\<lparr>r_frame := fp\<rparr>) = rx_append cfg rc (a @ b) (y\<lparr>r_frame := fp\<rparr>)"
        using c [of "x\<lparr>r_frame := fp\<rparr>"] assms(2) of Some by simp
      have 2: "rx_chunk cfg 0 frame_start a x = (st, z)" using c [of x] xx Some z by simp
      have 3: "rx_chunk cfg rc False b (z\<lparr>r_frame := fp\<rparr>) = rx_append cfg rc b (z\<lparr>r_frame := fp\<rparr>)"
        using c [of "z\<lparr>r_frame := fp\<rparr>" rc False b] assms(2) by simp
      have 4: "rx_append cfg 0 a (y\<lparr>r_frame := fp\<rparr>) = (st, z\<lparr>r_frame := fp\<rparr>)"
        using rx_append_frame [of y fp cfg 0 a] y assms(2) z by (simp add: with_frame_def)
      note m = rx_append_merge [OF assms(1), of cfg rc b "y\<lparr>r_frame := fp\<rparr>", unfolded 4]
      show ?thesis
      proof (cases st)
        case True
        with m show ?thesis unfolding 1 2 rx_then_def by (simp only: fst_conv snd_conv if_True) (simp add: rx_eq_def)
      next
        case False
        with m show ?thesis unfolding 1 2 rx_then_def by (simp only: fst_conv snd_conv if_False 3)
      qed
    qed
  qed
qed

section \<open>Cutting the input\<close>

definition rx_ok :: "ws_rx \<Rightarrow> bool" where
  "rx_ok x \<longleftrightarrow> ws_parser_ok (r_frame x) \<and> fr_state (r_frame x) \<noteq> KL_WS_FRAME_COMPLETE"

text \<open>One turn, with the unmasked payload bytes of a parse result pulled out.\<close>

definition rx_payload :: "KlWsFrameParser \<Rightarrow> nat \<Rightarrow> nat \<Rightarrow> byte list \<Rightarrow> byte list" where
  "rx_payload fp before consumed data =
     (let n = payload_read fp - before in xor_key (mask_key fp) before (take n (drop (consumed - n) data)))"

definition rx_body :: "KlWsServerConfig \<Rightarrow> int \<Rightarrow> nat \<Rightarrow> byte list \<Rightarrow> ws_rx \<Rightarrow> bool \<times> ws_rx" where
  "rx_body cfg rc before chunk x =
     (if chunk \<noteq> [] \<and> fr_state (r_frame x) \<noteq> KL_WS_FRAME_HEADER then rx_chunk cfg rc (before = 0) chunk x
      else if rc = 1 then rx_empty cfg x else (False, x))"

definition rx_reset :: "int \<Rightarrow> bool \<times> ws_rx \<Rightarrow> bool \<times> ws_rx" where
  "rx_reset rc p = (if \<not> fst p \<and> rc = 1 then (False, (snd p)\<lparr>r_frame := kl_ws_frame_init\<rparr>) else p)"

definition rx_refused :: "int \<Rightarrow> KlWsFrameParser \<Rightarrow> bool" where
  "rx_refused rc fp \<longleftrightarrow> rc < 0 \<or> fr_state fp \<noteq> KL_WS_FRAME_HEADER \<and> \<not> masked fp"

lemma length_rx_payload:
  assumes "ws_parser_ok fp" and "kl_ws_frame_parse fp data = (rc, fp', c)" and "rc \<noteq> -1"
  shows "length (rx_payload fp' (payload_read fp) c data) = payload_read fp' - payload_read fp"
proof -
  have "c \<le> length data" "payload_read fp' - payload_read fp \<le> c" using kl_ws_frame_parse_ok [OF assms(1,2)] assms(3) by blast+
  then have "payload_read fp' - payload_read fp \<le> length data - (c - (payload_read fp' - payload_read fp))" by linarith
  then show ?thesis unfolding rx_payload_def Let_def by (simp only: length_xor_key length_take length_drop min.absorb2)
qed

lemma rx_turn_body:
  assumes "rx_ok x" and "kl_ws_frame_parse (r_frame x) data = (rc, fp, c)"
  shows "rx_turn cfg data x = (c, if rx_refused rc fp then (True, x\<lparr>r_frame := fp\<rparr>)
     else rx_reset rc (rx_body cfg rc (payload_read (r_frame x)) (rx_payload fp (payload_read (r_frame x)) c data) (x\<lparr>r_frame := fp\<rparr>)))"
proof (cases "rx_refused rc fp")
  case True
  then show ?thesis by (cases "rc < 0") (simp_all add: rx_turn_def assms(2) rx_refused_def Let_def)
next
  case False
  have "ws_parser_ok (r_frame x)" using assms(1) by (simp add: rx_ok_def)
  moreover have "rc \<noteq> -1" using False by (auto simp: rx_refused_def)
  ultimately have "length (rx_payload fp (payload_read (r_frame x)) c data) = payload_read fp - payload_read (r_frame x)"
    using length_rx_payload assms(2) by blast
  then have "(payload_read fp - payload_read (r_frame x) > 0) = (rx_payload fp (payload_read (r_frame x)) c data \<noteq> [])"
    by (metis length_greater_0_conv)
  moreover have g: "\<not> rc < 0" "\<not> (fr_state fp \<noteq> KL_WS_FRAME_HEADER \<and> \<not> masked fp)" using False by (auto simp: rx_refused_def)
  ultimately show ?thesis
    unfolding rx_turn_def Let_def assms(2) prod.case if_not_P [OF g(1)] if_not_P [OF g(2)] if_not_P [OF False]
    by (simp add: rx_body_def rx_reset_def rx_payload_def [unfolded Let_def] split: prod.splits)
qed

lemma rx_open_frame: "rx_open x = Some y \<Longrightarrow> r_frame y = r_frame x"
  by (auto simp: rx_open_def split: if_splits)

lemma rx_deliver_frame: "r_frame (snd (rx_deliver cfg x)) = r_frame x"
  by (simp add: rx_deliver_def)

lemma rx_control_frame: "r_frame (snd (rx_control cfg p x)) = r_frame x"
  by (simp add: rx_control_def)

lemma rx_append_keeps_frame: "r_frame (snd (rx_append cfg rc c x)) = r_frame x"
  by (simp add: rx_append_def Let_def rx_deliver_frame)

lemma rx_chunk_frame: "r_frame (snd (rx_chunk cfg rc fs c x)) = r_frame x"
  by (cases "rx_open x") (simp_all add: rx_chunk_def Let_def rx_control_frame rx_append_keeps_frame rx_open_frame)

lemma rx_empty_frame: "r_frame (snd (rx_empty cfg x)) = r_frame x"
  by (cases "rx_open x") (simp_all add: rx_empty_def rx_control_frame rx_deliver_frame rx_open_frame)

lemma rx_body_frame: "r_frame (snd (rx_body cfg rc before chunk x)) = r_frame x"
  by (simp add: rx_body_def rx_chunk_frame rx_empty_frame)

lemma rx_turn_ok:
  assumes "rx_ok x" and "data \<noteq> []" and "rx_turn cfg data x = (c, stop, x')"
  shows "0 < c \<and> c \<le> length data \<and> (\<not> stop \<longrightarrow> rx_ok x')"
proof -
  obtain rc fp c' where p: "kl_ws_frame_parse (r_frame x) data = (rc, fp, c')" by (metis prod_cases3)
  have ok: "ws_parser_ok (r_frame x)" "fr_state (r_frame x) \<noteq> KL_WS_FRAME_COMPLETE" using assms(1) by (simp_all add: rx_ok_def)
  note q = kl_ws_frame_parse_ok [OF ok(1) p] and pr = kl_ws_frame_parse_progress [OF ok assms(2) p]
  note t = rx_turn_body [OF assms(1) p, of cfg]
  have c: "c' = c" using t assms(3) by simp
  have "rx_ok x'" if "\<not> stop"
  proof -
    have r: "\<not> rx_refused rc fp" using that t assms(3) by auto
    then have "rc \<noteq> -1" by (auto simp: rx_refused_def)
    with q have fp: "ws_parser_ok fp" "rc \<noteq> 1 \<longrightarrow> fr_state fp \<noteq> KL_WS_FRAME_COMPLETE" by blast+
    let ?b = "rx_body cfg rc (payload_read (r_frame x)) (rx_payload fp (payload_read (r_frame x)) c' data) (x\<lparr>r_frame := fp\<rparr>)"
    have "(stop, x') = rx_reset rc ?b" using t r assms(3) by simp
    moreover have "r_frame (snd ?b) = fp" by (simp add: rx_body_frame)
    ultimately show ?thesis using that fp
      by (cases ?b) (auto simp: rx_reset_def rx_ok_def split: if_splits, simp add: kl_ws_frame_init_def)
  qed
  then show ?thesis using q pr c by blast
qed

lemma rx_loop_turn:
  assumes "rx_ok x" and "data \<noteq> []"
  shows "rx_loop cfg data x = rx_then (rx_loop cfg (drop (fst (rx_turn cfg data x)) data)) (snd (rx_turn cfg data x))"
proof -
  obtain c s x' where t: "rx_turn cfg data x = (c, s, x')" by (metis prod_cases3)
  with rx_turn_ok [OF assms t] assms(2) show ?thesis
    by (subst rx_loop.simps) (simp add: rx_then_def)
qed

lemma rx_then_cong: "rx_eq p q \<Longrightarrow> rx_eq (rx_then f p) (rx_then f q)"
  by (cases p; cases q; cases "fst p") (simp_all add: rx_eq_def rx_then_def)

lemma rx_then_assoc: "rx_then f (rx_then g p) = rx_then (\<lambda>x. rx_then f (g x)) p"
  by (simp add: rx_then_def)

lemma rx_reset_eq: "rx_eq p q \<Longrightarrow> rx_eq (rx_reset rc p) (rx_reset rc q)"
  by (cases p; cases q; cases "fst p") (simp_all add: rx_eq_def rx_reset_def)

lemma rx_payload_wait:
  assumes "payload_read fp = 0" and "payload_read fp' \<le> k" and "k \<le> length b"
  shows "rx_payload fp' 0 (k + length a) (a @ b) = rx_payload fp' (payload_read fp) k b"
  using assms by (simp add: rx_payload_def)

lemma rx_payload_split:
  assumes "before \<le> payload_read fp" and "payload_read fp - before \<le> length a" and "k \<le> length b"
    and "payload_read fp' = payload_read fp + k" and "mask_key fp' = mask_key fp"
  shows "rx_payload fp' before (k + length a) (a @ b) = rx_payload fp before (length a) a @ rx_payload fp' (payload_read fp) k b"
proof -
  let ?n = "payload_read fp - before"
  have n: "payload_read fp' - before = ?n + k" using assms(1,4) by simp
  have d: "k + length a - (?n + k) = length a - ?n" by simp
  have t: "take (?n + k) (drop (length a - ?n) (a @ b)) = drop (length a - ?n) a @ take k b"
    using assms(2) by simp
  have l: "length (drop (length a - ?n) a) = ?n" using assms(2) by simp
  have "before + ?n = payload_read fp" using assms(1) by simp
  then show ?thesis unfolding rx_payload_def Let_def n d t xor_key_append l assms(5)
    using assms(2-4) by (simp add: take_all)
qed

text \<open>A turn that waits for more bytes, followed by a turn on them, against one turn on both.\<close>

lemma rx_turn_merge:
  assumes "rx_ok x" and "a \<noteq> []" and "b \<noteq> []" and "kl_ws_frame_parse (r_frame x) a = (0, fp, m)"
    and "rx_turn cfg a x = (c, stop, y)"
  shows "\<exists>k q. rx_turn cfg (a @ b) x = (k + length a, q) \<and>
    (if stop then rx_eq q (True, y) else \<exists>q'. rx_turn cfg b y = (k, q') \<and> rx_eq q q')"
proof -
  let ?before = "payload_read (r_frame x)"
  have ok: "ws_parser_ok (r_frame x)" "fr_state (r_frame x) \<noteq> KL_WS_FRAME_COMPLETE" using assms(1) by (simp_all add: rx_ok_def)
  note pa = kl_ws_frame_parse_ok [OF ok(1) assms(4), simplified]
  then have m: "m = length a" and fp: "ws_parser_ok fp" "fr_state fp \<noteq> KL_WS_FRAME_COMPLETE"
    and rd: "?before \<le> payload_read fp" "payload_read fp - ?before \<le> length a" by auto
  obtain r' fp' k where pb: "kl_ws_frame_parse fp b = (r', fp', k)" by (metis prod_cases3)
  have pab: "kl_ws_frame_parse (r_frame x) (a @ b) = (r', fp', k + length a)"
    using kl_ws_frame_parse_append [OF assms(4), of b] pb by simp
  note qb = kl_ws_frame_parse_ok [OF fp(1) pb]
  then have k: "k \<le> length b" by blast
  note tab = rx_turn_body [OF assms(1) pab, of cfg]
  note ta = rx_turn_body [OF assms(1) assms(4), of cfg, unfolded assms(5) m]
  show ?thesis
  proof (cases "fr_state fp")
    case KL_WS_FRAME_HEADER
    then have z: "payload_read fp = 0" "?before = 0" using fp(1) rd by (simp_all add: ws_parser_ok_def)
    have "\<not> rx_refused 0 fp" using KL_WS_FRAME_HEADER by (simp add: rx_refused_def)
    then have y: "\<not> stop" "y = x\<lparr>r_frame := fp\<rparr>" using ta KL_WS_FRAME_HEADER by (simp_all add: rx_body_def rx_reset_def)
    then have "rx_ok y" using fp by (simp add: rx_ok_def)
    note tb = rx_turn_body [OF this, of b r' fp' k cfg]
    have "rx_payload fp' 0 (k + length a) (a @ b) = rx_payload fp' 0 k b" if "\<not> rx_refused r' fp'"
    proof -
      have "r' \<noteq> -1" using that by (auto simp: rx_refused_def)
      then have "payload_read fp' \<le> k" using qb z by auto
      then show ?thesis using rx_payload_wait [of fp fp' k b a] z k by simp
    qed
    with tab tb pb y z show ?thesis by (auto intro!: exI)
  next
    case KL_WS_FRAME_PAYLOAD
    note pl = kl_ws_frame_parse_payload [OF fp(1) KL_WS_FRAME_PAYLOAD pb]
    obtain n st where e: "fp' = fp\<lparr>payload_read := n, fr_state := st\<rparr>" using pl by blast
    have sh: "same_head fp fp'" "masked fp' = masked fp" "mask_key fp' = mask_key fp" by (simp_all add: e same_head_def)
    have r: "\<not> r' < 0" and st: "fr_state fp' \<noteq> KL_WS_FRAME_HEADER" and n: "payload_read fp' = payload_read fp + k"
      using pl qb by auto
    show ?thesis
    proof (cases "masked fp")
      case False
      then have "rx_refused 0 fp" "rx_refused r' fp'" using KL_WS_FRAME_PAYLOAD st sh by (simp_all add: rx_refused_def)
      with ta tab show ?thesis by (auto simp: rx_eq_def)
    next
      case True
      then have nr: "\<not> rx_refused 0 fp" "\<not> rx_refused r' fp'" using r sh by (simp_all add: rx_refused_def)
      let ?ca = "rx_payload fp ?before (length a) a" and ?cb = "rx_payload fp' (payload_read fp) k b"
      have cab: "rx_payload fp' ?before (k + length a) (a @ b) = ?ca @ ?cb"
        using rx_payload_split [OF rd k n] sh by simp
      have cb: "length ?cb = k" using length_rx_payload [OF fp(1) pb] pl n by simp
      have "0 < k" using kl_ws_frame_parse_progress [OF fp assms(3) pb] .
      with cb have cbne: "?cb \<noteq> []" by auto
      have la: "length ?ca = payload_read fp - ?before" using length_rx_payload [OF ok(1) assms(4)] m by simp
      have y: "(stop, y) = rx_body cfg 0 ?before ?ca (x\<lparr>r_frame := fp\<rparr>)" using ta nr(1) by (simp add: rx_reset_def)
      have tq: "rx_turn cfg (a @ b) x = (k + length a, rx_reset r' (rx_chunk cfg r' (?before = 0) (?ca @ ?cb) (x\<lparr>r_frame := fp'\<rparr>)))"
        using tab nr(2) cab cbne st by (simp add: rx_body_def)
      have yf: "r_frame y = fp" using y rx_body_frame [of cfg 0 ?before ?ca "x\<lparr>r_frame := fp\<rparr>"] by (metis snd_conv ws_rx.select_convs(1) ws_rx.surjective ws_rx.update_convs(1))
      have "rx_ok y" using yf fp by (simp add: rx_ok_def)
      from rx_turn_body [OF this, of b r' fp' k cfg] yf pb nr(2) cbne st
      have tb: "rx_turn cfg b y = (k, rx_reset r' (rx_chunk cfg r' (payload_read fp = 0) ?cb (y\<lparr>r_frame := fp'\<rparr>)))"
        by (simp add: rx_body_def)
      show ?thesis
      proof (cases "?ca = []")
        case True
        then have "?before = payload_read fp" using la rd by simp
        moreover have "\<not> stop" "y = x\<lparr>r_frame := fp\<rparr>" using y True by (simp_all add: rx_body_def)
        ultimately show ?thesis using tq tb True by auto
      next
        case False
        then have "0 < length ?ca" by blast
        then have p0: "(payload_read fp = 0) = False" using la by simp
        have y: "rx_chunk cfg 0 (?before = 0) ?ca (x\<lparr>r_frame := fp\<rparr>) = (stop, y)"
          using y False KL_WS_FRAME_PAYLOAD by (simp add: rx_body_def)
        have "rx_eq (rx_chunk cfg r' (?before = 0) (?ca @ ?cb) (x\<lparr>r_frame := fp'\<rparr>))
          (rx_then (\<lambda>y. rx_chunk cfg r' False ?cb (y\<lparr>r_frame := fp'\<rparr>)) (stop, y))"
          using rx_chunk_merge [OF False, of "x\<lparr>r_frame := fp\<rparr>" fp' cfg r' "?before = 0" ?cb] sh(1) y by simp
        from rx_reset_eq [OF this, of r'] tq tb [unfolded p0] show ?thesis
          by (cases stop) (auto simp: rx_then_def rx_reset_def [of r' "(True, y)"])
      qed
    qed
  qed (use fp in simp)
qed

lemma rx_loop_append:
  assumes "rx_ok x"
  shows "rx_eq (rx_loop cfg (a @ b) x) (rx_then (rx_loop cfg b) (rx_loop cfg a x))"
  using assms
proof (induction "length a" arbitrary: a x rule: less_induct)
  case less
  show ?case
  proof (cases "a = [] \<or> b = []")
    case True
    have "rx_then (rx_loop cfg []) p = p" for p by (cases p) (simp add: rx_then_def)
    moreover have "rx_then f (False, x) = f x" for f by (simp add: rx_then_def)
    ultimately show ?thesis using True by (elim disjE) simp_all
  next
    case False
    then have ne: "a \<noteq> []" "b \<noteq> []" by simp_all
    obtain rc fp m where p: "kl_ws_frame_parse (r_frame x) a = (rc, fp, m)" by (metis prod_cases3)
    obtain c stop y where t: "rx_turn cfg a x = (c, stop, y)" by (metis prod_cases3)
    have m: "m = c" using rx_turn_body [OF less.prems p, of cfg] t by simp
    note tok = rx_turn_ok [OF less.prems ne(1) t]
    have la: "rx_loop cfg a x = rx_then (rx_loop cfg (drop c a)) (stop, y)" using rx_loop_turn [OF less.prems ne(1), of cfg] t by simp
    have ab: "a @ b \<noteq> []" using ne by simp
    show ?thesis
    proof (cases "rc = 0")
      case False
      then have p': "kl_ws_frame_parse (r_frame x) (a @ b) = (rc, fp, m)" using kl_ws_frame_parse_append [OF p, of b] by simp
      have "rx_payload fp before m (a @ b) = rx_payload fp before m a" if "rc \<noteq> -1" "before = payload_read (r_frame x)" for before
      proof -
        have "payload_read fp - before \<le> m" using kl_ws_frame_parse_ok [of "r_frame x" a rc fp m] less.prems p that by (simp add: rx_ok_def)
        moreover have "m \<le> length a" using tok m by simp
        ultimately show ?thesis by (simp add: rx_payload_def)
      qed
      then have t': "rx_turn cfg (a @ b) x = (c, stop, y)"
        using rx_turn_body [OF less.prems p', of cfg] rx_turn_body [OF less.prems p, of cfg] t by (auto simp: rx_refused_def)
      have lab: "rx_loop cfg (a @ b) x = rx_then (rx_loop cfg (drop c a @ b)) (stop, y)"
        using rx_loop_turn [OF less.prems ab, of cfg] t' tok by simp
      show ?thesis
      proof (cases stop)
        case True
        then show ?thesis unfolding la lab by (simp add: rx_then_def)
      next
        case False
        have "length (drop c a) < length a" using tok ne by simp
        from less.hyps [OF this, of y] tok False show ?thesis unfolding la lab by (simp add: rx_then_def)
      qed
    next
      case True
      have c: "drop c a = []" using kl_ws_frame_parse_append [OF p, of b] True m by simp
      then have la: "rx_loop cfg a x = (stop, y)" using la by (simp add: rx_then_def)
      obtain k q where q: "rx_turn cfg (a @ b) x = (k + length a, q)"
        "if stop then rx_eq q (True, y) else \<exists>q'. rx_turn cfg b y = (k, q') \<and> rx_eq q q'"
        using rx_turn_merge [OF less.prems ne p [unfolded True] t] by blast
      have lab: "rx_loop cfg (a @ b) x = rx_then (rx_loop cfg (drop k b)) q" using rx_loop_turn [OF less.prems ab, of cfg] q(1) by simp
      show ?thesis
      proof (cases stop)
        case True
        with q have "rx_eq q (True, y)" by simp
        then show ?thesis unfolding la lab using True by (auto simp: rx_then_def rx_eq_def)
      next
        case False
        with q obtain q' where q': "rx_turn cfg b y = (k, q')" "rx_eq q q'" by auto
        have "rx_ok y" using tok False by simp
        then have "rx_loop cfg b y = rx_then (rx_loop cfg (drop k b)) q'" using rx_loop_turn ne(2) q'(1) by simp
        with rx_then_cong [OF q'(2)] False show ?thesis unfolding la lab by (simp add: rx_then_def [of "rx_loop cfg b"])
      qed
    qed
  qed
qed

lemma rx_loop_ok: "rx_ok x \<Longrightarrow> rx_loop cfg data x = (False, x') \<Longrightarrow> rx_ok x'"
proof (induction cfg data x rule: rx_loop.induct)
  case (1 cfg data x)
  show ?case
  proof (cases "data = []")
    case False
    obtain c s y where t: "rx_turn cfg data x = (c, s, y)" by (metis prod_cases3)
    note tok = rx_turn_ok [OF "1.prems"(1) False t]
    have l: "rx_then (rx_loop cfg (drop c data)) (s, y) = (False, x')" using rx_loop_turn [OF "1.prems"(1) False, of cfg] t "1.prems"(2) by simp
    then have "\<not> s" by (auto simp: rx_then_def split: if_splits)
    with l tok show ?thesis using "1.IH" [OF False t [symmetric] refl] by (simp add: rx_then_def)
  qed (use "1.prems" in simp)
qed

section \<open>Reads\<close>

text \<open>The connection driver hands over one read after the other until the connection is closed.\<close>

fun ws_reads :: "'e ws_hooks \<Rightarrow> byte list list \<Rightarrow> KlWsServerConn \<Rightarrow> 'e \<Rightarrow> ws_ret \<times> KlWsServerConn \<times> 'e" where
  "ws_reads H [] ws e = (KL_HTTP_CONN_WEBSOCKET, ws, e)"
| "ws_reads H (d # ds) ws e =
     (let (ret, ws, e) = kl_ws_server_on_readable_data H d ws e in
      if ret = KL_HTTP_CONN_CLOSED then (ret, ws, e) else ws_reads H ds ws e)"

fun rx_reads :: "KlWsServerConfig \<Rightarrow> byte list list \<Rightarrow> ws_rx \<Rightarrow> bool \<times> ws_rx" where
  "rx_reads cfg [] x = (False, x)"
| "rx_reads cfg (d # ds) x = rx_then (rx_reads cfg ds) (rx_loop cfg d x)"

lemma rx_reads_concat: "rx_ok x \<Longrightarrow> rx_eq (rx_loop cfg (concat ds) x) (rx_reads cfg ds x)"
proof (induction ds arbitrary: x)
  case (Cons d ds)
  obtain s y where l: "rx_loop cfg d x = (s, y)" by fastforce
  note m = rx_loop_append [OF Cons.prems, of cfg d "concat ds", unfolded l]
  have "rx_eq (rx_then (rx_loop cfg (concat ds)) (s, y)) (rx_then (rx_reads cfg ds) (s, y))"
    using Cons.IH [of y] rx_loop_ok [OF Cons.prems, of cfg d y] l by (cases s) (simp_all add: rx_then_def)
  from rx_eq_trans [OF m this] show ?case unfolding concat.simps rx_reads.simps l .
qed simp

lemma rx_handlers_open:
  "\<not> fst (rx_deliver cfg x) \<Longrightarrow> r_closed (snd (rx_deliver cfg x)) = r_closed x"
  "\<not> fst (rx_control cfg c x) \<Longrightarrow> r_closed (snd (rx_control cfg c x)) = r_closed x"
  "rx_open x = Some y \<Longrightarrow> r_closed y = r_closed x"
  by (auto simp: rx_deliver_def rx_control_def rx_open_def split: if_splits)

lemma rx_append_open: "\<not> fst (rx_append cfg rc c x) \<Longrightarrow> r_closed (snd (rx_append cfg rc c x)) = r_closed x"
  by (auto simp: rx_append_def rx_deliver_def Let_def split: if_splits)

lemma rx_chunk_open: "\<not> fst (rx_chunk cfg rc fs c x) \<Longrightarrow> r_closed (snd (rx_chunk cfg rc fs c x)) = r_closed x"
  by (cases "rx_open x"; cases "rc = 1")
    (simp_all add: rx_chunk_def Let_def rx_append_open rx_handlers_open split: if_splits)

lemma rx_empty_open: "\<not> fst (rx_empty cfg x) \<Longrightarrow> r_closed (snd (rx_empty cfg x)) = r_closed x"
  by (cases "rx_open x"; cases "fin (r_frame x) \<and> r_op x \<noteq> 0")
    (auto simp: rx_empty_def rx_handlers_open split: if_split_asm)

lemma rx_turn_open:
  assumes "rx_ok x" and "rx_turn cfg data x = (c, False, y)"
  shows "r_closed y = r_closed x"
proof -
  obtain rc fp m where p: "kl_ws_frame_parse (r_frame x) data = (rc, fp, m)" by (metis prod_cases3)
  let ?b = "rx_body cfg rc (payload_read (r_frame x)) (rx_payload fp (payload_read (r_frame x)) m data) (x\<lparr>r_frame := fp\<rparr>)"
  from rx_turn_body [OF assms(1) p, of cfg] assms(2) have r: "(False, y) = rx_reset rc ?b" by (auto split: if_splits)
  then have "\<not> fst ?b" by (cases ?b) (auto simp: rx_reset_def split: if_splits)
  then have "r_closed (snd ?b) = r_closed x"
    using rx_chunk_open [of cfg rc "payload_read (r_frame x) = 0" _ "x\<lparr>r_frame := fp\<rparr>"] rx_empty_open [of cfg "x\<lparr>r_frame := fp\<rparr>"]
    by (cases "rc = 1") (auto simp: rx_body_def split: if_split_asm)
  with r show ?thesis by (cases ?b) (auto simp: rx_reset_def split: if_splits)
qed

lemma rx_loop_open: "rx_ok x \<Longrightarrow> rx_loop cfg data x = (False, x') \<Longrightarrow> r_closed x' = r_closed x"
proof (induction cfg data x rule: rx_loop.induct)
  case (1 cfg data x)
  show ?case
  proof (cases "data = []")
    case False
    obtain c s y where t: "rx_turn cfg data x = (c, s, y)" by (metis prod_cases3)
    note tok = rx_turn_ok [OF "1.prems"(1) False t]
    have l: "rx_then (rx_loop cfg (drop c data)) (s, y) = (False, x')" using rx_loop_turn [OF "1.prems"(1) False, of cfg] t "1.prems"(2) by simp
    then have s: "\<not> s" by (auto simp: rx_then_def split: if_splits)
    with l tok have "r_closed x' = r_closed y" using "1.IH" [OF False t [symmetric] refl] by (simp add: rx_then_def)
    with rx_turn_open [OF "1.prems"(1)] t s show ?thesis by simp
  qed (use "1.prems" in simp)
qed

lemma ws_reads_sim:
  assumes "env_ok H cfg"
  shows "config ws = cfg \<Longrightarrow> rx_ok (rx_of ws) \<Longrightarrow> \<not> close_received ws \<Longrightarrow> ws_reads H ds ws e = (ret, ws', e') \<Longrightarrow>
    rx_reads cfg ds (rx_of ws) = (stop, x) \<Longrightarrow>
    rx_of ws' = x \<and> ret = (if stop then KL_HTTP_CONN_CLOSED else KL_HTTP_CONN_WEBSOCKET)"
proof (induction ds arbitrary: ws e)
  case (Cons d ds)
  obtain r1 ws1 e1 where 1: "kl_ws_server_on_readable_data H d ws e = (r1, ws1, e1)" by (metis prod_cases3)
  obtain s1 x1 where 2: "rx_loop cfg d (rx_of ws) = (s1, x1)" by fastforce
  let ?ws = "if length d > 0 then ws\<lparr>ping_unanswered := False\<rparr> else ws"
  have w: "config ?ws = cfg" "rx_of ?ws = rx_of ws" using Cons.prems(1) by simp_all
  have "ws_frame_loop H d ?ws e = (r1, ws1, e1)" using 1 by (simp add: kl_ws_server_on_readable_data_def)
  from ws_frame_loop_sim [OF assms w(1) this, unfolded w(2), OF 2]
  have s: "rx_of ws1 = x1" "config ws1 = cfg"
    "r1 = (if s1 \<or> close_sent ws1 \<and> close_received ws1 then KL_HTTP_CONN_CLOSED else KL_HTTP_CONN_WEBSOCKET)"
    by blast+
  show ?case
  proof (cases s1)
    case True
    with s 1 2 Cons.prems(4,5) show ?thesis by (simp add: rx_then_def)
  next
    case False
    have "r_closed x1 = close_received ws" using rx_loop_open [OF Cons.prems(2)] 2 False by simp
    then have cr: "\<not> close_received ws1" using s(1) Cons.prems(3) by auto
    have "rx_ok (rx_of ws1)" using rx_loop_ok [OF Cons.prems(2)] 2 False s(1) by simp
    with Cons.IH [OF s(2) this cr] cr s 1 2 False Cons.prems(4,5) show ?thesis by (simp add: rx_then_def)
  qed
qed simp


section \<open>The messages of a stream of frames\<close>

text \<open>
  A frame of a client: the final flag, the opcode, the mask key and the payload; its bytes on the wire; and
  what RFC 6455 5.4 makes of a sequence of frames within the limits of a configuration. \<open>cur\<close> is the message
  being assembled; the result has the callbacks, whether a Close frame ended the connection, and the
  message still open, and is \<open>None\<close> for a sequence the protocol or the limits forbid.
\<close>

type_synonym client_frame = "bool \<times> nat \<times> byte list \<times> byte list"

fun frame_ok :: "client_frame \<Rightarrow> bool" where
  "frame_ok (f, op, key, p) \<longleftrightarrow> ws_header_ok f op (Some key) (length p)"

fun frame_bytes :: "client_frame \<Rightarrow> byte list" where
  "frame_bytes (f, op, key, p) = ws_header f op (Some key) (length p) @ xor_key key 0 p"

type_synonym open_message = "(nat \<times> byte list) option"

definition text_ok :: "nat \<Rightarrow> bool \<Rightarrow> byte list \<Rightarrow> bool" where
  "text_ok op final m \<longleftrightarrow> op \<noteq> KL_WS_OP_TEXT \<or>
     (if final then kl_utf8_validate KL_UTF8_ACCEPT m = KL_UTF8_ACCEPT else kl_utf8_validate KL_UTF8_ACCEPT m \<noteq> KL_UTF8_REJECT)"

definition emit :: "ws_event list \<Rightarrow> (ws_event list \<times> bool \<times> open_message) option \<Rightarrow> (ws_event list \<times> bool \<times> open_message) option" where
  "emit evs = map_option (\<lambda>(es, c, m). (evs @ es, c, m))"

fun ws_spec :: "KlWsServerConfig \<Rightarrow> open_message \<Rightarrow> client_frame list \<Rightarrow> (ws_event list \<times> bool \<times> open_message) option" where
  "ws_spec cfg cur [] = Some ([], False, cur)"
| "ws_spec cfg cur ((f, op, key, p) # fs) =
     (if length p > ws_max_frame cfg then None
      else if op = KL_WS_OP_CLOSE then Some (if cb_close cfg then [close_event p] else [], True, cur)
      else if op = KL_WS_OP_PING then emit (if cb_ping cfg then [On_ping p] else []) (ws_spec cfg cur fs)
      else if op = KL_WS_OP_PONG then ws_spec cfg cur fs
      else case (if op = KL_WS_OP_CONTINUATION then cur else if cur = None then Some (op, []) else None) of
          None \<Rightarrow> None
        | Some (op, acc) \<Rightarrow>
            if length (acc @ p) > ws_max_message cfg \<or> \<not> text_ok op f (acc @ p) then None
            else if f then emit (if cb_message cfg then [On_message (acc @ p) (op = KL_WS_OP_BINARY)] else []) (ws_spec cfg None fs)
            else ws_spec cfg (Some (op, acc @ p)) fs)"

text \<open>The state of the receiver between two frames.\<close>

definition rx_between :: "open_message \<Rightarrow> ws_rx \<Rightarrow> bool" where
  "rx_between cur x \<longleftrightarrow> r_frame x = kl_ws_frame_init \<and>
     (case cur of None \<Rightarrow> r_op x = 0
      | Some (op, acc) \<Rightarrow> r_op x = op \<and> op \<in> {1, 2} \<and> r_msg x = acc \<and>
          (op = KL_WS_OP_TEXT \<longrightarrow> r_utf8 x = kl_utf8_validate KL_UTF8_ACCEPT acc \<and> r_utf8 x \<noteq> KL_UTF8_REJECT))"

lemma rx_between_ok: "rx_between cur x \<Longrightarrow> rx_ok x"
  unfolding rx_between_def rx_ok_def using ws_parser_ok_init by (simp add: kl_ws_frame_init_def)

definition frame_fp :: "client_frame \<Rightarrow> KlWsFrameParser" where
  "frame_fp fr = (case fr of (f, op, key, p) \<Rightarrow>
     (ws_header_fp f op (Some key) (length p))\<lparr>fr_state := KL_WS_FRAME_COMPLETE, payload_read := length p\<rparr>)"

lemma frame_fp_simps [simp]:
  "opcode (frame_fp (f, op, key, p)) = op" "fin (frame_fp (f, op, key, p)) = f" "payload_len (frame_fp (f, op, key, p)) = length p"
  "fr_state (frame_fp (f, op, key, p)) = KL_WS_FRAME_COMPLETE"
  by (simp_all add: frame_fp_def ws_header_fp_def)

lemma rx_turn_frame:
  assumes "rx_ok x" and "r_frame x = kl_ws_frame_init" and "frame_ok fr" and "fr = (f, op, key, p)"
  shows "rx_turn cfg (frame_bytes fr @ rest) x =
    (length (frame_bytes fr), rx_reset 1 (rx_body cfg 1 0 p (x\<lparr>r_frame := frame_fp fr\<rparr>)))"
proof -
  let ?h = "ws_header f op (Some key) (length p)" and ?q = "xor_key key 0 p"
  have "kl_ws_frame_parse (r_frame x) (?h @ ?q @ rest) = (1, frame_fp fr, length ?h + length p)"
    using ws_payload_phase_whole [of f op "Some key" ?q rest] assms(2-4) by (simp add: frame_fp_def)
  note t = rx_turn_body [OF assms(1) this, of cfg]
  have "payload_read (r_frame x) = 0" using assms(2) by (simp add: kl_ws_frame_init_def)
  moreover have "\<not> rx_refused 1 (frame_fp fr)" by (simp add: rx_refused_def frame_fp_def ws_header_fp_def assms(4))
  moreover have "rx_payload (frame_fp fr) 0 (length ?h + length p) (?h @ ?q @ rest) = p"
    by (simp add: rx_payload_def frame_fp_def ws_header_fp_def assms(4))
  ultimately show ?thesis using t assms(4) by simp
qed

lemma rx_body_control:
  assumes "8 \<le> op" and "length p \<le> ws_max_frame cfg" and "fr = (f, op, key, p)"
  shows "rx_body cfg 1 0 p (x\<lparr>r_frame := frame_fp fr\<rparr>) =
    rx_control cfg p (x\<lparr>r_frame := frame_fp fr, r_ctrl := if p = [] then r_ctrl x else p\<rparr>)"
  using assms by (cases "p = []") (simp_all add: rx_body_def rx_chunk_def rx_empty_def)

lemma rx_body_data:
  assumes "\<not> 8 \<le> op" and "length p \<le> ws_max_frame cfg" and "fr = (f, op, key, p)"
    and "rx_open (x\<lparr>r_frame := frame_fp fr\<rparr>) = Some y" and "length (r_msg y) \<le> ws_max_message cfg"
    and "r_op y = KL_WS_OP_TEXT \<Longrightarrow> r_utf8 y \<noteq> KL_UTF8_REJECT"
  shows "rx_body cfg 1 0 p (x\<lparr>r_frame := frame_fp fr\<rparr>) = rx_append cfg 1 p y"
proof (cases "p = []")
  case True
  have "r_frame y = frame_fp fr" using rx_open_frame [OF assms(4)] by simp
  with True assms show ?thesis by (simp add: rx_body_def rx_empty_def rx_append_def Let_def)
next
  case False
  with assms show ?thesis by (simp add: rx_body_def rx_chunk_def)
qed

text \<open>A data frame that continues or opens the message \<open>(op', acc)\<close>.\<close>

lemma rx_frame_data:
  assumes "rx_between cur x" and "frame_ok fr" and "fr = (f, op, key, p)" and "op \<notin> {8, 9, 10}" and "length p \<le> ws_max_frame cfg"
    and "(if op = KL_WS_OP_CONTINUATION then cur else if cur = None then Some (op, []) else None) = Some (op', acc)"
    and "length (acc @ p) \<le> ws_max_message cfg" and "text_ok op' f (acc @ p)"
  shows "\<exists>x'. rx_reset 1 (rx_body cfg 1 0 p (x\<lparr>r_frame := frame_fp fr\<rparr>)) = (False, x') \<and>
    rx_between (if f then None else Some (op', acc @ p)) x' \<and>
    r_events x' = r_events x @ (if f \<and> cb_message cfg then [On_message (acc @ p) (op' = KL_WS_OP_BINARY)] else [])"
proof -
  have op: "op \<in> {0, 1, 2}" using assms(2-4) by (auto simp: ws_header_ok_def)
  let ?x = "x\<lparr>r_frame := frame_fp fr\<rparr>"
  define y where "y = (if op = 0 then ?x else ?x\<lparr>r_op := op, r_msg := [], r_utf8 := KL_UTF8_ACCEPT\<rparr>)"
  have o: "rx_open ?x = Some y" "op' \<in> {1, 2}" "r_op y = op'" "r_msg y = acc" "r_frame y = frame_fp fr" "r_events y = r_events x"
    and u: "op' = 1 \<Longrightarrow> r_utf8 y = kl_utf8_validate KL_UTF8_ACCEPT acc \<and> r_utf8 y \<noteq> KL_UTF8_REJECT"
    using assms(1,3,6) op by (auto simp: rx_open_def y_def rx_between_def KL_UTF8_ACCEPT_def KL_UTF8_REJECT_def split: if_splits)
  have b: "rx_body cfg 1 0 p ?x = rx_append cfg 1 p y"
    using assms(3,5,7) op o u by (intro rx_body_data) auto
  let ?z = "y\<lparr>r_msg := acc @ p, r_utf8 := if op' = 1 then kl_utf8_validate KL_UTF8_ACCEPT (acc @ p) else r_utf8 y\<rparr>"
  have "kl_utf8_validate (r_utf8 y) p = kl_utf8_validate KL_UTF8_ACCEPT (acc @ p)" if "op' = 1"
    using u [OF that] utf8_validate_append [of KL_UTF8_ACCEPT acc p] by simp
  moreover have "kl_utf8_validate KL_UTF8_ACCEPT (acc @ p) \<noteq> KL_UTF8_REJECT" if "op' = 1"
    using assms(8) that by (auto simp: text_ok_def KL_UTF8_ACCEPT_def KL_UTF8_REJECT_def split: if_splits)
  ultimately have a: "rx_append cfg 1 p y = (if f then rx_deliver cfg ?z else (False, ?z))"
    using o assms(3,7) by (simp add: rx_append_def Let_def)
  show ?thesis
  proof (cases f)
    case True
    then have "rx_deliver cfg ?z = (False, ?z\<lparr>r_msg := [], r_op := 0, r_utf8 := KL_UTF8_ACCEPT,
        r_events := r_events x @ (if cb_message cfg then [On_message (acc @ p) (op' = KL_WS_OP_BINARY)] else [])\<rparr>)"
      using assms(8) o by (auto simp: rx_deliver_def text_ok_def)
    with a b True show ?thesis by (simp add: rx_reset_def rx_between_def)
  next
    case False
    with a b o assms(8) show ?thesis by (auto simp: rx_reset_def rx_between_def text_ok_def)
  qed
qed

lemma rx_between_upd:
  "rx_between cur x \<Longrightarrow> rx_between cur (x\<lparr>r_ctrl := c\<rparr>)" "rx_between cur x \<Longrightarrow> rx_between cur (x\<lparr>r_ctrl := c, r_events := evs\<rparr>)"
  by (cases cur; auto simp: rx_between_def)+

lemma emit_SomeE:
  assumes "emit evs r = Some (es, c, m)"
  obtains es' where "r = Some (es', c, m)" and "es = evs @ es'"
  using assms by (auto simp: emit_def)

lemma rx_loop_frame:
  assumes "rx_between cur x" and "frame_ok fr" and "fr = (f, op, key, p)"
  shows "rx_loop cfg (frame_bytes fr @ rest) x =
    rx_then (rx_loop cfg rest) (rx_reset 1 (rx_body cfg 1 0 p (x\<lparr>r_frame := frame_fp fr\<rparr>)))"
proof -
  have ok: "rx_ok x" "r_frame x = kl_ws_frame_init" using assms(1) rx_between_ok by (auto simp: rx_between_def)
  have "frame_bytes fr @ rest \<noteq> []" using assms(3) by (simp add: ws_header_def)
  from rx_loop_turn [OF ok(1) this, of cfg] rx_turn_frame [OF ok assms(2,3), of cfg rest] show ?thesis by simp
qed

lemma rx_loop_spec:
  assumes "rx_between cur x" and "list_all frame_ok fs" and "ws_spec cfg cur fs = Some (evs, closed, cur')"
  shows "\<exists>x'. rx_loop cfg (concat (map frame_bytes fs)) x = (closed, x') \<and> r_events x' = r_events x @ evs"
  using assms
proof (induction cfg cur fs arbitrary: x evs rule: ws_spec.induct)
  case (2 cfg cur f op key p fs)
  let ?fr = "(f, op, key, p)" and ?rest = "concat (map frame_bytes fs)"
  have ok: "frame_ok ?fr" "list_all frame_ok fs" using "2.prems"(2) by simp_all
  note loop = rx_loop_frame [OF "2.prems"(1) ok(1) refl, of cfg ?rest]
  have len: "length p \<le> ws_max_frame cfg" using "2.prems"(3) by (auto split: if_splits)
  have c: "rx_body cfg 1 0 p (x\<lparr>r_frame := frame_fp ?fr\<rparr>) =
    rx_control cfg p (x\<lparr>r_frame := frame_fp ?fr, r_ctrl := if p = [] then r_ctrl x else p\<rparr>)" if "8 \<le> op"
    by (rule rx_body_control [OF that len refl])
  consider (cl) "op = 8" | (pi) "op = 9" | (po) "op = 10" | (da) "op \<notin> {8, 9, 10}" by blast
  then show ?case
  proof cases
    case cl
    with "2.prems"(3) len have "closed" "evs = (if cb_close cfg then [close_event p] else [])" by (auto split: if_splits)
    with cl c loop show ?thesis by (simp add: rx_control_def rx_reset_def rx_then_def)
  next
    case pi
    with "2.prems"(3) len obtain es where es: "ws_spec cfg cur fs = Some (es, closed, cur')" "evs = (if cb_ping cfg then [On_ping p] else []) @ es"
      by (auto elim!: emit_SomeE split: if_splits)
    let ?y = "x\<lparr>r_ctrl := if p = [] then r_ctrl x else p, r_events := r_events x @ (if cb_ping cfg then [On_ping p] else [])\<rparr>"
    have "rx_reset 1 (rx_body cfg 1 0 p (x\<lparr>r_frame := frame_fp ?fr\<rparr>)) = (False, ?y)"
      using pi c "2.prems"(1) by (simp add: rx_control_def rx_reset_def rx_between_def)
    moreover have "rx_between cur ?y" using "2.prems"(1) by (rule rx_between_upd)
    ultimately show ?thesis using "2.IH"(1) [OF _ _ pi _ ok(2) es(1)] len pi loop es(2) by (fastforce simp: rx_then_def)
  next
    case po
    with "2.prems"(3) len have es: "ws_spec cfg cur fs = Some (evs, closed, cur')" by (simp split: if_splits)
    let ?y = "x\<lparr>r_ctrl := if p = [] then r_ctrl x else p\<rparr>"
    have "rx_reset 1 (rx_body cfg 1 0 p (x\<lparr>r_frame := frame_fp ?fr\<rparr>)) = (False, ?y)"
      using po c "2.prems"(1) by (simp add: rx_control_def rx_reset_def rx_between_def)
    moreover have "rx_between cur ?y" using "2.prems"(1) by (rule rx_between_upd)
    ultimately show ?thesis using "2.IH"(2) [OF _ _ _ po _ ok(2) es] len po loop by (fastforce simp: rx_then_def)
  next
    case da
    from "2.prems"(3) da len obtain op' acc es where
      o: "(if op = KL_WS_OP_CONTINUATION then cur else if cur = None then Some (op, []) else None) = Some (op', acc)"
      and l: "length (acc @ p) \<le> ws_max_message cfg" and t: "text_ok op' f (acc @ p)"
      and es: "ws_spec cfg (if f then None else Some (op', acc @ p)) fs = Some (es, closed, cur')"
        "evs = (if f \<and> cb_message cfg then [On_message (acc @ p) (op' = KL_WS_OP_BINARY)] else []) @ es"
      by (auto elim!: emit_SomeE split: if_splits option.splits)
    obtain y where y: "rx_reset 1 (rx_body cfg 1 0 p (x\<lparr>r_frame := frame_fp ?fr\<rparr>)) = (False, y)"
      "rx_between (if f then None else Some (op', acc @ p)) y"
      "r_events y = r_events x @ (if f \<and> cb_message cfg then [On_message (acc @ p) (op' = KL_WS_OP_BINARY)] else [])"
      using rx_frame_data [OF "2.prems"(1) ok(1) refl da len o l t] by blast
    have "\<exists>x'. rx_loop cfg ?rest y = (closed, x') \<and> r_events x' = r_events y @ es"
    proof (cases f)
      case True
      with "2.IH"(3) [of "(op', acc)" op' acc y es] da len o l t es(1) y(2) ok(2) show ?thesis by simp
    next
      case False
      with "2.IH"(4) [of "(op', acc)" op' acc y es] da len o l t es(1) y(2) ok(2) show ?thesis by simp
    qed
    with y loop es(2) show ?thesis by (auto simp: rx_then_def)
  qed
qed simp


section \<open>A connection that runs\<close>

text \<open>A transport that takes everything, a stopped clock and an application that only watches.\<close>

definition watch_hooks :: "unit ws_hooks" where
  "watch_hooks =
     \<lparr>conn_write = (\<lambda>data e. (int (length data), e)), conn_read = (\<lambda>n e. ((0, []), e)), has_tls = False,
      tls_pending = (\<lambda>e. 0), out_would_block = (\<lambda>n e. False), write_window = (\<lambda>n e. n), sock_would_block = (\<lambda>e. False),
      request_write = id, set_last_active = (\<lambda>t e. e), send_progress = (\<lambda>e. 0), out_pending = (\<lambda>e. False),
      monotonic_ms = (\<lambda>e. (0, e)), sizeof_conn = 1, ws_alloc = (\<lambda>n e. (True, e)), app = (\<lambda>ev ws e. (ws, e))\<rparr>"

definition watch_config :: KlWsServerConfig where
  "watch_config = kl_ws_server_config_init\<lparr>cb_message := True, cb_ping := True\<rparr>"

lemma watch_env_ok: "env_ok watch_hooks watch_config"
  by (simp add: env_ok_def app_ok_def watch_hooks_def watch_config_def kl_ws_server_config_init_def ws_max_message_def
      WS_DEFAULT_MAX_MESSAGE_def SIZE_MAX_def ws_api_refl)

lemma unit_result: "\<exists>r ws. (q :: ws_ret \<times> KlWsServerConn \<times> unit) = (r, ws, ())"
  by (cases q) simp



end
