(* ===== verification/Spec2Isabelle.thy ===== *)
theory Spec2Isabelle
  imports Timer Stream_Props Listener_Props Url Sockaddr_Text Proxy Router Chunked_Grammar Utf8 Ws_Messages
begin

text \<open>
  A verification development of Keel, an HTTP, WebSocket and transport library in C
  (\<open>include/keel\<close>, \<open>src\<close>).

  The parts of Keel and how they meet. An event loop (\<open>event_ctx.c\<close> over one of the event backends) runs
  watchers and timers. A listener (\<open>listener.c\<close>) posts accepts and hands each connection on with a lease
  on a pool slot. A stream (\<open>stream_*.c\<close>) is the raw transport of one connection: it reads under pause and
  resume, queues writes in a drain (\<open>drain.c\<close>) and closes once nothing is outstanding. The HTTP layer
  (\<open>src/protocols/http\<close>) parses requests, routes them (\<open>http_router.c\<close>) and feeds bodies to readers,
  chunked bodies through \<open>http1_chunked.c\<close>. A request may be upgraded to WebSocket
  (\<open>src/protocols/websocket\<close>). Addresses (\<open>sockaddr.c\<close>), URLs (\<open>url.c\<close>) and C strings (\<open>kl_cstr.c\<close>) are
  shared by all of them, and \<open>proxy_protocol.c\<close> reads the client's address from a load balancer.

  Theories and what they model.

  \<^item> \<open>Keel_Prelude\<close>: machine types, conventions and generic lemmas. \<open>Reentrancy\<close>: the interface of a component
    whose hooks may call back into it. A hook is a script of reactions, each a list of calls and a return value;
    the locale \<open>reentrant\<close> turns one-call invariants into invariants of every nesting of calls.
  \<^item> \<open>Timer\<close> (\<open>timer.c\<close>): the binary heap of timers, add, cancel, next timeout and fire, callbacks included.
    The locale \<open>min_queue\<close> has the laws of a priority queue and is interpreted on the heap. Shown: timers fire
    in order of deadline and then of registration, firing returns, cancel removes exactly one timer.
  \<^item> \<open>Drain\<close> (\<open>drain.c\<close>, \<open>drain_reserve.h\<close>): both write disciplines of the backpressure buffer over any writer.
    The locale \<open>write_queue\<close> says that what was sent followed by what is queued is what was accepted.
  \<^item> \<open>Stream\<close>, \<open>Stream_Inv\<close>, \<open>Stream_Props\<close> (\<open>stream.c\<close>, \<open>stream_read.c\<close>, \<open>stream_write.c\<close>, \<open>stream_close.c\<close>):
    every function of the stream with reentrant hooks, an invariant kept by all of them, and the callback
    contract, termination, detachment, ordering and retirement properties. Two properties exhibit executions
    in which the code departs from \<open>docs/contracts/stream.md\<close>.
  \<^item> \<open>Listener\<close>, \<open>Listener_Props\<close> (\<open>listener.c\<close>): the accept pump with reservations, leases, pause, cancel and
    detachment, over the same reentrant hooks.
  \<^item> \<open>Cstr\<close> (\<open>kl_cstr.c\<close>), \<open>Url\<close> (\<open>url.c\<close>), \<open>Sockaddr\<close> and \<open>Sockaddr_Text\<close> (\<open>sockaddr.c\<close>): parsers and
    formatters as total functions on character lists, with round trips and safety of what is accepted.
  \<^item> \<open>Proxy\<close> (\<open>proxy_protocol.c\<close>): the PROXY header parser and the list of trusted networks.
  \<^item> \<open>Router\<close> (\<open>http_router.c\<close>): registration, matching, captures, middleware and synthetic dispatch, against a
    specification on lists of path segments.
  \<^item> \<open>Body_Reader\<close> (\<open>http_body_reader_buffer.c\<close>), \<open>Chunked\<close>, \<open>Chunked_Grammar\<close> (\<open>http1_chunked.c\<close>): the decoder
    against any body reader (locales \<open>body_reader\<close>, \<open>bounded_reader\<close>), equal to the grammar of RFC 9112 and
    independent of how the input is cut.
  \<^item> \<open>Utf8\<close> (\<open>utf8.h\<close>), \<open>Ws_Handshake\<close> (\<open>sha1.h\<close>, \<open>base64.h\<close>, the upgrade of \<open>http_server_ws.c\<close>), \<open>Ws_Frame\<close>
    (\<open>websocket.c\<close>, frame encoders), \<open>Ws_Server\<close> (\<open>http_server_ws.c\<close>): the WebSocket server. \<open>Ws_Receive\<close> and
    \<open>Ws_Messages\<close> show that the receive loop simulates a pure receiver, does not depend on how reads are cut,
    and delivers what a message-level specification says.

  Correspondence. A struct is a record with the source's fields, an enum a datatype, a function a definition of
  the same name that returns the new state and the C return value; a loop is a recursive function beside it.
  A definition whose name is not in the source names a part of the function named in its comment. Transport,
  allocator, clock and application callbacks are parameters (records of functions over an environment, or scripts
  of reactions). Ghost fields (bytes on the wire, traces of hook calls, events) are written and never read.

  Bounds and fuel. Loops that call hooks take fuel, because a hook may ask for another round: the stream's and the
  listener's trampolines get fuel from the number of reactions the script still holds, and the termination
  properties show that this is enough for every script. All other loops are total functions with a termination
  proof. \<open>size_t\<close> is 64 bits wide. The spin bound of \<open>conn_write_all\<close> is the source's.

  Not modelled: event backends and platform glue (system calls), TLS and compression back ends and the vendored
  HTTP parser (not part of the sources or behind a vtable), datagrams, DNS, HTTP/2, the HTTP client and server
  cores, multipart, thread pool, and allocation beyond the success or failure of each call.
\<close>

end
